(* ===== verification/Prelude.thy ===== *)
theory Prelude
  imports Complex_Main "HOL-Library.Word" "HOL-Library.AList"
begin

text \<open>
  Shared vocabulary of the development: the machine types of the Go source, the
  big-endian integer codec of \<^verbatim>\<open>encoding/binary\<close>, Go slices and strings, Go's
  truncating integer division, the interface locales for wire codecs and for
  invariants of operation sequences, and the generic lemmas that the component
  theories use through the collections \<open>codec_simps\<close> and \<open>go_simps\<close>.
\<close>

unbundle bit_operations_syntax

named_theorems codec_simps \<open>byte-level encodings: lengths and round trips\<close>
named_theorems go_simps \<open>Go operations on slices, strings and integers\<close>

type_synonym byte = "8 word"
type_synonym bytes = "8 word list"
type_synonym uint16 = "16 word"
type_synonym uint32 = "32 word"
type_synonym uint64 = "64 word"

text \<open>Durations and instants are nanosecond counts, as \<^verbatim>\<open>time.Duration\<close> is.\<close>

type_synonym duration = int

abbreviation (input) microsecond :: duration where "microsecond \<equiv> 1000"
abbreviation (input) millisecond :: duration where "millisecond \<equiv> 1000000"
abbreviation (input) second :: duration where "second \<equiv> 1000000000"

section \<open>Definitions\<close>

subsection \<open>Slices, strings and integers of Go\<close>

text \<open>\<open>bslice i j xs\<close> is Go's \<^verbatim>\<open>xs[i:j]\<close> for \<open>i \<le> j \<le> length xs\<close>.\<close>

definition bslice :: "nat \<Rightarrow> nat \<Rightarrow> 'a list \<Rightarrow> 'a list" where
  "bslice i j xs = take (j - i) (drop i xs)"

text \<open>A Go string is a byte sequence; HOL characters are the 256 bytes.\<close>

definition bytes_of_string :: "string \<Rightarrow> bytes" where
  "bytes_of_string s = map of_char s"

definition string_of_bytes :: "bytes \<Rightarrow> string" where
  "string_of_bytes bs = map (\<lambda>b. char_of (unat b)) bs"

text \<open>Go's \<^verbatim>\<open>/\<close> on signed integers truncates toward zero.\<close>

definition trunc_div :: "int \<Rightarrow> int \<Rightarrow> int" where
  "trunc_div a b = (if (a < 0) = (b < 0) then \<bar>a\<bar> div \<bar>b\<bar> else - (\<bar>a\<bar> div \<bar>b\<bar>))"

subsection \<open>Big-endian integers\<close>

primrec put_be :: "nat \<Rightarrow> 'a::len word \<Rightarrow> bytes" where
  "put_be 0 w = []"
| "put_be (Suc n) w = ucast (drop_bit (8 * n) w) # put_be n w"

fun get_be :: "bytes \<Rightarrow> 'a::len word" where
  "get_be [] = 0"
| "get_be (b # bs) = push_bit (8 * length bs) (ucast b) OR get_be bs"

subsection \<open>Bitmaps\<close>

text \<open>Bit \<open>k\<close> of a bitmap kept as a sequence of 64-bit words.\<close>

definition winbit :: "uint64 list \<Rightarrow> nat \<Rightarrow> bool" where
  "winbit ws k \<longleftrightarrow> k < 64 * length ws \<and> bit (ws ! (k div 64)) (k mod 64)"

subsection \<open>Runs of a filter\<close>

text \<open>A filter decides about one item at a time and updates its state; its run over a
  sequence of items collects the accepted ones.\<close>

fun filter_run :: "('s \<Rightarrow> 'p \<Rightarrow> bool \<times> 's) \<Rightarrow> 's \<Rightarrow> 'p list \<Rightarrow> 'p list \<times> 's" where
  "filter_run acc s [] = ([], s)"
| "filter_run acc s (p # ps) = (case acc s p of (ok, s') \<Rightarrow>
     (case filter_run acc s' ps of (qs, s'') \<Rightarrow> (if ok then p # qs else qs, s'')))"

section \<open>Lemmas\<close>

subsection \<open>Slices and strings\<close>

lemma delete_shorter: "k \<in> fst ` set xs \<Longrightarrow> length (AList.delete k xs) < length xs"
proof (induction xs)
  case (Cons x xs)
  then show ?case
    using length_delete_le [of k xs] by (cases "fst x = k") (auto simp: less_Suc_eq_le)
qed simp

lemma delete_absent: "map_of xs k = None \<Longrightarrow> AList.delete k xs = xs"
  by (induction xs) (auto split: if_splits)

lemma keys_delete: "fst ` set (AList.delete k xs) = fst ` set xs - {k}"
  by (force simp: AList.delete_eq)

lemma length_bslice [simp, go_simps]: "length (bslice i j xs) = min (j - i) (length xs - i)"
  by (simp add: bslice_def min.commute)

lemma bslice_append_left [go_simps]:
  "j \<le> length xs \<Longrightarrow> bslice i j (xs @ ys) = bslice i j xs"
  by (simp add: bslice_def)

lemma bslice_append_right [go_simps]:
  "length xs \<le> i \<Longrightarrow> bslice i j (xs @ ys) = bslice (i - length xs) (j - length xs) ys"
  by (simp add: bslice_def)

lemma bslice_full [simp, go_simps]: "length xs \<le> n \<Longrightarrow> bslice 0 n xs = xs"
  by (simp add: bslice_def)

lemma bslice_join: "i \<le> j \<Longrightarrow> j \<le> k \<Longrightarrow> bslice i j xs @ bslice j k xs = bslice i k xs"
proof -
  assume "i \<le> j" "j \<le> k"
  then have "take (k - i) (drop i xs)
      = take (j - i) (drop i xs) @ take (k - j) (drop (j - i) (drop i xs))"
    by (metis Nat.diff_add_assoc2 le_add_diff_inverse2 take_add ordered_cancel_comm_monoid_diff_class.add_diff_inverse add.commute)
  then show ?thesis
    using \<open>i \<le> j\<close> by (simp add: bslice_def)
qed

lemma unat_of_char: "unat (of_char c :: byte) = of_char c"
proof -
  have "(of_char c :: nat) mod 256 = of_char c"
    by (metis of_char_mod_256)
  then have "unat (of_nat (of_char c :: nat) :: byte) = of_char c"
    by (simp add: unat_of_nat take_bit_eq_mod del: of_nat_of_char)
  then show ?thesis by (simp add: of_nat_of_char)
qed

lemma of_char_char_of_unat: "of_char (char_of (unat b)) = (b :: byte)"
proof -
  have "unat b < 256" using unsigned_less [of b] by simp
  then have "(of_char (char_of (unat b)) :: nat) = unat b"
    by simp
  then show ?thesis
    by (metis of_nat_of_char unat_of_char word_unat_eq_iff)
qed

lemma string_bytes_roundtrip [simp, codec_simps]: "string_of_bytes (bytes_of_string s) = s"
  by (simp add: string_of_bytes_def bytes_of_string_def comp_def unat_of_char)

lemma bytes_string_roundtrip [simp, codec_simps]: "bytes_of_string (string_of_bytes bs) = bs"
  by (simp add: string_of_bytes_def bytes_of_string_def comp_def of_char_char_of_unat)

lemma length_bytes_of_string [simp, codec_simps]: "length (bytes_of_string s) = length s"
  by (simp add: bytes_of_string_def)

lemma length_string_of_bytes [simp, codec_simps]: "length (string_of_bytes bs) = length bs"
  by (simp add: string_of_bytes_def)

lemma string_of_bytes_eq_Nil [simp]: "string_of_bytes bs = [] \<longleftrightarrow> bs = []"
  by (simp add: string_of_bytes_def)

lemma bytes_of_string_eq_Nil [simp]: "bytes_of_string s = [] \<longleftrightarrow> s = []"
  by (simp add: bytes_of_string_def)

subsection \<open>Big-endian round trips\<close>

lemma length_put_be [simp, codec_simps]: "length (put_be n w) = n"
  by (induction n) simp_all

lemma put_be_numeral [codec_simps]:
  "put_be (numeral n) w = ucast (drop_bit (8 * pred_numeral n) w) # put_be (pred_numeral n) w"
  by (simp add: numeral_eq_Suc)

lemma put_be_eq_Nil [simp]: "put_be n w = [] \<longleftrightarrow> n = 0"
  by (metis length_0_conv length_put_be)

lemma get_put_be_take: "get_be (put_be n w) = take_bit (8 * n) w"
proof (induction n)
  case 0
  show ?case by simp
next
  case (Suc n)
  have "push_bit (8 * n) (ucast (ucast (drop_bit (8 * n) w) :: byte)) OR take_bit (8 * n) w
      = take_bit (8 * n + 8) w"
    by (rule bit_word_eqI) (auto simp: bit_simps)
  then show ?case
    by (simp add: Suc add.commute)
qed

lemma get_put_be [simp, codec_simps]:
  fixes w :: "'a::len word"
  assumes "LENGTH('a) \<le> 8 * n"
  shows "get_be (put_be n w) = w"
  using assms by (simp add: get_put_be_take take_bit_word_eq_self)

lemma bit_get_be_high: "8 * length bs \<le> k \<Longrightarrow> \<not> bit (get_be bs) k"
  by (induction bs) (auto simp: bit_simps dest: bit_imp_le_length)

lemma put_be_low_cong:
  "(\<And>k. k < 8 * n \<Longrightarrow> bit v k = bit w k) \<Longrightarrow> put_be n v = put_be n w"
proof (induction n)
  case (Suc n)
  have "ucast (drop_bit (8 * n) v) = (ucast (drop_bit (8 * n) w) :: byte)"
    by (rule bit_word_eqI) (auto simp: bit_simps Suc.prems)
  then show ?case using Suc by simp
qed simp

lemma put_get_be [simp, codec_simps]:
  assumes "8 * length bs \<le> LENGTH('a::len)"
  shows "put_be (length bs) (get_be bs :: 'a word) = bs"
  using assms
proof (induction bs)
  case (Cons b bs)
  have "ucast (drop_bit (8 * length bs) (get_be (b # bs) :: 'a word)) = b"
    by (rule bit_word_eqI) (use Cons.prems in \<open>auto simp: bit_simps bit_get_be_high\<close>)
  moreover have "put_be (length bs) (get_be (b # bs) :: 'a word) = put_be (length bs) (get_be bs :: 'a word)"
    by (rule put_be_low_cong) (auto simp: bit_simps)
  ultimately show ?case using Cons by simp
qed simp

lemma put_get_be' [codec_simps]:
  assumes "length bs = n" "8 * n \<le> LENGTH('a::len)"
  shows "put_be n (get_be bs :: 'a word) = bs"
  using assms put_get_be by blast

lemma bslice_Cons [go_simps]: "0 < i \<Longrightarrow> bslice i j (x # xs) = bslice (i - 1) (j - 1) xs"
  by (cases i; cases j) (simp_all add: bslice_def)

lemma bslice_0 [go_simps]: "bslice 0 j xs = take j xs"
  by (simp add: bslice_def)

lemma bslice_single [go_simps]: "i < length xs \<Longrightarrow> bslice i (Suc i) xs = [xs ! i]"
  by (simp add: bslice_def take_Suc_conv_app_nth hd_drop_conv_nth take_Suc)

lemma bslice_nonempty [go_simps]:
  "(if 0 < d then bslice i (i + d) xs else []) = bslice i (i + d) xs"
  by (simp add: bslice_def)

subsection \<open>Words as numbers\<close>

lemma inj_unat: "inj unat"
  by (simp add: inj_def word_unat_eq_iff)

lemma of_nat_eq_word: "unat w = n \<Longrightarrow> of_nat n = w"
  by auto

subsection \<open>Bitmaps\<close>

lemma winbit_zero [simp]: "\<not> winbit (replicate n 0) k"
  by (auto simp: winbit_def)

lemma winbit_bound: "winbit ws k \<Longrightarrow> k < 64 * length ws"
  by (simp add: winbit_def)

lemma winbit_test:
  assumes "k < 64 * length ws"
  shows "(ws ! (k div 64)) AND push_bit (k mod 64) 1 \<noteq> 0 \<longleftrightarrow> winbit ws k"
  unfolding bit_iff_and_push_bit_not_eq_0 [symmetric] using assms by (simp add: winbit_def)

lemma div_mod_64_cong: "i = k \<longleftrightarrow> i div 64 = k div 64 \<and> i mod 64 = k mod (64 :: nat)"
  by (metis div_mult_mod_eq)

lemma bit_single: "m < 64 \<Longrightarrow> bit ((2 :: uint64) ^ m) j \<longleftrightarrow> j = m"
  by (auto simp: bit_simps)

lemma winbit_set:
  assumes "k < 64 * length ws"
  shows "winbit (ws[k div 64 := ws ! (k div 64) OR push_bit (k mod 64) 1]) i \<longleftrightarrow> i = k \<or> winbit ws i"
proof (cases "i div 64 = k div 64")
  case True
  have k: "k div 64 < length ws" using assms by (simp add: div_less_iff_less_mult mult.commute)
  then have "i < 64 * length ws" using True by (metis div_less_iff_less_mult mult.commute zero_less_numeral)
  with k show ?thesis
    using True assms by (auto simp: winbit_def bit_or_iff bit_single div_mod_64_cong [of i k])
next
  case False
  then show ?thesis by (auto simp: winbit_def)
qed

lemma winbit_clear:
  assumes "k < 64 * length ws"
  shows "winbit (ws[k div 64 := ws ! (k div 64) AND NOT (push_bit (k mod 64) 1)]) i
     \<longleftrightarrow> i \<noteq> k \<and> winbit ws i"
proof (cases "i div 64 = k div 64")
  case True
  have "k div 64 < length ws" using assms by (simp add: div_less_iff_less_mult mult.commute)
  then show ?thesis
    using True assms
    by (auto simp: winbit_def bit_and_iff bit_not_iff bit_single div_mod_64_cong [of i k])
next
  case False
  then show ?thesis by (auto simp: winbit_def)
qed

text \<open>The instances for bitmaps of 64 words.\<close>

lemma winbit_64:
  assumes "length ws = 64"
  shows winbit_bound_64: "winbit ws k \<Longrightarrow> k < 4096"
    and winbit_test_64: "k < 4096 \<Longrightarrow> (ws ! (k div 64)) AND push_bit (k mod 64) 1 \<noteq> 0 \<longleftrightarrow> winbit ws k"
    and winbit_set_64: "k < 4096 \<Longrightarrow>
      winbit (ws[k div 64 := ws ! (k div 64) OR push_bit (k mod 64) 1]) i \<longleftrightarrow> i = k \<or> winbit ws i"
    and winbit_clear_64: "k < 4096 \<Longrightarrow>
      winbit (ws[k div 64 := ws ! (k div 64) AND NOT (push_bit (k mod 64) 1)]) i \<longleftrightarrow> i \<noteq> k \<and> winbit ws i"
  using winbit_bound [of ws k] winbit_test [of k ws] winbit_set [of k ws i] winbit_clear [of k ws i] assms
  by simp_all

subsection \<open>Early returns\<close>

text \<open>A guard that returns an error has been passed when the result is a value.\<close>

lemma guard_Inl_eq_Inr [simp, go_simps]:
  "((if c then Inl e else r) = Inr x) \<longleftrightarrow> \<not> c \<and> r = Inr x"
  by simp

lemma guard_None_eq_Some [simp, go_simps]:
  "((if c then None else r) = Some x) \<longleftrightarrow> \<not> c \<and> r = Some x"
  by simp

section \<open>Interfaces\<close>

text \<open>A codec: every valid value survives encoding and decoding.  Encodings of distinct
  values are then distinct.\<close>

locale wire_codec =
  fixes enc :: "'a \<Rightarrow> 'w" and dec :: "'w \<Rightarrow> 'a option" and valid :: "'a \<Rightarrow> bool"
  assumes dec_enc: "valid x \<Longrightarrow> dec (enc x) = Some x"
begin

lemma enc_eq_iff: "valid x \<Longrightarrow> valid y \<Longrightarrow> enc x = enc y \<longleftrightarrow> x = y"
  by (metis dec_enc option.inject)

lemma enc_inj_on: "inj_on enc {x. valid x}"
  by (rule inj_onI) (simp add: enc_eq_iff)

end

text \<open>A canonical codec accepts nothing but the encodings of valid values, so a decoded
  value has exactly one wire form.\<close>

locale canonical_codec = wire_codec +
  assumes enc_dec: "dec w = Some x \<Longrightarrow> valid x \<and> enc x = w"
begin

lemma dec_iff: "dec w = Some x \<longleftrightarrow> valid x \<and> enc x = w"
  using dec_enc enc_dec by blast

lemma dec_unique: "dec v = Some x \<Longrightarrow> dec w = Some x \<Longrightarrow> v = w"
  using enc_dec by blast

lemma dec_rejects: "dec w = None \<longleftrightarrow> w \<notin> enc ` {x. valid x}"
  using enc_dec [of w] by (cases "dec w") (auto simp: dec_enc)

end

text \<open>A duplicate filter: an item is accepted unless the state rejects it, and from then on
  it is rejected.  No run accepts an item twice.\<close>

locale dedup_filter =
  fixes inv :: "'s \<Rightarrow> bool" and rejects :: "'s \<Rightarrow> 'p \<Rightarrow> bool" and accept :: "'s \<Rightarrow> 'p \<Rightarrow> bool \<times> 's"
  assumes accept_iff: "inv s \<Longrightarrow> fst (accept s p) \<longleftrightarrow> \<not> rejects s p"
    and accept_inv: "inv s \<Longrightarrow> inv (snd (accept s p))"
    and accept_marks: "inv s \<Longrightarrow> rejects (snd (accept s p)) p"
    and accept_keeps: "inv s \<Longrightarrow> rejects s q \<Longrightarrow> rejects (snd (accept s p)) q"
begin

lemma run_inv: "inv s \<Longrightarrow> inv (snd (filter_run accept s ps))"
  by (induction ps arbitrary: s) (simp_all add: accept_inv split_beta)

lemma run_fresh: "inv s \<Longrightarrow> q \<in> set (fst (filter_run accept s ps)) \<Longrightarrow> \<not> rejects s q"
proof (induction ps arbitrary: s)
  case (Cons p ps)
  then show ?case
    using accept_inv [of s p] accept_iff [of s p] accept_keeps [of s q p]
    by (auto simp: split_beta split: if_splits)
qed simp

lemma run_distinct: "inv s \<Longrightarrow> distinct (fst (filter_run accept s ps))"
proof (induction ps arbitrary: s)
  case (Cons p ps)
  then show ?case
    using accept_inv [of s p] accept_marks [of s p] run_fresh [of "snd (accept s p)" p ps]
    by (auto simp: split_beta)
qed simp

end

end
