(* ===== verification/Rtt.thy ===== *)
theory Rtt
  imports Prelude
begin

text \<open>
  The round-trip estimator of \<^verbatim>\<open>src/tunnel/rtt_estimator.go\<close> (RFC 6298 with a floor of
  twice the smoothed RTT) and the acknowledgement suppression interval that
  \<^verbatim>\<open>src/tunnel/session_transport.go\<close> derives from it.  Durations are integers
  (nanoseconds); Go's division truncates toward zero.
\<close>

section \<open>Definitions\<close>

record rttEstimator =
  re_srtt :: duration
  re_rttvar :: duration
  re_rto :: duration
  re_hasData :: bool
  re_minRTT :: duration
  re_maxRTT :: duration

definition rttInitialGuess :: duration where "rttInitialGuess = 200 * millisecond"
definition rttMinRTO :: duration where "rttMinRTO = 1 * millisecond"
definition rttMaxRTO :: duration where "rttMaxRTO = 10 * second"

definition newRTTEstimator :: "duration \<Rightarrow> duration \<Rightarrow> duration \<Rightarrow> rttEstimator" where
  "newRTTEstimator initial minRTT maxRTT = \<lparr> re_srtt = initial, re_rttvar = trunc_div initial 2,
     re_rto = initial, re_hasData = False, re_minRTT = minRTT, re_maxRTT = maxRTT \<rparr>"

definition newDefaultRTTEstimator :: rttEstimator where
  "newDefaultRTTEstimator = newRTTEstimator rttInitialGuess rttMinRTO rttMaxRTO"

definition absDuration :: "duration \<Rightarrow> duration" where
  "absDuration d = (if d < 0 then - d else d)"

definition Sample :: "rttEstimator \<Rightarrow> duration \<Rightarrow> rttEstimator" where
  "Sample e rtt = (
     if rtt \<le> 0 then e
     else (let e1 = (if \<not> re_hasData e
                     then e\<lparr>re_srtt := rtt, re_rttvar := trunc_div rtt 2, re_hasData := True\<rparr>
                     else (let errVal = rtt - re_srtt e in
                       e\<lparr>re_srtt := re_srtt e + trunc_div errVal 8,
                         re_rttvar := re_rttvar e + trunc_div (absDuration errVal - re_rttvar e) 4\<rparr>));
               rto0 = re_srtt e1 + 4 * re_rttvar e1;
               rto1 = (if rto0 < re_srtt e1 * 2 then re_srtt e1 * 2 else rto0);
               rto2 = (if rto1 < re_minRTT e1 then re_minRTT e1 else rto1);
               rto3 = (if rto2 > re_maxRTT e1 then re_maxRTT e1 else rto2)
           in e1\<lparr>re_rto := rto3\<rparr>))"

definition RTO :: "rttEstimator \<Rightarrow> duration" where "RTO e = re_rto e"

definition SRTT :: "rttEstimator \<Rightarrow> duration" where
  "SRTT e = (if \<not> re_hasData e then 0 else re_srtt e)"

definition ackMaxCoalesce :: duration where "ackMaxCoalesce = 100 * millisecond"

definition ackCoalesceInterval :: "duration \<Rightarrow> duration" where
  "ackCoalesceInterval srtt = (let iv = trunc_div srtt 2;
      iv1 = (if iv < millisecond then millisecond else iv);
      iv2 = (if iv1 > ackMaxCoalesce then ackMaxCoalesce else iv1)
    in iv2)"

text \<open>What every sequence of samples keeps: positive smoothed RTT, non-negative variance, a
  timeout within its clamps and, once there is data, at least twice the smoothed RTT
  unless the upper clamp is in force.\<close>

definition rtt_inv :: "rttEstimator \<Rightarrow> bool" where
  "rtt_inv e \<longleftrightarrow> 0 < re_minRTT e \<and> re_minRTT e \<le> re_maxRTT e \<and> 0 < re_srtt e \<and> 0 \<le> re_rttvar e
     \<and> re_minRTT e \<le> re_rto e \<and> re_rto e \<le> re_maxRTT e
     \<and> (re_hasData e \<longrightarrow> min (2 * re_srtt e) (re_maxRTT e) \<le> re_rto e)"

section \<open>Lemmas\<close>

lemma trunc_div_nonneg: "0 \<le> a \<Longrightarrow> 0 < b \<Longrightarrow> trunc_div a b = a div b"
  by (simp add: trunc_div_def)

lemma trunc_div_neg: "a < 0 \<Longrightarrow> 0 < b \<Longrightarrow> trunc_div a b = - ((- a) div b)"
  by (simp add: trunc_div_def)

text \<open>A truncated fraction of a difference moves toward the target without passing it.\<close>

lemma trunc_step_between:
  fixes x y b :: int
  assumes "1 \<le> b"
  shows "min x y \<le> x + trunc_div (y - x) b" "x + trunc_div (y - x) b \<le> max x y"
proof -
  have "(y - x) div b \<le> y - x" if "0 \<le> y - x" using assms that zdiv_mono2 [of "y - x" 1 b] by simp
  moreover have "(x - y) div b \<le> x - y" if "0 \<le> x - y" using assms that zdiv_mono2 [of "x - y" 1 b] by simp
  moreover have "0 \<le> (y - x) div b" if "0 \<le> y - x" using assms that by (simp add: pos_imp_zdiv_nonneg_iff)
  moreover have "0 \<le> (x - y) div b" if "0 \<le> x - y" using assms that by (simp add: pos_imp_zdiv_nonneg_iff)
  ultimately show "min x y \<le> x + trunc_div (y - x) b" "x + trunc_div (y - x) b \<le> max x y"
    using assms by (cases "0 \<le> y - x"; simp add: trunc_div_nonneg trunc_div_neg)+
qed

lemma Sample_clamps: "re_minRTT (Sample e rtt) = re_minRTT e" "re_maxRTT (Sample e rtt) = re_maxRTT e"
  by (simp_all add: Sample_def Let_def)

lemma Sample_hasData: "0 < rtt \<Longrightarrow> re_hasData (Sample e rtt)"
  by (simp add: Sample_def Let_def)

lemma Sample_srtt:
  assumes "0 < rtt"
  shows "re_srtt (Sample e rtt) = (if re_hasData e then re_srtt e + trunc_div (rtt - re_srtt e) 8 else rtt)"
    and "re_rttvar (Sample e rtt) = (if re_hasData e
       then re_rttvar e + trunc_div (\<bar>rtt - re_srtt e\<bar> - re_rttvar e) 4 else trunc_div rtt 2)"
    and "re_rto (Sample e rtt) =
      min (max (max (re_srtt (Sample e rtt) + 4 * re_rttvar (Sample e rtt)) (2 * re_srtt (Sample e rtt)))
        (re_minRTT e)) (re_maxRTT e)"
  using assms by (auto simp: Sample_def Let_def absDuration_def abs_if)

lemma rtt_inv_new:
  "0 < minRTT \<Longrightarrow> minRTT \<le> initial \<Longrightarrow> initial \<le> maxRTT \<Longrightarrow> rtt_inv (newRTTEstimator initial minRTT maxRTT)"
  by (auto simp: rtt_inv_def newRTTEstimator_def trunc_div_nonneg)

lemma rtt_inv_default: "rtt_inv newDefaultRTTEstimator"
  unfolding newDefaultRTTEstimator_def
  by (rule rtt_inv_new) (simp_all add: rttInitialGuess_def rttMinRTO_def rttMaxRTO_def)

lemma rtt_inv_Sample:
  assumes inv: "rtt_inv e"
  shows "rtt_inv (Sample e rtt)"
proof (cases "rtt \<le> 0")
  case True
  then show ?thesis using inv by (simp add: Sample_def)
next
  case False
  then have pos: "0 < rtt" by simp
  have srtt: "0 < re_srtt (Sample e rtt)"
    using inv pos trunc_step_between(1) [of 8 "re_srtt e" rtt]
    by (auto simp: Sample_srtt(1) [OF pos] rtt_inv_def min_def split: if_splits)
  have var: "0 \<le> re_rttvar (Sample e rtt)"
    using inv pos trunc_step_between(1) [of 4 "re_rttvar e" "\<bar>rtt - re_srtt e\<bar>"]
    by (auto simp: Sample_srtt(2) [OF pos] rtt_inv_def trunc_div_nonneg min_def split: if_splits)
  show ?thesis
    using inv srtt var unfolding rtt_inv_def Sample_srtt(3) [OF pos] Sample_clamps by auto
qed

lemma rtt_inv_fold: "rtt_inv e \<Longrightarrow> rtt_inv (fold (\<lambda>s e. Sample e s) samples e)"
  by (induction samples arbitrary: e) (simp_all add: rtt_inv_Sample)

lemma fold_Sample_clamps:
  "re_minRTT (fold (\<lambda>s e. Sample e s) samples e) = re_minRTT e"
  "re_maxRTT (fold (\<lambda>s e. Sample e s) samples e) = re_maxRTT e"
  by (induction samples arbitrary: e) (simp_all add: Sample_clamps)

section \<open>Properties\<close>

text \<open>After any sequence of measurements, clock anomalies included, the retransmission
  timeout of a session's estimator stays between 1 ms and 10 s and is at least twice the
  smoothed RTT unless the 10 s cap is in force; and an acknowledgement is never suppressed
  for longer than that timeout.\<close>

lemma RTO_bounds:
  "let e = fold (\<lambda>s e. Sample e s) samples newDefaultRTTEstimator in
    rttMinRTO \<le> RTO e \<and> RTO e \<le> rttMaxRTO \<and> min (2 * SRTT e) rttMaxRTO \<le> RTO e
    \<and> ackCoalesceInterval (SRTT e) \<le> RTO e"
proof -
  define e where "e = fold (\<lambda>s e. Sample e s) samples newDefaultRTTEstimator"
  have inv: "rtt_inv e" unfolding e_def by (rule rtt_inv_fold [OF rtt_inv_default])
  have clamps: "re_minRTT e = rttMinRTO" "re_maxRTT e = rttMaxRTO"
    by (simp_all add: e_def fold_Sample_clamps newDefaultRTTEstimator_def newRTTEstimator_def)
  have rto: "rttMinRTO \<le> RTO e" "RTO e \<le> rttMaxRTO" "min (2 * SRTT e) rttMaxRTO \<le> RTO e" "0 \<le> SRTT e"
    using inv clamps by (auto simp: rtt_inv_def RTO_def SRTT_def rttMinRTO_def)
  have "ackCoalesceInterval (SRTT e) \<le> max millisecond (min (SRTT e) ackMaxCoalesce)"
    using rto(4) by (auto simp: ackCoalesceInterval_def Let_def trunc_div_nonneg ackMaxCoalesce_def)
  also have "\<dots> \<le> RTO e"
    using rto by (auto simp: rttMinRTO_def rttMaxRTO_def ackMaxCoalesce_def)
  finally show ?thesis using rto unfolding e_def Let_def by blast
qed

text \<open>Each accepted measurement moves the smoothed RTT toward itself and never past it.\<close>

lemma Sample_smoothing:
  assumes "re_hasData e" "0 < rtt"
  shows "min (re_srtt e) rtt \<le> re_srtt (Sample e rtt) \<and> re_srtt (Sample e rtt) \<le> max (re_srtt e) rtt"
  using trunc_step_between [of 8 "re_srtt e" rtt] assms by (simp add: Sample_srtt(1))

lemma Sample_smoothing_witness:
  "re_srtt (Sample (Sample newDefaultRTTEstimator 80) 40) \<le> 80"
  using Sample_smoothing [of "Sample newDefaultRTTEstimator 80" 40]
  by (simp add: Sample_hasData Sample_srtt(1) newDefaultRTTEstimator_def newRTTEstimator_def)

end
