(* ===== verification/Sha256.thy ===== *)
theory Sha256
  imports Prelude
begin

text \<open>
  The two functions of Go's standard library that the handshake authentication and
  the Noise key schedule compute with: \<^verbatim>\<open>crypto/sha256\<close> (FIPS 180-4) and
  \<^verbatim>\<open>crypto/hmac\<close> over it (RFC 2104).  Both are executable, so the frame
  authentication code is modelled down to the bytes of its tags.
\<close>

section \<open>Definitions\<close>

definition sha_K :: "uint32 list" where
  "sha_K = [
     1116352408, 1899447441, 3049323471, 3921009573, 961987163, 1508970993, 2453635748, 2870763221,
     3624381080, 310598401, 607225278, 1426881987, 1925078388, 2162078206, 2614888103, 3248222580,
     3835390401, 4022224774, 264347078, 604807628, 770255983, 1249150122, 1555081692, 1996064986,
     2554220882, 2821834349, 2952996808, 3210313671, 3336571891, 3584528711, 113926993, 338241895,
     666307205, 773529912, 1294757372, 1396182291, 1695183700, 1986661051, 2177026350, 2456956037,
     2730485921, 2820302411, 3259730800, 3345764771, 3516065817, 3600352804, 4094571909, 275423344,
     430227734, 506948616, 659060556, 883997877, 958139571, 1322822218, 1537002063, 1747873779,
     1955562222, 2024104815, 2227730452, 2361852424, 2428436474, 2756734187, 3204031479, 3329325298]"

definition sha_H0 :: "uint32 list" where
  "sha_H0 = [
     1779033703, 3144134277, 1013904242, 2773480762, 1359893119, 2600822924, 528734635, 1541459225]"

definition rotr32 :: "nat \<Rightarrow> uint32 \<Rightarrow> uint32" where
  "rotr32 n x = drop_bit n x OR push_bit (32 - n) x"

definition small_sigma0 :: "uint32 \<Rightarrow> uint32" where
  "small_sigma0 x = rotr32 7 x XOR rotr32 18 x XOR drop_bit 3 x"

definition small_sigma1 :: "uint32 \<Rightarrow> uint32" where
  "small_sigma1 x = rotr32 17 x XOR rotr32 19 x XOR drop_bit 10 x"

definition big_sigma0 :: "uint32 \<Rightarrow> uint32" where
  "big_sigma0 x = rotr32 2 x XOR rotr32 13 x XOR rotr32 22 x"

definition big_sigma1 :: "uint32 \<Rightarrow> uint32" where
  "big_sigma1 x = rotr32 6 x XOR rotr32 11 x XOR rotr32 25 x"

text \<open>The message schedule keeps its words newest first.\<close>

primrec sha_schedule :: "nat \<Rightarrow> uint32 list \<Rightarrow> uint32 list" where
  "sha_schedule 0 ws = rev ws"
| "sha_schedule (Suc n) ws =
     sha_schedule n ((small_sigma1 (ws ! 1) + ws ! 6 + small_sigma0 (ws ! 14) + ws ! 15) # ws)"

fun sha_round :: "uint32 \<times> uint32 \<Rightarrow> uint32 list \<Rightarrow> uint32 list" where
  "sha_round (k, w) [a, b, c, d, e, f, g, h] =
     (let t1 = h + big_sigma1 e + ((e AND f) XOR (NOT e AND g)) + k + w;
          t2 = big_sigma0 a + ((a AND b) XOR (a AND c) XOR (b AND c))
      in [t1 + t2, a, b, c, d + t1, e, f, g])"
| "sha_round _ st = st"

primrec words_of :: "nat \<Rightarrow> bytes \<Rightarrow> uint32 list" where
  "words_of 0 bs = []"
| "words_of (Suc n) bs = get_be (take 4 bs) # words_of n (drop 4 bs)"

definition sha_block :: "bytes \<Rightarrow> uint32 list \<Rightarrow> uint32 list" where
  "sha_block blk st =
     map2 (+) st (fold sha_round (zip sha_K (sha_schedule 48 (rev (words_of 16 blk)))) st)"

definition sha_pad :: "bytes \<Rightarrow> bytes" where
  "sha_pad msg = msg @ [0x80] @ replicate ((119 - length msg mod 64) mod 64) 0
     @ put_be 8 (of_nat (8 * length msg) :: uint64)"

primrec sha_blocks :: "nat \<Rightarrow> bytes \<Rightarrow> uint32 list \<Rightarrow> uint32 list" where
  "sha_blocks 0 bs st = st"
| "sha_blocks (Suc n) bs st = sha_blocks n (drop 64 bs) (sha_block (take 64 bs) st)"

definition sha256 :: "bytes \<Rightarrow> bytes" where
  "sha256 msg = (let p = sha_pad msg
     in concat (map (put_be 4) (sha_blocks (length p div 64) p sha_H0)))"

definition hmac_sha256 :: "bytes \<Rightarrow> bytes \<Rightarrow> bytes" where
  "hmac_sha256 key msg =
     (let k0 = (if 64 < length key then sha256 key else key);
          k = k0 @ replicate (64 - length k0) 0
      in sha256 (map (\<lambda>b. b XOR 0x5c) k @ sha256 (map (\<lambda>b. b XOR 0x36) k @ msg)))"

section \<open>Lemmas\<close>

lemma length_sha_round [simp]: "length (sha_round kw st) = length st"
  by (cases "(kw, st)" rule: sha_round.cases) (simp_all add: Let_def)

lemma length_fold_sha_round [simp]: "length (fold sha_round kws st) = length st"
  by (induction kws arbitrary: st) simp_all

lemma length_sha_block [simp]: "length (sha_block blk st) = length st"
  by (simp add: sha_block_def)

lemma length_sha_blocks [simp]: "length (sha_blocks n bs st) = length st"
  by (induction n arbitrary: bs st) simp_all

lemma length_sha256 [simp, codec_simps]: "length (sha256 msg) = 32"
  by (simp add: sha256_def Let_def length_concat comp_def sum_list_triv sha_H0_def)

lemma length_hmac_sha256 [simp, codec_simps]: "length (hmac_sha256 key msg) = 32"
  by (simp add: hmac_sha256_def Let_def)

text \<open>The padded message is a whole number of 64-byte blocks.\<close>

lemma sha_pad_blocks: "64 dvd length (sha_pad msg)"
proof -
  obtain q r where len: "length msg = 64 * q + r" and r: "r < 64"
    by (metis mod_less_divisor mult_div_mod_eq zero_less_numeral)
  have pad: "length (sha_pad msg) = 64 * q + (r + 9 + (119 - r) mod 64)"
    using r by (simp add: sha_pad_def len)
  show ?thesis
  proof (cases "r \<le> 55")
    case True
    then have "119 - r = 64 + (55 - r)" by simp
    then have "(119 - r) mod 64 = 55 - r"
      by (simp only: mod_add_self1) (simp add: less_imp_diff_less)
    then show ?thesis using True by (simp add: pad)
  next
    case False
    then show ?thesis using r by (simp add: pad)
  qed
qed

end
