(* ===== verification/Protocol.thy ===== *)
theory Protocol
  imports Sha256
begin

text \<open>
  The wire format of protocol version 2 (\<^verbatim>\<open>src/tunnel/protocol.go\<close>): the 40-byte
  big-endian header, the frame encoder and the structural parser, the HMAC trailer of
  the handshake frames, the shape check of session frames, and the optional target
  field of the handshake payloads.

  A Go pointer that the code compares with \<open>nil\<close> is an \<open>option\<close>; a nil byte bslice is
  the empty list; an \<open>error\<close> result is the left summand.
\<close>

section \<open>Definitions\<close>

subsection \<open>Constants\<close>

definition UDPC_MAGIC_DEFAULT :: uint32 where "UDPC_MAGIC_DEFAULT = 0x55445043"
definition UDPC_VERSION :: byte where "UDPC_VERSION = 0x02"
definition pathChallengeSize :: nat where "pathChallengeSize = 16"

definition CMD_HANDSHAKE_SYN :: byte where "CMD_HANDSHAKE_SYN = 0x01"
definition CMD_HANDSHAKE_ACK :: byte where "CMD_HANDSHAKE_ACK = 0x02"
definition CMD_DATA :: byte where "CMD_DATA = 0x03"
definition CMD_ACK :: byte where "CMD_ACK = 0x04"
definition CMD_PING :: byte where "CMD_PING = 0x05"
definition CMD_PONG :: byte where "CMD_PONG = 0x06"
definition CMD_FIN :: byte where "CMD_FIN = 0x07"
definition CMD_PATH_CHALLENGE :: byte where "CMD_PATH_CHALLENGE = 0x08"
definition CMD_PATH_RESPONSE :: byte where "CMD_PATH_RESPONSE = 0x09"
definition CMD_MTU_PROBE :: byte where "CMD_MTU_PROBE = 0x0A"
definition CMD_MTU_PROBE_REPLY :: byte where "CMD_MTU_PROBE_REPLY = 0x0B"
definition CMD_MTU_COMMIT :: byte where "CMD_MTU_COMMIT = 0x0C"
definition CMD_FEC :: byte where "CMD_FEC = 0x0D"
definition CMD_SACK :: byte where "CMD_SACK = 0x0E"

definition FLAG_FEC_CAPABLE :: uint16 where "FLAG_FEC_CAPABLE = push_bit 0 1"
definition FLAG_FEC_FEEDBACK :: uint16 where "FLAG_FEC_FEEDBACK = push_bit 1 1"
definition FLAG_RECOVERY_CAPABLE :: uint16 where "FLAG_RECOVERY_CAPABLE = push_bit 2 1"
definition FLAG_FEC_EXT_PARITY :: uint16 where "FLAG_FEC_EXT_PARITY = push_bit 3 1"
definition FLAG_WIDE_WINDOW :: uint16 where "FLAG_WIDE_WINDOW = push_bit 4 1"

definition UDPC_HDR_SIZE :: nat where "UDPC_HDR_SIZE = 40"
definition UDPC_TRAILER_SIZE :: nat where "UDPC_TRAILER_SIZE = 16"
definition UDPC_MAC_SIZE :: nat where "UDPC_MAC_SIZE = UDPC_TRAILER_SIZE"
definition UDPC_MAX_PKT :: nat where "UDPC_MAX_PKT = 1450"
definition UDPC_MAX_DATA :: nat where
  "UDPC_MAX_DATA = UDPC_MAX_PKT - UDPC_HDR_SIZE - UDPC_TRAILER_SIZE"

definition clientNonceSize :: nat where "clientNonceSize = 16"
definition serverNonceSize :: nat where "serverNonceSize = 16"
definition synPayloadBase :: nat where "synPayloadBase = clientNonceSize + 8"
definition ackPayloadBase :: nat where "ackPayloadBase = clientNonceSize + serverNonceSize"
definition targetRequestTLVLen :: nat where "targetRequestTLVLen = 2"
definition TargetMaxLen :: nat where "TargetMaxLen = 255"
definition mtuProbeIDSize :: nat where "mtuProbeIDSize = 8"
definition mtuCommitSize :: nat where "mtuCommitSize = 2"

text \<open>Constants of \<^verbatim>\<open>noise.go\<close>, \<^verbatim>\<open>fec.go\<close>, \<^verbatim>\<open>recovery.go\<close> and \<^verbatim>\<open>mtu.go\<close> that the frame
  shapes refer to.\<close>

definition noiseMsg1Size :: nat where "noiseMsg1Size = 32 + 16"
definition noiseMsg2Size :: nat where "noiseMsg2Size = 32 + 16"
definition fecLengthPrefixSize :: nat where "fecLengthPrefixSize = 2"
definition sackWordsNarrow :: nat where "sackWordsNarrow = 8"
definition sackWordsWide :: nat where "sackWordsWide = 64"
definition sackWordsWidePayload :: nat where "sackWordsWidePayload = 2 + sackWordsWide * 8"
definition maxPktCeiling :: nat where "maxPktCeiling = UDPC_MAX_PKT"
definition mtuProbeMaxPayload :: nat where
  "mtuProbeMaxPayload = maxPktCeiling - UDPC_HDR_SIZE - UDPC_TRAILER_SIZE"

lemmas size_defs = UDPC_HDR_SIZE_def UDPC_TRAILER_SIZE_def UDPC_MAC_SIZE_def UDPC_MAX_PKT_def
  UDPC_MAX_DATA_def clientNonceSize_def serverNonceSize_def synPayloadBase_def ackPayloadBase_def
  targetRequestTLVLen_def TargetMaxLen_def mtuProbeIDSize_def mtuCommitSize_def pathChallengeSize_def
  noiseMsg1Size_def noiseMsg2Size_def fecLengthPrefixSize_def sackWordsNarrow_def sackWordsWide_def
  sackWordsWidePayload_def maxPktCeiling_def mtuProbeMaxPayload_def

lemmas cmd_defs = CMD_HANDSHAKE_SYN_def CMD_HANDSHAKE_ACK_def CMD_DATA_def CMD_ACK_def CMD_PING_def
  CMD_PONG_def CMD_FIN_def CMD_PATH_CHALLENGE_def CMD_PATH_RESPONSE_def CMD_MTU_PROBE_def
  CMD_MTU_PROBE_REPLY_def CMD_MTU_COMMIT_def CMD_FEC_def CMD_SACK_def

subsection \<open>Frames\<close>

record UDPCFrame =
  Magic :: uint32
  Version :: byte
  Cmd :: byte
  Flags :: uint16
  SessionID :: uint32
  PacketNo :: uint64
  Seq :: uint64
  Ack :: uint64
  WindowSize :: uint16
  Data :: bytes
  raw :: bytes

datatype frame_error =
    NilFrame
  | PayloadExceedsUint16
  | FrameExceedsMaxPkt
  | FrameTooShort
  | MagicMismatch
  | UnsupportedVersion
  | UnknownCommand
  | InvalidPayloadLength
  | MacKeyRequired
  | MacMismatch

definition encodeHeaderInto :: "UDPCFrame \<Rightarrow> nat \<Rightarrow> bytes" where
  "encodeHeaderInto f dataLen =
     put_be 4 (Magic f) @ [Version f] @ [Cmd f] @ put_be 2 (Flags f) @ put_be 4 (SessionID f)
     @ put_be 8 (PacketNo f) @ put_be 8 (Seq f) @ put_be 8 (Ack f) @ put_be 2 (WindowSize f)
     @ put_be 2 (of_nat dataLen :: uint16)"

definition MarshalBinary :: "UDPCFrame option \<Rightarrow> frame_error + bytes" where
  "MarshalBinary fp = (case fp of
     None \<Rightarrow> Inl NilFrame
   | Some f \<Rightarrow>
       if 65535 < length (Data f) then Inl PayloadExceedsUint16
       else (let total = UDPC_HDR_SIZE + length (Data f) + UDPC_TRAILER_SIZE in
         if UDPC_MAX_PKT < total then Inl FrameExceedsMaxPkt
         else Inr (encodeHeaderInto f (length (Data f)) @ Data f @ replicate UDPC_TRAILER_SIZE 0)))"

text \<open>\<open>Encode\<close> drops the error; its nil result is the empty bslice.\<close>

definition Encode :: "UDPCFrame option \<Rightarrow> bytes" where
  "Encode fp = (case MarshalBinary fp of Inl _ \<Rightarrow> [] | Inr w \<Rightarrow> w)"

subsection \<open>Handshake authentication\<close>

definition frameMACInto :: "bytes \<Rightarrow> bytes \<Rightarrow> bytes" where
  "frameMACInto key msg = take UDPC_MAC_SIZE (hmac_sha256 key msg)"

definition macWire :: "bytes \<Rightarrow> bytes option \<Rightarrow> frame_error + bytes" where
  "macWire wire key = (case key of
     None \<Rightarrow> Inl MacKeyRequired
   | Some k \<Rightarrow>
       if length wire < UDPC_HDR_SIZE + UDPC_TRAILER_SIZE then Inl FrameTooShort
       else (let msg = take (length wire - UDPC_TRAILER_SIZE) wire in
         Inr (msg @ frameMACInto k msg)))"

definition SealFrameMAC :: "UDPCFrame option \<Rightarrow> bytes option \<Rightarrow> bytes option" where
  "SealFrameMAC fp key = (case MarshalBinary fp of
     Inl _ \<Rightarrow> None
   | Inr wire \<Rightarrow> (case macWire wire key of Inl _ \<Rightarrow> None | Inr sealed \<Rightarrow> Some sealed))"

text \<open>\<open>hmac.Equal\<close> compares lengths and contents.  \<open>Inr ()\<close> is the nil error.\<close>

definition VerifyFrameAuth :: "bytes \<Rightarrow> bytes option \<Rightarrow> frame_error + unit" where
  "VerifyFrameAuth wire key = (case key of
     None \<Rightarrow> Inl MacKeyRequired
   | Some k \<Rightarrow>
       if length wire < UDPC_HDR_SIZE + UDPC_TRAILER_SIZE then Inl FrameTooShort
       else (let msg = take (length wire - UDPC_TRAILER_SIZE) wire;
                 tag = drop (length msg) wire
             in if tag = frameMACInto k msg then Inr () else Inl MacMismatch))"

subsection \<open>Parsing\<close>

definition validUDPCCommand :: "byte \<Rightarrow> bool" where
  "validUDPCCommand cmd \<longleftrightarrow> CMD_HANDSHAKE_SYN \<le> cmd \<and> cmd \<le> CMD_SACK"

definition parseUDPCFrame :: "bytes \<Rightarrow> uint32 \<Rightarrow> frame_error + UDPCFrame" where
  "parseUDPCFrame buf expectedMagic = (
     if length buf < UDPC_HDR_SIZE + UDPC_TRAILER_SIZE then Inl FrameTooShort
     else if UDPC_MAX_PKT < length buf then Inl FrameExceedsMaxPkt
     else (let magic = get_be (bslice 0 4 buf) in
       if expectedMagic \<noteq> 0 \<and> magic \<noteq> expectedMagic then Inl MagicMismatch
       else if buf ! 4 \<noteq> UDPC_VERSION then Inl UnsupportedVersion
       else if \<not> validUDPCCommand (buf ! 5) then Inl UnknownCommand
       else (let dataLen = unat (get_be (bslice 38 40 buf) :: uint16);
                 expectedLen = UDPC_HDR_SIZE + dataLen + UDPC_TRAILER_SIZE in
         if length buf \<noteq> expectedLen then Inl InvalidPayloadLength
         else Inr \<lparr> Magic = magic, Version = buf ! 4, Cmd = buf ! 5,
                    Flags = get_be (bslice 6 8 buf), SessionID = get_be (bslice 8 12 buf),
                    PacketNo = get_be (bslice 12 20 buf), Seq = get_be (bslice 20 28 buf),
                    Ack = get_be (bslice 28 36 buf), WindowSize = get_be (bslice 36 38 buf),
                    Data = (if 0 < dataLen then bslice UDPC_HDR_SIZE (UDPC_HDR_SIZE + dataLen) buf
                            else []),
                    raw = buf \<rparr>)))"

definition DecodeUDPCFrame :: "bytes \<Rightarrow> uint32 \<Rightarrow> frame_error + UDPCFrame" where
  "DecodeUDPCFrame buf expectedMagic = (case parseUDPCFrame buf expectedMagic of
     Inl e \<Rightarrow> Inl e
   | Inr frame \<Rightarrow>
       (let dataLen = length (Data frame) in
        if 0 < dataLen
        then Inr (frame\<lparr>Data := bslice UDPC_HDR_SIZE (UDPC_HDR_SIZE + dataLen) (raw frame)\<rparr>)
        else Inr frame))"

definition validSessionFrameShape :: "UDPCFrame option \<Rightarrow> bool" where
  "validSessionFrameShape fp = (case fp of
     None \<Rightarrow> False
   | Some f \<Rightarrow>
       if SessionID f = 0 \<or> PacketNo f = 0 then False
       else if Cmd f = CMD_DATA then Seq f \<noteq> 0
       else if Cmd f = CMD_SACK then
         Seq f = 0 \<and> 2 \<le> length (Data f) \<and> length (Data f) \<le> sackWordsWidePayload
         \<and> (length (Data f) - 2) mod 8 = 0
       else if Cmd f = CMD_FEC then Seq f \<noteq> 0 \<and> fecLengthPrefixSize \<le> length (Data f)
       else if Cmd f \<in> {CMD_ACK, CMD_PING, CMD_PONG, CMD_FIN} then Seq f = 0 \<and> Data f = []
       else if Cmd f \<in> {CMD_PATH_CHALLENGE, CMD_PATH_RESPONSE} then
         Seq f = 0 \<and> length (Data f) = pathChallengeSize
       else if Cmd f \<in> {CMD_MTU_PROBE, CMD_MTU_PROBE_REPLY} then
         Seq f = 0 \<and> mtuProbeIDSize \<le> length (Data f) \<and> length (Data f) \<le> mtuProbeMaxPayload
       else if Cmd f = CMD_MTU_COMMIT then Seq f = 0 \<and> length (Data f) = mtuCommitSize
       else False)"

subsection \<open>Handshake payloads\<close>

definition appendTargetTLV :: "bytes \<Rightarrow> string \<Rightarrow> bytes" where
  "appendTargetTLV payload target = (
     if target = [] then payload
     else if TargetMaxLen < length target then payload
     else payload @ put_be targetRequestTLVLen (of_nat (length target) :: uint16)
          @ bytes_of_string target)"

text \<open>\<open>None\<close> is the result \<open>("", false)\<close>.\<close>

definition parseTargetTLV :: "bytes \<Rightarrow> string option" where
  "parseTargetTLV field = (
     if field = [] then None
     else if length field < targetRequestTLVLen then None
     else (let n = unat (get_be (take targetRequestTLVLen field) :: uint16) in
       if n = 0 \<or> TargetMaxLen < n \<or> length field \<noteq> targetRequestTLVLen + n then None
       else Some (string_of_bytes (drop targetRequestTLVLen field))))"

datatype payload_error = PayloadTooShort | MissingNoiseMessage | InvalidTargetField

text \<open>\<open>splitSynPayload\<close> and \<open>splitAckPayload\<close> return the target (empty when absent) and the
  Noise message (empty when absent).\<close>

definition splitSynPayload :: "bytes \<Rightarrow> bool \<Rightarrow> payload_error + (string \<times> bytes)" where
  "splitSynPayload payload hasNoise = (
     if length payload < synPayloadBase then Inl PayloadTooShort
     else (let rest = drop synPayloadBase payload in
       if hasNoise \<and> length rest < noiseMsg1Size then Inl MissingNoiseMessage
       else (let cut = (if hasNoise then length rest - noiseMsg1Size else length rest);
                 msg1 = (if hasNoise then drop cut rest else []);
                 rest' = take cut rest
             in if rest' \<noteq> []
                then (case parseTargetTLV rest' of
                        None \<Rightarrow> Inl InvalidTargetField
                      | Some t \<Rightarrow> Inr (t, msg1))
                else Inr ([], msg1))))"

definition splitAckPayload :: "bytes \<Rightarrow> bool \<Rightarrow> payload_error + (string \<times> bytes)" where
  "splitAckPayload payload hasNoise = (
     if length payload < ackPayloadBase then Inl PayloadTooShort
     else (let rest = drop ackPayloadBase payload in
       if hasNoise \<and> length rest < noiseMsg2Size then Inl MissingNoiseMessage
       else (let cut = (if hasNoise then length rest - noiseMsg2Size else length rest);
                 msg2 = (if hasNoise then drop cut rest else []);
                 rest' = take cut rest
             in if rest' \<noteq> []
                then (case parseTargetTLV rest' of
                        None \<Rightarrow> Inl InvalidTargetField
                      | Some t \<Rightarrow> Inr (t, msg2))
                else Inr ([], msg2))))"

text \<open>The frame whose fields are read from the fixed offsets of a buffer.\<close>

definition parsed_fields :: "bytes \<Rightarrow> nat \<Rightarrow> UDPCFrame" where
  "parsed_fields buf dataLen =
     \<lparr> Magic = get_be (bslice 0 4 buf), Version = buf ! 4, Cmd = buf ! 5,
       Flags = get_be (bslice 6 8 buf), SessionID = get_be (bslice 8 12 buf),
       PacketNo = get_be (bslice 12 20 buf), Seq = get_be (bslice 20 28 buf),
       Ack = get_be (bslice 28 36 buf), WindowSize = get_be (bslice 36 38 buf),
       Data = bslice 40 (40 + dataLen) buf, raw = buf \<rparr>"

text \<open>A concrete DATA frame for the witnesses.\<close>

definition sample_frame :: UDPCFrame where
  "sample_frame = \<lparr> Magic = UDPC_MAGIC_DEFAULT, Version = 2, Cmd = 3, Flags = 0, SessionID = 7,
     PacketNo = 1, Seq = 1, Ack = 0, WindowSize = 512, Data = [1, 2, 3], raw = [] \<rparr>"

section \<open>Lemmas\<close>

subsection \<open>Headers\<close>

text \<open>The wire form of a frame with a given authentication trailer.\<close>

abbreviation frame_wire :: "UDPCFrame \<Rightarrow> bytes \<Rightarrow> bytes" where
  "frame_wire f tag \<equiv> encodeHeaderInto f (length (Data f)) @ Data f @ tag"

lemma length_encodeHeaderInto [simp, codec_simps]: "length (encodeHeaderInto f n) = 40"
  by (simp add: encodeHeaderInto_def)

lemma encodeHeaderInto_raw [simp]: "encodeHeaderInto (f\<lparr>raw := r\<rparr>) n = encodeHeaderInto f n"
  by (simp add: encodeHeaderInto_def)

lemma header_fields:
  "bslice 0 4 (encodeHeaderInto f n @ rest) = put_be 4 (Magic f)"
  "(encodeHeaderInto f n @ rest) ! 4 = Version f"
  "(encodeHeaderInto f n @ rest) ! 5 = Cmd f"
  "bslice 6 8 (encodeHeaderInto f n @ rest) = put_be 2 (Flags f)"
  "bslice 8 12 (encodeHeaderInto f n @ rest) = put_be 4 (SessionID f)"
  "bslice 12 20 (encodeHeaderInto f n @ rest) = put_be 8 (PacketNo f)"
  "bslice 20 28 (encodeHeaderInto f n @ rest) = put_be 8 (Seq f)"
  "bslice 28 36 (encodeHeaderInto f n @ rest) = put_be 8 (Ack f)"
  "bslice 36 38 (encodeHeaderInto f n @ rest) = put_be 2 (WindowSize f)"
  "bslice 38 40 (encodeHeaderInto f n @ rest) = put_be 2 (of_nat n :: uint16)"
  by (simp_all add: encodeHeaderInto_def bslice_append_left bslice_append_right bslice_Cons nth_append)

text \<open>Conversely the header of any sufficiently long buffer is the encoding of its fields.\<close>

lemma header_of_fields:
  assumes len: "40 \<le> length w"
    and f: "Magic f = get_be (bslice 0 4 w)" "Version f = w ! 4" "Cmd f = w ! 5"
      "Flags f = get_be (bslice 6 8 w)" "SessionID f = get_be (bslice 8 12 w)"
      "PacketNo f = get_be (bslice 12 20 w)" "Seq f = get_be (bslice 20 28 w)"
      "Ack f = get_be (bslice 28 36 w)" "WindowSize f = get_be (bslice 36 38 w)"
    and n: "of_nat n = (get_be (bslice 38 40 w) :: uint16)"
  shows "encodeHeaderInto f n = take 40 w"
proof -
  have fields: "encodeHeaderInto f n = bslice 0 4 w @ bslice 4 5 w @ bslice 5 6 w @ bslice 6 8 w
      @ bslice 8 12 w @ bslice 12 20 w @ bslice 20 28 w @ bslice 28 36 w @ bslice 36 38 w @ bslice 38 40 w"
    using len bslice_single [of 4 w] bslice_single [of 5 w]
    by (simp add: encodeHeaderInto_def f n put_get_be' del: put_be.simps)
  have "bslice 0 4 w @ bslice 4 5 w @ bslice 5 6 w @ bslice 6 8 w @ bslice 8 12 w @ bslice 12 20 w
      @ bslice 20 28 w @ bslice 28 36 w @ bslice 36 38 w @ bslice 38 40 w = bslice 0 40 w"
    by (simp add: bslice_join)
  with fields show ?thesis by (simp add: bslice_0)
qed

subsection \<open>Parsing and marshalling\<close>

lemma unat_of_nat_uint16 [codec_simps]: "n < 65536 \<Longrightarrow> unat (of_nat n :: uint16) = n"
  by (simp add: unat_of_nat take_bit_eq_mod)

lemma parse_Inr_iff:
  "parseUDPCFrame buf em = Inr f \<longleftrightarrow>
     length buf \<le> 1450 \<and> (em = 0 \<or> get_be (bslice 0 4 buf) = em) \<and> buf ! 4 = UDPC_VERSION
     \<and> validUDPCCommand (buf ! 5) \<and> length buf = 56 + unat (get_be (bslice 38 40 buf) :: uint16)
     \<and> f = parsed_fields buf (unat (get_be (bslice 38 40 buf) :: uint16))"
  unfolding parseUDPCFrame_def Let_def guard_Inl_eq_Inr sum.inject bslice_nonempty size_defs
    parsed_fields_def
  by (rule iffI; elim conjE; intro conjI; (assumption | linarith | simp only:))

lemma parse_frame_wire:
  assumes "length tag = 16" "length (Data f) \<le> 1394" "Version f = UDPC_VERSION"
    "validUDPCCommand (Cmd f)" "em = 0 \<or> Magic f = em"
  shows "parseUDPCFrame (frame_wire f tag) em = Inr (f\<lparr>raw := frame_wire f tag\<rparr>)"
proof -
  have dat: "bslice 40 (40 + length (Data f)) (frame_wire f tag) = Data f"
    by (simp add: bslice_append_right bslice_append_left)
  have len: "unat (get_be (bslice 38 40 (frame_wire f tag)) :: uint16) = length (Data f)"
    using assms(2) by (simp add: header_fields unat_of_nat_uint16)
  have "parsed_fields (frame_wire f tag) (length (Data f)) = f\<lparr>raw := frame_wire f tag\<rparr>"
    unfolding parsed_fields_def dat by (rule UDPCFrame.equality) (simp_all add: header_fields)
  then show ?thesis
    unfolding parse_Inr_iff len using assms by (simp add: header_fields)
qed

lemma parse_frame_sound:
  assumes "parseUDPCFrame w em = Inr f"
  shows "\<exists>tag. length tag = 16 \<and> w = frame_wire f tag"
    and "length (Data f) \<le> 1394" "Version f = UDPC_VERSION" "validUDPCCommand (Cmd f)"
      "em = 0 \<or> Magic f = em" "raw f = w" "56 \<le> length w" "length w \<le> 1450"
proof -
  define d where "d = unat (get_be (bslice 38 40 w) :: uint16)"
  have n: "of_nat d = (get_be (bslice 38 40 w) :: uint16)"
    by (simp add: d_def)
  have len: "length w \<le> 1450" "length w = 56 + d"
    and f: "f = parsed_fields w d"
    and ok: "em = 0 \<or> get_be (bslice 0 4 w) = em" "w ! 4 = UDPC_VERSION" "validUDPCCommand (w ! 5)"
    using assms unfolding parse_Inr_iff d_def by blast+
  show "length (Data f) \<le> 1394" "Version f = UDPC_VERSION" "validUDPCCommand (Cmd f)"
      "em = 0 \<or> Magic f = em" "raw f = w" "56 \<le> length w" "length w \<le> 1450"
    using len ok by (simp_all add: f parsed_fields_def)
  have hdr: "encodeHeaderInto f d = take 40 w"
    using n len by (intro header_of_fields) (simp_all add: f parsed_fields_def)
  have dat: "Data f = take d (drop 40 w)"
    by (simp add: f parsed_fields_def bslice_def)
  have "w = take 40 w @ take d (drop 40 w) @ drop d (drop 40 w)"
    by (simp only: append_take_drop_id)
  then have "w = frame_wire f (drop (40 + d) w)"
    using len by (simp add: dat hdr add.commute)
  then show "\<exists>tag. length tag = 16 \<and> w = frame_wire f tag"
    using len by (intro exI [of _ "drop (40 + d) w"]) simp
qed

lemma parse_frame_iff:
  "parseUDPCFrame w em = Inr f \<longleftrightarrow>
     (\<exists>tag. length tag = 16 \<and> w = frame_wire f tag) \<and> length w \<le> 1450 \<and> Version f = UDPC_VERSION
     \<and> validUDPCCommand (Cmd f) \<and> (em = 0 \<or> Magic f = em) \<and> raw f = w"
proof
  assume "parseUDPCFrame w em = Inr f"
  then show "(\<exists>tag. length tag = 16 \<and> w = frame_wire f tag) \<and> length w \<le> 1450 \<and> Version f = UDPC_VERSION
      \<and> validUDPCCommand (Cmd f) \<and> (em = 0 \<or> Magic f = em) \<and> raw f = w"
    by (blast dest: parse_frame_sound)
next
  assume rhs: "(\<exists>tag. length tag = 16 \<and> w = frame_wire f tag) \<and> length w \<le> 1450 \<and> Version f = UDPC_VERSION
      \<and> validUDPCCommand (Cmd f) \<and> (em = 0 \<or> Magic f = em) \<and> raw f = w"
  then obtain tag where tag: "length tag = 16" and w: "w = frame_wire f tag" by blast
  have "length (Data f) \<le> 1394" using rhs tag w by simp
  with rhs tag have "parseUDPCFrame (frame_wire f tag) em = Inr (f\<lparr>raw := frame_wire f tag\<rparr>)"
    by (intro parse_frame_wire) auto
  moreover have "f\<lparr>raw := frame_wire f tag\<rparr> = f"
    using rhs w by (intro UDPCFrame.equality) auto
  ultimately show "parseUDPCFrame w em = Inr f" using w by simp
qed

lemma MarshalBinary_Inr_iff:
  "MarshalBinary (Some f) = Inr w \<longleftrightarrow>
     length (Data f) \<le> 1394 \<and> w = frame_wire f (replicate 16 0)"
  by (auto simp: MarshalBinary_def Let_def size_defs)

subsection \<open>Authenticated handshake frames\<close>

lemma length_frameMACInto [simp, codec_simps]: "length (frameMACInto k msg) = 16"
  by (simp add: frameMACInto_def size_defs)

lemma SealFrameMAC_eq:
  "SealFrameMAC (Some f) (Some k) = Some w \<longleftrightarrow>
     length (Data f) \<le> 1394
     \<and> w = frame_wire f (frameMACInto k (encodeHeaderInto f (length (Data f)) @ Data f))"
  by (auto simp: SealFrameMAC_def macWire_def MarshalBinary_def Let_def size_defs)

lemma VerifyFrameAuth_wire:
  assumes "length tag = 16"
  shows "VerifyFrameAuth (frame_wire f tag) (Some k) = Inr ()
    \<longleftrightarrow> tag = frameMACInto k (encodeHeaderInto f (length (Data f)) @ Data f)"
  using assms by (simp add: VerifyFrameAuth_def Let_def size_defs)

subsection \<open>Handshake payloads\<close>

interpretation target_tlv: canonical_codec "appendTargetTLV []" parseTargetTLV
    "\<lambda>t. t \<noteq> [] \<and> length t \<le> TargetMaxLen"
proof
  fix t :: string
  assume "t \<noteq> [] \<and> length t \<le> TargetMaxLen"
  then show "parseTargetTLV (appendTargetTLV [] t) = Some t"
    by (simp add: parseTargetTLV_def appendTargetTLV_def size_defs unat_of_nat_uint16 Let_def)
next
  fix w t
  assume dec: "parseTargetTLV w = Some t"
  define n where "n = unat (get_be (take 2 w) :: uint16)"
  have w: "n \<noteq> 0" "n \<le> 255" "length w = 2 + n" "t = string_of_bytes (drop 2 w)"
    using dec by (auto simp: parseTargetTLV_def size_defs Let_def n_def)
  have "put_be 2 (of_nat n :: uint16) = take 2 w"
    using w by (simp add: n_def put_get_be')
  then show "(t \<noteq> [] \<and> length t \<le> TargetMaxLen) \<and> appendTargetTLV [] t = w"
    using w by (auto simp: appendTargetTLV_def size_defs)
qed

lemma appendTargetTLV_append: "appendTargetTLV p t = p @ appendTargetTLV [] t"
  by (simp add: appendTargetTLV_def)

lemma appendTargetTLV_Nil_iff: "length t \<le> TargetMaxLen \<Longrightarrow> appendTargetTLV [] t = [] \<longleftrightarrow> t = []"
  by (auto simp: appendTargetTLV_def targetRequestTLVLen_def)

lemma target_field:
  assumes "length t \<le> TargetMaxLen"
  shows "appendTargetTLV [] t = [] \<longleftrightarrow> t = []" "t \<noteq> [] \<Longrightarrow> parseTargetTLV (appendTargetTLV [] t) = Some t"
  using assms target_tlv.dec_enc [of t] by (auto simp: appendTargetTLV_Nil_iff)

lemma split_syn:
  assumes "length t \<le> TargetMaxLen" "length synBase = synPayloadBase" "if hasNoise then length msg = 48 else msg = []"
  shows "splitSynPayload (appendTargetTLV synBase t @ msg) hasNoise = Inr (t, msg)"
  using assms(2,3) target_field [OF assms(1)]
  by (cases "t = []") (auto simp: splitSynPayload_def appendTargetTLV_append [of synBase] Let_def noiseMsg1Size_def split: if_splits)

lemma split_ack:
  assumes "length t \<le> TargetMaxLen" "length ackBase = ackPayloadBase" "if hasNoise then length msg = 48 else msg = []"
  shows "splitAckPayload (appendTargetTLV ackBase t @ msg) hasNoise = Inr (t, msg)"
  using assms(2,3) target_field [OF assms(1)]
  by (cases "t = []") (auto simp: splitAckPayload_def appendTargetTLV_append [of ackBase] Let_def noiseMsg2Size_def split: if_splits)

section \<open>Properties\<close>

text \<open>C1. The parser accepts exactly the wire form of the frame it returns: a buffer is
  parsed into \<open>f\<close> if and only if it is the 40-byte header of \<open>f\<close>, the payload of \<open>f\<close> and a
  16-byte trailer, fits the packet limit, carries the supported version, a known command
  and the expected magic (0 accepts any), and the raw bytes kept are the buffer itself.\<close>

theorem parseUDPCFrame_exact:
  "parseUDPCFrame w expectedMagic = Inr f \<longleftrightarrow>
     (\<exists>tag. length tag = UDPC_TRAILER_SIZE
        \<and> w = encodeHeaderInto f (length (Data f)) @ Data f @ tag)
     \<and> length w \<le> UDPC_MAX_PKT \<and> Version f = UDPC_VERSION \<and> validUDPCCommand (Cmd f)
     \<and> (expectedMagic = 0 \<or> Magic f = expectedMagic) \<and> raw f = w"
  unfolding UDPC_TRAILER_SIZE_def UDPC_MAX_PKT_def by (rule parse_frame_iff)

text \<open>Marshalling succeeds exactly for payloads within the data limit, and decoding the
  marshalled bytes gives the frame back, with its raw bytes set.\<close>

lemma MarshalBinary_roundtrip:
  assumes "Version f = UDPC_VERSION" "validUDPCCommand (Cmd f)"
  shows "(\<exists>w. MarshalBinary (Some f) = Inr w \<and> DecodeUDPCFrame w (Magic f) = Inr (f\<lparr>raw := w\<rparr>))
     \<longleftrightarrow> length (Data f) \<le> UDPC_MAX_DATA"
proof
  assume "length (Data f) \<le> UDPC_MAX_DATA"
  then have len: "length (Data f) \<le> 1394" by (simp add: size_defs)
  define w where "w = frame_wire f (replicate 16 0)"
  have "parseUDPCFrame w (Magic f) = Inr (f\<lparr>raw := w\<rparr>)"
    unfolding w_def using assms len by (intro parse_frame_wire) simp_all
  moreover have "bslice 40 (40 + length (Data f)) w = Data f"
    by (simp add: w_def bslice_append_right bslice_append_left)
  ultimately have "DecodeUDPCFrame w (Magic f) = Inr (f\<lparr>raw := w\<rparr>)"
    by (simp add: DecodeUDPCFrame_def Let_def UDPC_HDR_SIZE_def)
  moreover have "MarshalBinary (Some f) = Inr w"
    using len by (simp add: MarshalBinary_Inr_iff w_def)
  ultimately show "\<exists>w. MarshalBinary (Some f) = Inr w \<and> DecodeUDPCFrame w (Magic f) = Inr (f\<lparr>raw := w\<rparr>)"
    by blast
qed (auto simp: MarshalBinary_Inr_iff size_defs)

lemma MarshalBinary_roundtrip_witness:
  "\<exists>w. MarshalBinary (Some sample_frame) = Inr w
     \<and> DecodeUDPCFrame w UDPC_MAGIC_DEFAULT = Inr (sample_frame\<lparr>raw := w\<rparr>)"
  using MarshalBinary_roundtrip [of sample_frame]
  by (simp add: sample_frame_def UDPC_VERSION_def validUDPCCommand_def cmd_defs size_defs)

text \<open>C2. A parsed handshake frame passes \<open>VerifyFrameAuth\<close> under a key if and only if it is,
  byte for byte, what \<open>SealFrameMAC\<close> produces for the parsed fields under that key: no header
  or payload field escapes the authentication, and every sealed frame verifies.\<close>

theorem VerifyFrameAuth_iff_sealed:
  assumes "parseUDPCFrame w expectedMagic = Inr f"
  shows "VerifyFrameAuth w (Some k) = Inr () \<longleftrightarrow> SealFrameMAC (Some f) (Some k) = Some w"
proof -
  obtain tag where tag: "length tag = 16" and w: "w = frame_wire f tag"
    using parse_frame_sound(1) [OF assms] by blast
  have "length (Data f) \<le> 1394" using parse_frame_sound(2) [OF assms] .
  then show ?thesis
    unfolding SealFrameMAC_eq using VerifyFrameAuth_wire [OF tag] by (simp add: w)
qed

theorem VerifyFrameAuth_iff_sealed_witness:
  "\<exists>w f. parseUDPCFrame w 0 = Inr f
     \<and> (VerifyFrameAuth w (Some (replicate 32 1)) = Inr () \<longleftrightarrow> SealFrameMAC (Some f) (Some (replicate 32 1)) = Some w)"
proof -
  have "parseUDPCFrame (frame_wire sample_frame (replicate 16 0)) 0
      = Inr (sample_frame\<lparr>raw := frame_wire sample_frame (replicate 16 0)\<rparr>)"
    by (rule parse_frame_wire)
      (simp_all add: sample_frame_def UDPC_VERSION_def validUDPCCommand_def cmd_defs)
  with VerifyFrameAuth_iff_sealed [OF this] show ?thesis by blast
qed

text \<open>The optional target and the optional Noise message are recovered exactly from the
  handshake payloads they were appended to, for SYN and ACK payloads alike.\<close>

lemma handshake_payload_roundtrip:
  assumes "length t \<le> TargetMaxLen" "length synBase = synPayloadBase" "length ackBase = ackPayloadBase"
    "if hasNoise then length msg = 48 else msg = []"
  shows "splitSynPayload (appendTargetTLV synBase t @ msg) hasNoise = Inr (t, msg)
     \<and> splitAckPayload (appendTargetTLV ackBase t @ msg) hasNoise = Inr (t, msg)"
  using split_syn [OF assms(1,2,4)] split_ack [OF assms(1,3,4)] by blast

lemma handshake_payload_roundtrip_witness:
  "splitSynPayload (appendTargetTLV (replicate 24 0) ''tcp://a:22'' @ replicate 48 7) True
      = Inr (''tcp://a:22'', replicate 48 7)
   \<and> splitAckPayload (appendTargetTLV (replicate 32 0) ''tcp://a:22'' @ replicate 48 7) True
      = Inr (''tcp://a:22'', replicate 48 7)"
  using handshake_payload_roundtrip [of "''tcp://a:22''" "replicate 24 0" "replicate 32 0" True
      "replicate 48 7"]
  by (simp add: size_defs)

end
