(* ===== verification/Delivery.thy ===== *)
theory Delivery
  imports Protocol "HOL-Library.AList"
begin

text \<open>
  The receive side of the reliable stream (\<^verbatim>\<open>src/tunnel/delivery.go\<close>): admission of
  possibly reordered and duplicated frames into a bounded buffer, the sole writer that
  hands payloads to the application in sequence order, the acknowledgement snapshot, and
  the delayed cumulative acknowledgement.

  The Go map \<open>pending\<close> is an association list with distinct keys; channels and atomics
  are fields; the callback \<open>ack\<close> is the list of acknowledgements an operation emits.
  A critical section is one atomic step.  Callers pass the current time.
\<close>

section \<open>Definitions\<close>

definition deliveryWindow :: nat where "deliveryWindow = 512"
definition deliveryWindowWide :: nat where "deliveryWindowWide = 4096"
definition stallFeedbackInterval :: duration where "stallFeedbackInterval = 10 * millisecond"

definition deliveryLimitFor :: "bool \<Rightarrow> nat" where
  "deliveryLimitFor wide = (if wide then deliveryWindowWide else deliveryWindow)"

subsection \<open>Delayed acknowledgement\<close>

record delayedACK =
  da_timer :: bool
  da_pending :: uint64
  da_count :: nat
  da_closed :: bool

definition newDelayedACK :: delayedACK where
  "newDelayedACK = \<lparr> da_timer = False, da_pending = 0, da_count = 0, da_closed = False \<rparr>"

text \<open>\<open>queue\<close> returns the new state and the acknowledgement it sends, if any.\<close>

definition da_queue :: "delayedACK \<Rightarrow> uint64 \<Rightarrow> delayedACK \<times> uint64 list" where
  "da_queue d seq = (
     if da_closed d then (d, [])
     else (let p = (if seq > da_pending d then seq else da_pending d);
               c = da_count d + 1
           in if c \<ge> 2 then (d\<lparr>da_pending := p, da_count := 0, da_timer := False\<rparr>, [p])
              else (d\<lparr>da_pending := p, da_count := c, da_timer := True\<rparr>, [])))"

text \<open>The timer function.  A stopped timer may still run once, so it may be called at any time.\<close>

definition da_fire :: "delayedACK \<Rightarrow> delayedACK \<times> uint64 list" where
  "da_fire d = (
     if da_closed d \<or> da_count d = 0 then (d, [])
     else (d\<lparr>da_count := 0, da_timer := False\<rparr>, [da_pending d]))"

definition da_close :: "delayedACK \<Rightarrow> delayedACK" where
  "da_close d = d\<lparr>da_closed := True\<rparr>"

subsection \<open>Ordered delivery\<close>

record orderedDelivery =
  od_pending :: "(uint64 \<times> bytes) list"
  od_limit :: nat
  od_closed :: bool
  od_wake :: bool
  od_delivered :: uint64
  od_delayed :: delayedACK
  od_writeStarted :: int
  od_lastStallACK :: int

definition newOrderedDelivery :: "int \<Rightarrow> orderedDelivery" where
  "newOrderedDelivery limit = \<lparr> od_pending = [],
     od_limit = (if limit \<le> 0 \<or> limit > int deliveryWindowWide then deliveryWindowWide else nat limit),
     od_closed = False, od_wake = False, od_delivered = 0, od_delayed = newDelayedACK,
     od_writeStarted = 0, od_lastStallACK = 0 \<rparr>"

definition feedbackWhileStalled :: "int \<Rightarrow> orderedDelivery \<Rightarrow> orderedDelivery \<times> uint64 list" where
  "feedbackWhileStalled now d = (
     if now - od_lastStallACK d < stallFeedbackInterval then (d, [])
     else (d\<lparr>od_lastStallACK := now\<rparr>, [od_delivered d]))"

definition stalled :: "int \<Rightarrow> orderedDelivery \<Rightarrow> bool" where
  "stalled now d \<longleftrightarrow> od_writeStarted d \<noteq> 0 \<and> now - od_writeStarted d > stallFeedbackInterval"

text \<open>\<open>offerObserved\<close> returns \<open>(fresh, ok)\<close>, the new state and the acknowledgements sent.\<close>

definition offerObserved ::
  "int \<Rightarrow> orderedDelivery \<Rightarrow> uint64 \<Rightarrow> bytes \<Rightarrow> (bool \<times> bool) \<times> orderedDelivery \<times> uint64 list" where
  "offerObserved now d seq payload = (
     if seq = 0 then ((False, False), d, [])
     else if od_closed d then ((False, False), d, [])
     else (let ack = od_delivered d in
       if seq \<le> ack then ((False, True), d, [ack])
       else if map_of (od_pending d) seq \<noteq> None then ((False, True), d, [])
       else if unat (seq - ack) > od_limit d \<or> length (od_pending d) \<ge> od_limit d
       then ((False, False), d, [])
       else (let d1 = d\<lparr>od_pending := (seq, payload) # od_pending d\<rparr>;
                 hasNext = (map_of (od_pending d1) (ack + 1) \<noteq> None);
                 gap = (seq > ack + 1 \<and> \<not> hasNext);
                 (d2, stallAcks) = (if stalled now d1 then feedbackWhileStalled now d1 else (d1, []));
                 d3 = d2\<lparr>od_wake := True\<rparr>
             in ((True, True), d3, stallAcks @ (if gap then [ack] else [])))))"

definition offer :: "int \<Rightarrow> orderedDelivery \<Rightarrow> uint64 \<Rightarrow> bytes \<Rightarrow> bool \<times> orderedDelivery \<times> uint64 list" where
  "offer now d seq payload =
     (case offerObserved now d seq payload of ((fresh, ok), d', acks) \<Rightarrow> (ok, d', acks))"

text \<open>\<open>snapshot\<close>: cumulative acknowledgement, bitmap of the frames held, receive credit.\<close>

definition snapshotBit :: "uint64 \<Rightarrow> nat \<Rightarrow> uint64 \<times> bytes \<Rightarrow> uint64 list \<Rightarrow> uint64 list" where
  "snapshotBit ack limit e bitmap = (let seq = fst e in
     if seq > ack \<and> unat (seq - ack) \<le> limit
     then (let b = unat (seq - ack - 1) in
       bitmap[b div 64 := bitmap ! (b div 64) OR push_bit (b mod 64) 1])
     else bitmap)"

definition snapshot :: "orderedDelivery \<Rightarrow> uint64 \<times> uint64 list \<times> uint16" where
  "snapshot d = (let ack = od_delivered d in
     (ack, fold (snapshotBit ack (od_limit d)) (od_pending d) (replicate sackWordsWide 0),
      of_int (int (od_limit d) - int (length (od_pending d)))))"

text \<open>The two critical sections of the writer loop \<open>run\<close>: fetch the next payload in order, and
  retire it after a successful write.\<close>

definition runNext :: "orderedDelivery \<Rightarrow> (uint64 \<times> bytes) option" where
  "runNext d = (let seq = od_delivered d + 1 in
     case map_of (od_pending d) seq of
       None \<Rightarrow> None
     | Some payload \<Rightarrow> if od_closed d then None else Some (seq, payload))"

definition runCommit :: "orderedDelivery \<Rightarrow> uint64 \<Rightarrow> orderedDelivery \<times> uint64 list" where
  "runCommit d seq = (let (dl, acks) = da_queue (od_delayed d) seq in
     (d\<lparr>od_writeStarted := 0, od_pending := AList.delete seq (od_pending d), od_delivered := seq,
        od_delayed := dl\<rparr>, acks))"

definition od_close :: "orderedDelivery \<Rightarrow> orderedDelivery" where
  "od_close d = d\<lparr>od_closed := True, od_pending := [], od_delayed := da_close (od_delayed d)\<rparr>"

lemma runNext_Some:
  "runNext d = Some (seq, p) \<longleftrightarrow>
     \<not> od_closed d \<and> seq = od_delivered d + 1 \<and> map_of (od_pending d) seq = Some p"
  by (auto simp: runNext_def Let_def split: option.splits if_splits)

lemma runCommit_pending: "od_pending (fst (runCommit d seq)) = AList.delete seq (od_pending d)"
  by (simp add: runCommit_def split_beta)

text \<open>The inner loop of \<open>run\<close> while every write succeeds: the payloads written, in order.\<close>

function drain :: "orderedDelivery \<Rightarrow> orderedDelivery \<times> bytes list" where
  "drain d = (case runNext d of
     None \<Rightarrow> (d, [])
   | Some (seq, payload) \<Rightarrow>
       (case drain (fst (runCommit d seq)) of (d', out) \<Rightarrow> (d', payload # out)))"
  by pat_completeness auto

termination
  by (relation "measure (\<lambda>d. length (od_pending d))")
    (auto simp: runNext_Some runCommit_pending dest!: map_of_SomeD intro!: delete_shorter image_eqI)

declare drain.simps [simp del]

subsection \<open>The component as a step relation\<close>

datatype run_pc = Waiting | Draining | Writing uint64 bytes | Stopped

text \<open>\<open>written\<close> records the payloads whose write has completed.\<close>

record delivery_sys =
  dq :: orderedDelivery
  pc :: run_pc
  written :: "bytes list"

inductive delivery_step :: "(uint64 \<Rightarrow> bytes) \<Rightarrow> delivery_sys \<Rightarrow> delivery_sys \<Rightarrow> bool" for src where
  step_offer: "offerObserved now (dq s) seq (src seq) = (r, d', acks) \<Longrightarrow>
    delivery_step src s (s\<lparr>dq := d'\<rparr>)"
| step_wake: "pc s = Waiting \<Longrightarrow> od_wake (dq s) \<Longrightarrow>
    delivery_step src s (s\<lparr>dq := (dq s)\<lparr>od_wake := False\<rparr>, pc := Draining\<rparr>)"
| step_caught_up: "pc s = Draining \<Longrightarrow> runNext (dq s) = None \<Longrightarrow>
    delivery_step src s (s\<lparr>pc := Waiting\<rparr>)"
| step_write: "pc s = Draining \<Longrightarrow> runNext (dq s) = Some (seq, p) \<Longrightarrow>
    delivery_step src s (s\<lparr>dq := (dq s)\<lparr>od_writeStarted := now\<rparr>, pc := Writing seq p\<rparr>)"
| step_written: "pc s = Writing seq p \<Longrightarrow> runCommit (dq s) seq = (d', acks) \<Longrightarrow>
    delivery_step src s (s\<lparr>dq := d', pc := Draining, written := written s @ [p]\<rparr>)"
| step_write_failed: "pc s = Writing seq p \<Longrightarrow>
    delivery_step src s (s\<lparr>dq := (dq s)\<lparr>od_writeStarted := 0\<rparr>, pc := Stopped\<rparr>)"
| step_done: "pc s = Waiting \<or> pc s = Draining \<Longrightarrow> delivery_step src s (s\<lparr>pc := Stopped\<rparr>)"
| step_ack_timer: "da_fire (od_delayed (dq s)) = (dl, acks) \<Longrightarrow>
    delivery_step src s (s\<lparr>dq := (dq s)\<lparr>od_delayed := dl\<rparr>\<rparr>)"
| step_close: "delivery_step src s (s\<lparr>dq := od_close (dq s)\<rparr>)"

definition delivery_init :: "int \<Rightarrow> delivery_sys" where
  "delivery_init limit = \<lparr> dq = newOrderedDelivery limit, pc = Waiting, written = [] \<rparr>"

text \<open>The payloads a sender assigned to the sequence numbers from 1 to \<open>n\<close>.\<close>

definition stream_prefix :: "(uint64 \<Rightarrow> bytes) \<Rightarrow> nat \<Rightarrow> bytes list" where
  "stream_prefix src n = map (\<lambda>i. src (of_nat i)) [1..<Suc n]"

text \<open>The buffer invariant: distinct keys, all of them ahead of the delivered prefix and within
  the limit of it, each holding the payload its sender assigned to the number.\<close>

definition buffer_inv :: "(uint64 \<Rightarrow> bytes) \<Rightarrow> orderedDelivery \<Rightarrow> bool" where
  "buffer_inv src d \<longleftrightarrow> 0 < od_limit d \<and> od_limit d \<le> deliveryWindowWide
     \<and> distinct (map fst (od_pending d)) \<and> length (od_pending d) \<le> od_limit d
     \<and> (\<forall>(q, p) \<in> set (od_pending d). od_delivered d < q
          \<and> unat q - unat (od_delivered d) \<le> od_limit d \<and> p = src q)"

definition sys_inv :: "(uint64 \<Rightarrow> bytes) \<Rightarrow> delivery_sys \<Rightarrow> bool" where
  "sys_inv src s \<longleftrightarrow> buffer_inv src (dq s)
     \<and> written s = stream_prefix src (unat (od_delivered (dq s)))
     \<and> (case pc s of
          Writing seq p \<Rightarrow> unat seq = Suc (unat (od_delivered (dq s))) \<and> p = src seq
        | _ \<Rightarrow> True)"

text \<open>The sequence numbers delivered or held.\<close>

definition held :: "orderedDelivery \<Rightarrow> nat set" where
  "held d = {1..unat (od_delivered d)} \<union> unat ` fst ` set (od_pending d)"

text \<open>Frames arriving one after the other, the writer draining after each.\<close>

fun arrive :: "(uint64 \<Rightarrow> bytes) \<Rightarrow> orderedDelivery \<Rightarrow> uint64 list \<Rightarrow> orderedDelivery \<times> bytes list" where
  "arrive src d [] = (d, [])"
| "arrive src d (q # qs) =
     (case offerObserved 0 d q (src q) of (_, d1, _) \<Rightarrow>
       (case drain d1 of (d2, out) \<Rightarrow>
         (case arrive src d2 qs of (d3, out') \<Rightarrow> (d3, out @ out'))))"

text \<open>A delivery that has been queued and not yet acknowledged has an armed timer, and the
  number to be acknowledged is the largest one queued.\<close>

definition da_inv :: "delayedACK \<Rightarrow> bool" where
  "da_inv d \<longleftrightarrow> da_count d \<le> 1 \<and> (da_count d = 1 \<longrightarrow> da_timer d)"

text \<open>A concrete buffer for a witness: one frame held above two missing ones.\<close>

definition sample_buffer :: orderedDelivery where
  "sample_buffer = (newOrderedDelivery 512)\<lparr>od_pending := [(3, [9])]\<rparr>"

section \<open>Lemmas\<close>

subsection \<open>Sequence numbers\<close>

lemma unat_diff_le: "(a :: uint64) \<le> b \<Longrightarrow> unat (b - a) = unat b - unat a"
  by (simp add: unat_sub word_le_nat_alt)

lemma unat_Suc_of_less:
  assumes "(a :: uint64) < b"
  shows "unat (a + 1) = Suc (unat a)"
proof -
  have "unat a < unat b" using assms by (simp add: word_less_nat_alt)
  moreover have "unat b < 2 ^ LENGTH(64)" by (rule unsigned_less)
  ultimately have "Suc (unat a) < 2 ^ 64" by simp
  then show ?thesis by (simp add: unat_word_ariths)
qed

lemma succ_ne_self: "(a :: uint64) + 1 \<noteq> a" by simp

subsection \<open>The buffer\<close>

lemma buffer_invI:
  assumes "0 < od_limit d" "od_limit d \<le> deliveryWindowWide" "distinct (map fst (od_pending d))"
    "length (od_pending d) \<le> od_limit d"
    "\<And>q p. (q, p) \<in> set (od_pending d) \<Longrightarrow>
       od_delivered d < q \<and> unat q - unat (od_delivered d) \<le> od_limit d \<and> p = src q"
  shows "buffer_inv src d"
  using assms by (auto simp: buffer_inv_def)

lemma buffer_invD:
  assumes "buffer_inv src d"
  shows "0 < od_limit d" "od_limit d \<le> 4096" "distinct (map fst (od_pending d))"
    "length (od_pending d) \<le> od_limit d"
    "(q, p) \<in> set (od_pending d) \<Longrightarrow> od_delivered d < q"
    "(q, p) \<in> set (od_pending d) \<Longrightarrow> unat q - unat (od_delivered d) \<le> od_limit d"
    "(q, p) \<in> set (od_pending d) \<Longrightarrow> p = src q"
  using assms by (auto simp: buffer_inv_def deliveryWindowWide_def)

text \<open>Fields other than the buffer, the limit and the prefix do not matter to the invariant.\<close>

lemma buffer_inv_cong:
  "od_pending d' = od_pending d \<Longrightarrow> od_limit d' = od_limit d \<Longrightarrow> od_delivered d' = od_delivered d
   \<Longrightarrow> buffer_inv src d' = buffer_inv src d"
  by (simp add: buffer_inv_def)

lemma buffer_new: "buffer_inv src (newOrderedDelivery limit)"
  by (auto simp: buffer_inv_def newOrderedDelivery_def deliveryWindowWide_def)

lemma od_close_delivered [simp]: "od_delivered (od_close d) = od_delivered d"
  by (simp add: od_close_def)

lemma stream_prefix_0 [simp]: "stream_prefix src 0 = []"
  by (simp add: stream_prefix_def)

lemma stream_prefix_Suc:
  "unat seq = Suc n \<Longrightarrow> stream_prefix src (unat seq) = stream_prefix src n @ [src seq]"
proof -
  assume seq: "unat seq = Suc n"
  have "seq = of_nat (unat seq)" by simp
  then have "src (of_nat (Suc n)) = src seq" unfolding seq by simp
  moreover have "[1..<Suc (Suc n)] = [1..<Suc n] @ [Suc n]" by simp
  ultimately show ?thesis by (simp only: stream_prefix_def seq map_append list.map)
qed

lemma buffer_close: "buffer_inv src d \<Longrightarrow> buffer_inv src (od_close d)"
  by (auto simp: buffer_inv_def od_close_def)

text \<open>The four outcomes of an offer.\<close>

lemma offer_cases:
  assumes "offerObserved now d seq p = ((fresh, ok), d', acks)"
  obtains (refused) "\<not> fresh" "\<not> ok" "d' = d"
        "seq = 0 \<or> od_closed d \<or> od_delivered d < seq \<and> map_of (od_pending d) seq = None
           \<and> (unat seq - unat (od_delivered d) > od_limit d \<or> length (od_pending d) \<ge> od_limit d)"
    | (duplicate) "\<not> fresh" "ok" "d' = d" "seq \<le> od_delivered d \<or> map_of (od_pending d) seq \<noteq> None"
    | (admitted) "fresh" "ok" "seq \<noteq> 0" "\<not> od_closed d" "od_delivered d < seq"
        "map_of (od_pending d) seq = None"
        "unat seq - unat (od_delivered d) \<le> od_limit d" "length (od_pending d) < od_limit d"
        "od_pending d' = (seq, p) # od_pending d" "od_limit d' = od_limit d"
        "od_delivered d' = od_delivered d" "od_closed d' = od_closed d" "od_wake d'"
        "od_delayed d' = od_delayed d"
proof -
  have admit: "fresh \<and> ok \<and> od_pending d' = (seq, p) # od_pending d \<and> od_limit d' = od_limit d
      \<and> od_delivered d' = od_delivered d \<and> od_closed d' = od_closed d \<and> od_wake d'
      \<and> od_delayed d' = od_delayed d"
    if "seq \<noteq> 0" "\<not> od_closed d" "\<not> seq \<le> od_delivered d" "map_of (od_pending d) seq = None"
      "\<not> (unat (seq - od_delivered d) > od_limit d \<or> length (od_pending d) \<ge> od_limit d)"
    using assms that
    by (cases "stalled now (d\<lparr>od_pending := (seq, p) # od_pending d\<rparr>)")
      (auto simp: offerObserved_def Let_def feedbackWhileStalled_def split: if_splits)
  consider "seq = 0 \<or> od_closed d" | "seq \<noteq> 0" "\<not> od_closed d" "seq \<le> od_delivered d"
    | "seq \<noteq> 0" "\<not> od_closed d" "\<not> seq \<le> od_delivered d" "map_of (od_pending d) seq \<noteq> None"
    | "seq \<noteq> 0" "\<not> od_closed d" "\<not> seq \<le> od_delivered d" "map_of (od_pending d) seq = None"
        "unat (seq - od_delivered d) > od_limit d \<or> length (od_pending d) \<ge> od_limit d"
    | "seq \<noteq> 0" "\<not> od_closed d" "\<not> seq \<le> od_delivered d" "map_of (od_pending d) seq = None"
        "\<not> (unat (seq - od_delivered d) > od_limit d \<or> length (od_pending d) \<ge> od_limit d)"
    by blast
  then show ?thesis
  proof cases
    case 1
    with assms show ?thesis by (intro refused) (auto simp: offerObserved_def split: if_splits)
  next
    case 2
    with assms show ?thesis by (intro duplicate) (auto simp: offerObserved_def Let_def)
  next
    case 3
    with assms show ?thesis by (intro duplicate) (auto simp: offerObserved_def Let_def)
  next
    case 4
    with assms show ?thesis
      using unat_diff_le [of "od_delivered d" seq] by (intro refused) (auto simp: offerObserved_def Let_def)
  next
    case 5
    then show ?thesis using admit [OF 5] unat_diff_le [of "od_delivered d" seq] by (intro admitted) auto
  qed
qed

lemma buffer_offer:
  assumes inv: "buffer_inv src d" and off: "offerObserved now d seq (src seq) = (r, d', acks)"
  shows "buffer_inv src d'" "od_delivered d' = od_delivered d"
proof -
  obtain fresh ok where "offerObserved now d seq (src seq) = ((fresh, ok), d', acks)"
    using off by (cases r) auto
  then show "buffer_inv src d'" "od_delivered d' = od_delivered d"
    using inv
    by (cases rule: offer_cases; auto simp: buffer_inv_def map_of_eq_None_iff)+
qed

lemma buffer_commit:
  assumes inv: "buffer_inv src d" and next_seq: "unat seq = Suc (unat (od_delivered d))"
  shows "buffer_inv src (fst (runCommit d seq))"
proof (rule buffer_invI)
  let ?d = "fst (runCommit d seq)"
  have fields: "od_limit ?d = od_limit d" "od_delivered ?d = seq" "od_pending ?d = AList.delete seq (od_pending d)"
    by (simp_all add: runCommit_def split_beta)
  show "0 < od_limit ?d" "od_limit ?d \<le> deliveryWindowWide" "length (od_pending ?d) \<le> od_limit ?d"
    using buffer_invD(1,2,4) [OF inv] length_delete_le [of seq "od_pending d"]
    by (auto simp: fields deliveryWindowWide_def)
  show "distinct (map fst (od_pending ?d))"
    using buffer_invD(3) [OF inv] by (simp add: fields distinct_delete)
  fix q p
  assume "(q, p) \<in> set (od_pending ?d)"
  then have mem: "(q, p) \<in> set (od_pending d)" and ne: "q \<noteq> seq"
    by (auto simp: fields AList.delete_eq)
  have "unat seq \<le> unat q"
    using buffer_invD(5) [OF inv mem] next_seq by (simp add: word_less_nat_alt)
  moreover have "unat seq \<noteq> unat q" using ne by (simp add: word_unat_eq_iff)
  ultimately show "od_delivered ?d < q \<and> unat q - unat (od_delivered ?d) \<le> od_limit ?d \<and> p = src q"
    using buffer_invD(6,7) [OF inv mem] next_seq by (auto simp: fields word_less_nat_alt)
qed

lemma runCommit_fields:
  "od_limit (fst (runCommit d seq)) = od_limit d" "od_delivered (fst (runCommit d seq)) = seq"
  "od_closed (fst (runCommit d seq)) = od_closed d"
  by (simp_all add: runCommit_def split_beta)

lemma runNext_inv:
  assumes "buffer_inv src d" "runNext d = Some (seq, p)"
  shows "unat seq = Suc (unat (od_delivered d))" "p = src seq"
proof -
  have seq: "seq = od_delivered d + 1" and mem: "(seq, p) \<in> set (od_pending d)"
    using assms(2) by (auto simp: runNext_Some dest: map_of_SomeD)
  show "unat seq = Suc (unat (od_delivered d))"
    using unat_Suc_of_less [OF buffer_invD(5) [OF assms(1) mem]] seq by simp
  show "p = src seq" using buffer_invD(7) [OF assms(1) mem] .
qed

subsection \<open>Reachable states\<close>

lemma sys_inv_step:
  assumes step: "delivery_step src s s'" and inv: "sys_inv src s"
  shows "sys_inv src s'"
proof -
  have buf: "buffer_inv src (dq s)" and wr: "written s = stream_prefix src (unat (od_delivered (dq s)))"
    using inv by (simp_all add: sys_inv_def)
  show ?thesis
    using step
  proof (cases rule: delivery_step.cases)
    case (step_offer now seq r d' acks)
    then show ?thesis
      using inv buffer_offer [OF buf step_offer(2)] by (cases "pc s") (simp_all add: sys_inv_def)
  next
    case (step_write seq p now)
    then show ?thesis
      using wr runNext_inv [OF buf, of seq p] buf
      by (simp add: sys_inv_def buffer_inv_def)
  next
    case (step_written seq p d' acks)
    then have seq: "unat seq = Suc (unat (od_delivered (dq s)))" and p: "p = src seq"
      using inv by (simp_all add: sys_inv_def)
    have "buffer_inv src d'" "od_delivered d' = seq"
      using buffer_commit [OF buf seq] runCommit_fields(2) [of "dq s" seq] step_written(3) by simp_all
    then show ?thesis
      using stream_prefix_Suc [OF seq, of src] p step_written(1) wr by (simp add: sys_inv_def)
  next
    case (step_ack_timer dl acks)
    then show ?thesis
      using inv by (cases "pc s") (simp_all add: sys_inv_def buffer_inv_def)
  next
    case step_close
    then show ?thesis using inv buffer_close [OF buf] by (cases "pc s") (simp_all add: sys_inv_def)
  qed (use inv in \<open>simp_all add: sys_inv_def buffer_inv_def\<close>)
qed

lemma sys_inv_reachable:
  assumes "(delivery_step src)\<^sup>*\<^sup>* (delivery_init limit) s"
  shows "sys_inv src s"
  using assms
proof induction
  case base
  show ?case by (simp add: sys_inv_def delivery_init_def buffer_new) (simp add: newOrderedDelivery_def)
next
  case (step s s')
  then show ?case using sys_inv_step by blast
qed

subsection \<open>Draining\<close>

lemma held_commit:
  assumes "buffer_inv src d" "runNext d = Some (seq, p)"
  shows "held (fst (runCommit d seq)) = held d"
proof -
  have mem: "(seq, p) \<in> set (od_pending d)" using assms(2) by (auto simp: runNext_Some dest: map_of_SomeD)
  have seq: "unat seq = Suc (unat (od_delivered d))" using runNext_inv(1) [OF assms] .
  have "fst ` set (AList.delete seq (od_pending d)) = fst ` set (od_pending d) - {seq}"
    by (force simp: AList.delete_eq)
  moreover have "unat ` (A - {seq}) = unat ` A - {unat seq}" for A
    using image_set_diff [OF inj_unat, of A "{seq}"] by simp
  moreover have "{1..unat seq} = insert (unat seq) {1..unat (od_delivered d)}" using seq by auto
  moreover have "unat seq \<in> unat ` fst ` set (od_pending d)" using mem by force
  ultimately show ?thesis by (auto simp: held_def runCommit_fields runCommit_pending)
qed

lemma drain_spec:
  assumes "buffer_inv src d" "drain d = (d', out)"
  shows "buffer_inv src d' \<and> runNext d' = None \<and> od_limit d' = od_limit d \<and> od_closed d' = od_closed d
    \<and> held d' = held d
    \<and> stream_prefix src (unat (od_delivered d')) = stream_prefix src (unat (od_delivered d)) @ out"
  using assms
proof (induction d arbitrary: d' out rule: drain.induct)
  case (1 d)
  show ?case
  proof (cases "runNext d")
    case None
    then show ?thesis using 1(2,3) by (simp add: drain.simps [of d])
  next
    case (Some r)
    obtain seq p where r: "r = (seq, p)" by (cases r)
    define d1 where "d1 = fst (runCommit d seq)"
    obtain out' where out': "drain d1 = (d', out')" "out = p # out'"
      using 1(3) Some r by (auto simp: drain.simps [of d] d1_def split: prod.splits)
    have nx: "runNext d = Some (seq, p)" using Some r by simp
    have seq: "unat seq = Suc (unat (od_delivered d))" "p = src seq" using runNext_inv [OF 1(2) nx] by auto
    have "buffer_inv src d1" using buffer_commit [OF 1(2) seq(1)] by (simp add: d1_def)
    from 1(1) [OF Some r [symmetric], folded d1_def, OF this out'(1)] show ?thesis
      using held_commit [OF 1(2) nx] stream_prefix_Suc [OF seq(1), of src] out'(2) seq(2)
      by (simp add: d1_def runCommit_fields)
  qed
qed

subsection \<open>Arrivals\<close>

lemma pending_room:
  assumes inv: "buffer_inv src d" and sub: "held d \<subseteq> {1..n}" and n: "n \<le> od_limit d"
    and q: "od_delivered d < q" "unat q \<le> n" "map_of (od_pending d) q = None"
  shows "length (od_pending d) < od_limit d"
proof -
  let ?K = "unat ` fst ` set (od_pending d)"
  have "?K \<subseteq> {Suc (unat (od_delivered d))..n}"
    using sub buffer_invD(5) [OF inv] by (force simp: held_def word_less_nat_alt Suc_le_eq)
  moreover have "unat q \<notin> ?K"
    using q(3) by (force simp: map_of_eq_None_iff word_unat_eq_iff [symmetric])
  moreover have "unat q \<in> {Suc (unat (od_delivered d))..n}"
    using q by (simp add: word_less_nat_alt Suc_le_eq)
  ultimately have "?K \<subset> {Suc (unat (od_delivered d))..n}" by blast
  then have "card ?K < n - unat (od_delivered d)"
    using psubset_card_mono [of "{Suc (unat (od_delivered d))..n}" ?K] by simp
  moreover have "card ?K = length (od_pending d)"
    using buffer_invD(3) [OF inv] card_image [OF inj_on_subset [OF inj_unat subset_UNIV], of "fst ` set (od_pending d)"]
      distinct_card [of "map fst (od_pending d)"] by simp
  ultimately show ?thesis using n by simp
qed

lemma arrive_step:
  assumes inv: "buffer_inv src d" and open_d: "\<not> od_closed d" and sub: "held d \<subseteq> {1..n}"
    and n: "n \<le> od_limit d" and q: "q \<noteq> 0" "unat q \<le> n"
    and off: "offerObserved now d q (src q) = (r, d1, acks)"
  shows "buffer_inv src d1 \<and> \<not> od_closed d1 \<and> od_limit d1 = od_limit d
    \<and> od_delivered d1 = od_delivered d \<and> held d1 = insert (unat q) (held d)"
proof -
  obtain fresh ok where off': "offerObserved now d q (src q) = ((fresh, ok), d1, acks)"
    using off by (cases r) auto
  have d1: "buffer_inv src d1" "od_delivered d1 = od_delivered d" using buffer_offer [OF inv off] by auto
  from off' show ?thesis
  proof (cases rule: offer_cases)
    case refused
    then have "od_delivered d < q" "map_of (od_pending d) q = None"
      and full: "unat q - unat (od_delivered d) > od_limit d \<or> length (od_pending d) \<ge> od_limit d"
      using q open_d by auto
    with pending_room [OF inv sub n] q n have False by fastforce
    then show ?thesis ..
  next
    case duplicate
    then have "unat q \<in> held d"
      using q unat_gt_0 [of q] by (force simp: held_def word_le_nat_alt Suc_le_eq dest: map_of_SomeD)
    then show ?thesis using duplicate inv open_d by (simp add: insert_absorb)
  next
    case admitted
    then show ?thesis using d1 by (simp add: held_def)
  qed
qed

lemma arrive_spec:
  assumes "buffer_inv src d" "\<not> od_closed d" "runNext d = None" "held d \<subseteq> {1..n}" "n \<le> od_limit d"
    "unat ` set qs \<subseteq> {1..n}" "arrive src d qs = (d', out)"
  shows "buffer_inv src d' \<and> \<not> od_closed d' \<and> runNext d' = None \<and> held d' = held d \<union> unat ` set qs
    \<and> stream_prefix src (unat (od_delivered d')) = stream_prefix src (unat (od_delivered d)) @ out"
  using assms
proof (induction qs arbitrary: d out)
  case (Cons q qs)
  obtain r d1 acks where off: "offerObserved 0 d q (src q) = (r, d1, acks)" by (metis prod_cases3)
  obtain d2 o2 where dr: "drain d1 = (d2, o2)" by fastforce
  obtain o3 where ar: "arrive src d2 qs = (d', o3)" "out = o2 @ o3"
    using Cons.prems(7) off dr by (auto split: prod.splits)
  have q: "q \<noteq> 0" "unat q \<le> n" using Cons.prems(6) by auto
  note d1 = arrive_step [OF Cons.prems(1,2,4,5) q off]
  note d2 = drain_spec [OF conjunct1 [OF d1] dr]
  have "held d2 \<subseteq> {1..n}" using d1 d2 Cons.prems(4,6) by auto
  then show ?case
    using Cons.IH [of d2 o3] d1 d2 Cons.prems(5,6) ar by auto
qed auto

lemma caught_up_delivered:
  assumes "buffer_inv src d" "\<not> od_closed d" "runNext d = None" "held d = {1..n}"
  shows "unat (od_delivered d) = n"
proof (rule ccontr)
  assume ne: "unat (od_delivered d) \<noteq> n"
  have "{1..unat (od_delivered d)} \<subseteq> {1..n}" using assms(4) by (auto simp: held_def)
  then have "unat (od_delivered d) < n" using ne by (cases "unat (od_delivered d)") auto
  then have "Suc (unat (od_delivered d)) \<in> held d" using assms(4) by simp
  then obtain q p where q: "(q, p) \<in> set (od_pending d)" "unat q = Suc (unat (od_delivered d))"
    by (auto simp: held_def)
  then have "unat (od_delivered d + 1) = Suc (unat (od_delivered d))"
    using unat_Suc_of_less [OF buffer_invD(5) [OF assms(1)]] by blast
  then have "q = od_delivered d + 1" using q(2) by (simp add: word_unat_eq_iff)
  then have "map_of (od_pending d) (od_delivered d + 1) \<noteq> None"
    using weak_map_of_SomeI [OF q(1)] by auto
  then show False using assms(2,3) by (auto simp: runNext_def Let_def split: option.splits)
qed

subsection \<open>Snapshots\<close>

lemma snapshotBit_winbit:
  assumes "length bm = 64" "limit \<le> 4096"
  shows "length (snapshotBit ack limit e bm) = 64"
    and "winbit (snapshotBit ack limit e bm) k \<longleftrightarrow>
      winbit bm k \<or> (ack < fst e \<and> unat (fst e) - unat ack \<le> limit \<and> unat (fst e) = unat ack + 1 + k)"
proof -
  show "length (snapshotBit ack limit e bm) = 64"
    using assms by (simp add: snapshotBit_def Let_def)
  show "winbit (snapshotBit ack limit e bm) k \<longleftrightarrow>
      winbit bm k \<or> (ack < fst e \<and> unat (fst e) - unat ack \<le> limit \<and> unat (fst e) = unat ack + 1 + k)"
  proof (cases "ack < fst e \<and> unat (fst e) - unat ack \<le> limit")
    case True
    have d: "unat (fst e - ack) = unat (fst e) - unat ack" "unat ack < unat (fst e)"
      using True unat_diff_le [OF less_imp_le, of ack "fst e"] by (simp_all add: word_less_nat_alt)
    then have "1 \<le> fst e - ack" by (simp add: word_le_nat_alt)
    then have b: "unat (fst e - ack - 1) = unat (fst e) - unat ack - 1"
      using d unat_diff_le [of 1 "fst e - ack"] by simp
    then have small: "unat (fst e - ack - 1) < 4096" using True d assms(2) unfolding b by linarith
    show ?thesis
      using winbit_set_64 [OF assms(1) small, of k] True b d
      by (auto simp: snapshotBit_def Let_def)
  next
    case False
    then show ?thesis by (auto simp: snapshotBit_def Let_def unat_diff_le)
  qed
qed

lemma fold_snapshotBit:
  assumes "length bm = 64" "limit \<le> 4096"
  shows "winbit (fold (snapshotBit ack limit) es bm) k \<longleftrightarrow> winbit bm k
    \<or> (\<exists>e \<in> set es. ack < fst e \<and> unat (fst e) - unat ack \<le> limit \<and> unat (fst e) = unat ack + 1 + k)"
  using assms
proof (induction es arbitrary: bm)
  case (Cons e es)
  then show ?case using snapshotBit_winbit [OF Cons.prems, of ack e] by (auto simp del: One_nat_def)
qed simp

lemma length_fold_snapshotBit:
  "length bm = 64 \<Longrightarrow> limit \<le> 4096 \<Longrightarrow> length (fold (snapshotBit ack limit) es bm) = 64"
  by (induction es arbitrary: bm) (simp_all add: snapshotBit_winbit)

subsection \<open>Delayed acknowledgements\<close>

lemma da_inv_ops:
  "da_inv newDelayedACK" "da_inv d \<Longrightarrow> da_inv (fst (da_queue d seq))" "da_inv d \<Longrightarrow> da_inv (fst (da_fire d))"
  "da_inv d \<Longrightarrow> da_inv (da_close d)"
  by (auto simp: da_inv_def newDelayedACK_def da_queue_def da_fire_def da_close_def Let_def)

section \<open>Properties\<close>

text \<open>C4. In every reachable state of the receive side, under any interleaving of arrivals,
  writes, timer runs and closing, what has been written to the application is exactly the
  sender's payloads for the sequence numbers 1, 2, ... up to the acknowledged one, in order
  and each once; and the buffer stays within its limit and ahead of the delivered prefix.\<close>

theorem delivery_in_order:
  assumes "(delivery_step src)\<^sup>*\<^sup>* (delivery_init limit) s"
  shows "written s = stream_prefix src (unat (od_delivered (dq s)))
    \<and> length (od_pending (dq s)) \<le> od_limit (dq s)
    \<and> (\<forall>(q, p) \<in> set (od_pending (dq s)). od_delivered (dq s) < q
         \<and> unat q - unat (od_delivered (dq s)) \<le> od_limit (dq s) \<and> p = src q)"
  using sys_inv_reachable [OF assms] by (simp add: sys_inv_def buffer_inv_def)

lemma sample_delivery_run:
  "\<exists>s. (delivery_step (\<lambda>q. [ucast q]))\<^sup>*\<^sup>* (delivery_init 512) s \<and> od_delivered (dq s) = 1"
proof -
  let ?src = "\<lambda>q :: uint64. [ucast q :: byte]"
  define s0 where "s0 = delivery_init 512"
  define s1 where "s1 = s0\<lparr>dq := fst (snd (offerObserved 0 (dq s0) 1 (?src 1)))\<rparr>"
  define s2 where "s2 = s1\<lparr>dq := (dq s1)\<lparr>od_wake := False\<rparr>, pc := Draining\<rparr>"
  define s3 where "s3 = s2\<lparr>dq := (dq s2)\<lparr>od_writeStarted := 5\<rparr>, pc := Writing 1 (?src 1)\<rparr>"
  define s4 where "s4 = s3\<lparr>dq := fst (runCommit (dq s3) 1), pc := Draining, written := written s3 @ [?src 1]\<rparr>"
  note defs = s0_def s1_def s2_def s3_def s4_def delivery_init_def newOrderedDelivery_def
    offerObserved_def deliveryWindowWide_def stalled_def
  have "delivery_step ?src s0 s1"
    unfolding s1_def by (rule step_offer [of 0 _ 1 _ "fst (offerObserved 0 (dq s0) 1 (?src 1))" _
        "snd (snd (offerObserved 0 (dq s0) 1 (?src 1)))"]) simp
  moreover have "delivery_step ?src s1 s2"
    unfolding s2_def by (rule step_wake) (simp_all add: defs)
  moreover have "delivery_step ?src s2 s3"
    unfolding s3_def by (rule step_write) (simp_all add: defs runNext_def)
  moreover have "delivery_step ?src s3 s4"
    unfolding s4_def by (rule step_written [of _ 1 _ _ "snd (runCommit (dq s3) 1)"]) (simp_all add: s3_def)
  ultimately have "(delivery_step ?src)\<^sup>*\<^sup>* s0 s4" by auto
  moreover have "od_delivered (dq s4) = 1" by (simp add: s4_def runCommit_fields)
  ultimately show ?thesis unfolding s0_def by blast
qed

theorem delivery_in_order_witness:
  "\<exists>s. (delivery_step (\<lambda>q. [ucast q]))\<^sup>*\<^sup>* (delivery_init 512) s \<and> written s = [[1]]"
  using sample_delivery_run delivery_in_order by (fastforce simp: stream_prefix_def)

text \<open>C15. Whatever order frames 1 to \<open>n\<close> arrive in, and however often each arrives, the
  application receives exactly the \<open>n\<close> payloads in sequence order, provided the frames in
  flight fit the delivery window.\<close>

theorem delivery_complete:
  assumes "n \<le> deliveryLimitFor wide" "unat ` set qs = {1..n}"
  shows "snd (arrive src (newOrderedDelivery (int (deliveryLimitFor wide))) qs) = stream_prefix src n"
proof -
  let ?d = "newOrderedDelivery (int (deliveryLimitFor wide))"
  obtain d' out where run: "arrive src ?d qs = (d', out)" by fastforce
  have d: "\<not> od_closed ?d" "runNext ?d = None" "held ?d = {}" "n \<le> od_limit ?d" "od_delivered ?d = 0"
    using assms(1)
    by (auto simp: newOrderedDelivery_def runNext_def held_def deliveryLimitFor_def
        deliveryWindow_def deliveryWindowWide_def)
  have "buffer_inv src d' \<and> \<not> od_closed d' \<and> runNext d' = None \<and> held d' = {1..n}
      \<and> stream_prefix src (unat (od_delivered d')) = out"
    using arrive_spec [OF buffer_new d(1,2) _ d(4) _ run] assms(2) d(3,5) by auto
  then show ?thesis using caught_up_delivered [of src d' n] run by auto
qed

theorem delivery_complete_witness:
  "snd (arrive (\<lambda>q. [ucast q]) (newOrderedDelivery (int (deliveryLimitFor False))) [3, 1, 3, 2])
     = stream_prefix (\<lambda>q. [ucast q]) 3"
proof -
  have "{1..3 :: nat} = {1, 2, 3}" by auto
  then have "unat ` set [3, 1, 3, 2 :: uint64] = {1..3}" by auto
  then show ?thesis
    by (intro delivery_complete) (simp_all add: deliveryLimitFor_def deliveryWindow_def)
qed

text \<open>C17. The acknowledgement snapshot is exact: bit \<open>k\<close> of its bitmap is set iff the frame
  with number \<open>k + 1\<close> above the delivered prefix is held, and the credit is the free space.\<close>

theorem snapshot_exact:
  assumes "buffer_inv src d"
  shows "case snapshot d of (ack, bitmap, credit) \<Rightarrow>
     ack = od_delivered d \<and> length bitmap = sackWordsWide
     \<and> (\<forall>k. winbit bitmap k = (unat ack + 1 + k \<in> unat ` fst ` set (od_pending d)))
     \<and> unat credit = od_limit d - length (od_pending d)"
proof -
  let ?ack = "od_delivered d"
  have lim: "od_limit d \<le> 4096" using buffer_invD(2) [OF assms] .
  have mem: "?ack < fst e \<and> unat (fst e) - unat ?ack \<le> od_limit d" if "e \<in> set (od_pending d)" for e
    using buffer_invD(5,6) [OF assms, of "fst e" "snd e"] that by simp
  have "winbit (fold (snapshotBit ?ack (od_limit d)) (od_pending d) (replicate 64 0)) k
      \<longleftrightarrow> (\<exists>e \<in> set (od_pending d). unat ?ack + 1 + k = unat (fst e))" for k
    unfolding fold_snapshotBit [OF length_replicate lim] by (simp only: winbit_zero simp_thms, rule bex_cong [OF refl]) (use mem in auto)
  then have "winbit (fold (snapshotBit ?ack (od_limit d)) (od_pending d) (replicate 64 0)) k
      \<longleftrightarrow> unat ?ack + 1 + k \<in> unat ` fst ` set (od_pending d)" for k
    by (simp add: image_image image_iff)
  moreover have "unat (of_int (int (od_limit d) - int (length (od_pending d))) :: uint16)
      = od_limit d - length (od_pending d)"
  proof -
    have free: "int (od_limit d) - int (length (od_pending d)) = int (od_limit d - length (od_pending d))"
      using buffer_invD(4) [OF assms] by simp
    show ?thesis
      unfolding free of_int_of_nat_eq using lim by (intro unat_of_nat_uint16) simp
  qed
  ultimately show ?thesis
    unfolding snapshot_def Let_def sackWordsWide_def prod.case
    using length_fold_snapshotBit [OF length_replicate lim] by blast
qed

theorem snapshot_exact_witness:
  "case snapshot sample_buffer of (ack, bitmap, credit) \<Rightarrow> winbit bitmap 2 \<and> unat credit = 511"
proof -
  have "buffer_inv (\<lambda>_. [9]) sample_buffer"
    by (simp add: buffer_inv_def sample_buffer_def newOrderedDelivery_def deliveryWindowWide_def)
  from snapshot_exact [OF this] show ?thesis
    by (auto simp: sample_buffer_def newOrderedDelivery_def deliveryWindowWide_def split: prod.splits)
qed

text \<open>No delivery goes unacknowledged: queueing a delivery either sends an acknowledgement
  covering it and everything queued before at once, or leaves a timer armed that will send it.\<close>

lemma delayed_ack_covers:
  assumes "da_inv d" "\<not> da_closed d"
  shows "case da_queue d seq of (d', acks) \<Rightarrow>
     da_pending d' = max (da_pending d) seq \<and> da_inv d'
     \<and> (acks = [da_pending d'] \<or> acks = [] \<and> da_timer d' \<and> snd (da_fire d') = [da_pending d'])"
  using assms da_inv_ops(2) [OF assms(1), of seq]
  by (auto simp: da_queue_def da_fire_def da_inv_def Let_def max_def)

lemma delayed_ack_covers_witness:
  "snd (da_queue (fst (da_queue newDelayedACK 4)) 5) = [5]"
  using delayed_ack_covers [of newDelayedACK 4] delayed_ack_covers [of "fst (da_queue newDelayedACK 4)" 5]
  by (simp add: newDelayedACK_def da_inv_def da_queue_def Let_def)

end
