(* ===== verification/SendFlow.thy ===== *)
theory SendFlow
  imports Rtt Delivery
begin

text \<open>
  The congestion controller of the sender (\<^verbatim>\<open>src/tunnel/recovery.go\<close>, type \<open>sendFlow\<close>):
  window growth on acknowledgement, the three-way reaction to a loss, undoing a spurious
  cut, the delivery-rate estimate, and the pacing of bursts.

  A zero \<^verbatim>\<open>time.Time\<close> is \<open>None\<close>; the current time is an argument wherever the code reads the
  clock.  The delivery rate, a \<^verbatim>\<open>float64\<close> in the code, is an exact rational here.
\<close>

section \<open>Definitions\<close>

record sendFlow =
  fl_max :: int
  fl_cwnd :: int
  fl_credit :: int
  fl_ssthresh :: int
  fl_growth :: int
  fl_lastLoss :: "int option"
  fl_lastLossCut :: int
  fl_lastLossSSThresh :: int
  fl_feedbackNo :: uint64
  fl_lastProbe :: "int option"
  fl_fastRepairs :: int
  fl_nextSend :: "int option"
  fl_rate :: rat
  fl_rateAt :: "int option"
  fl_rateAcc :: int
  fl_minRTT :: duration
  fl_westwood :: bool
  fl_restartTo :: int

definition rateWindow :: duration where "rateWindow = 100 * millisecond"
definition rateIdle :: duration where "rateIdle = 2 * second"
definition rateAlpha :: rat where "rateAlpha = 1 / 4"
definition minRTTDrift :: int where "minRTTDrift = 64"
definition congestedFactor :: int where "congestedFactor = 2"
definition initialCwnd :: int where "initialCwnd = 256"
definition bootstrapPaceRTT :: duration where "bootstrapPaceRTT = 20 * millisecond"

definition newSendFlow :: "int \<Rightarrow> bool \<Rightarrow> bool \<Rightarrow> bool \<Rightarrow> sendFlow" where
  "newSendFlow maximum automatic westwood wide = (
     let ceiling = (if wide then int deliveryWindowWide else int deliveryWindow);
         m0 = (if automatic then ceiling else maximum);
         m = min (max m0 1) ceiling
     in \<lparr> fl_max = m, fl_cwnd = min initialCwnd m, fl_credit = ceiling, fl_ssthresh = m, fl_growth = 0,
          fl_lastLoss = None, fl_lastLossCut = 0, fl_lastLossSSThresh = 0, fl_feedbackNo = 0,
          fl_lastProbe = None, fl_fastRepairs = 0, fl_nextSend = None, fl_rate = 0, fl_rateAt = None,
          fl_rateAcc = 0, fl_minRTT = 0, fl_westwood = westwood, fl_restartTo = 0 \<rparr>)"

definition fl_window :: "sendFlow \<Rightarrow> int" where
  "fl_window f = min (fl_cwnd f) (fl_credit f)"

definition observeRTT :: "sendFlow \<Rightarrow> duration \<Rightarrow> sendFlow" where
  "observeRTT f sample = (
     if sample \<le> 0 then f
     else if fl_minRTT f \<le> 0 \<or> sample < fl_minRTT f then f\<lparr>fl_minRTT := sample\<rparr>
     else f\<lparr>fl_minRTT := fl_minRTT f + trunc_div (sample - fl_minRTT f) minRTTDrift\<rparr>)"

text \<open>\<open>elapsed.Seconds()\<close>\<close>

definition seconds_of :: "duration \<Rightarrow> rat" where
  "seconds_of d = of_int d / of_int second"

definition sampleRate :: "sendFlow \<Rightarrow> int \<Rightarrow> int \<Rightarrow> sendFlow" where
  "sampleRate f n now = (
     if n \<le> 0 then f
     else (case fl_rateAt f of
       None \<Rightarrow> f\<lparr>fl_rateAt := Some now, fl_rateAcc := n\<rparr>
     | Some t0 \<Rightarrow>
         (let elapsed = now - t0 in
          if elapsed > rateIdle then f\<lparr>fl_rate := 0, fl_rateAt := Some now, fl_rateAcc := n\<rparr>
          else if elapsed < rateWindow then f\<lparr>fl_rateAcc := fl_rateAcc f + n\<rparr>
          else (let acc = fl_rateAcc f + n;
                    inst = of_int acc / seconds_of elapsed;
                    rate' = (if fl_rate f \<le> 0 then inst else fl_rate f + (inst - fl_rate f) * rateAlpha)
                in f\<lparr>fl_rate := rate', fl_rateAt := Some now, fl_rateAcc := 0\<rparr>))))"

definition acknowledged :: "sendFlow \<Rightarrow> int \<Rightarrow> int \<Rightarrow> sendFlow" where
  "acknowledged f0 n now = (
     let f1 = sampleRate f0 n now;
         f = (if fl_restartTo f1 > 0
              then f1\<lparr>fl_ssthresh := max (fl_cwnd f1) (min (fl_max f1) (fl_restartTo f1)), fl_restartTo := 0\<rparr>
              else f1)
     in if fl_cwnd f < fl_ssthresh f then f\<lparr>fl_cwnd := min (fl_max f) (fl_cwnd f + n)\<rparr>
        else (let g = fl_growth f + n in
          if g \<ge> fl_cwnd f
          then f\<lparr>fl_growth := g - fl_cwnd f, fl_cwnd := min (fl_max f) (fl_cwnd f + 1)\<rparr>
          else f\<lparr>fl_growth := g\<rparr>))"

definition congested :: "sendFlow \<Rightarrow> duration \<Rightarrow> bool" where
  "congested f rtt \<longleftrightarrow> fl_minRTT f \<le> 0 \<or> rtt \<ge> fl_minRTT f * congestedFactor"

text \<open>The conversion of a non-negative float to \<open>int\<close> drops the fraction.\<close>

definition bdp :: "sendFlow \<Rightarrow> duration \<Rightarrow> int \<Rightarrow> int" where
  "bdp f rtt clock = (case fl_rateAt f of
     None \<Rightarrow> 0
   | Some t0 \<Rightarrow>
       if fl_rate f \<le> 0 \<or> clock - t0 > rateIdle then 0
       else (let n = \<lfloor>fl_rate f * seconds_of rtt\<rfloor> in if n < 0 then 0 else n))"

text \<open>The beginning of \<open>loss\<close>: record the event and, when it may be undone, the state before it.\<close>

definition noteLoss :: "sendFlow \<Rightarrow> int \<Rightarrow> bool \<Rightarrow> sendFlow" where
  "noteLoss f now undoable = (if undoable
     then f\<lparr>fl_lastLoss := Some now, fl_lastLossCut := fl_cwnd f, fl_lastLossSSThresh := fl_ssthresh f\<rparr>
     else f\<lparr>fl_lastLoss := Some now\<rparr>)"

text \<open>The end of \<open>loss\<close>: install the target and the restart bound.\<close>

definition lossCut :: "sendFlow \<Rightarrow> bool \<Rightarrow> int \<Rightarrow> int \<Rightarrow> sendFlow" where
  "lossCut f undoable target restartTo = (
     let ss = max 2 (min (fl_cwnd f) target);
         f2 = f\<lparr>fl_ssthresh := ss, fl_cwnd := min (fl_max f) ss, fl_growth := 0, fl_restartTo := restartTo\<rparr>
     in if \<not> undoable then f2\<lparr>fl_lastLossCut := 0, fl_lastLossSSThresh := 0\<rparr> else f2)"

definition lossReact :: "sendFlow \<Rightarrow> int \<Rightarrow> duration \<Rightarrow> bool \<Rightarrow> int \<Rightarrow> sendFlow" where
  "lossReact f0 now rtt undoable clock = (
     let pre = fl_cwnd f0;
         f = noteLoss f0 now undoable;
         lowest = max 2 (fl_cwnd f - fl_cwnd f div 4);
         halved = max 2 (fl_cwnd f div 2)
     in if fl_minRTT f \<le> 0 then lossCut f undoable halved pre
        else if fl_westwood f \<and> \<not> congested f rtt then
          (let b = bdp f rtt clock in
           if b \<ge> lowest then f
           else if b \<ge> 2 then lossCut f undoable (max b lowest) (fl_max f)
           else lossCut f undoable lowest (fl_max f))
        else lossCut f undoable halved 0)"

definition recentLoss :: "sendFlow \<Rightarrow> int \<Rightarrow> duration \<Rightarrow> bool" where
  "recentLoss f now rtt = (case fl_lastLoss f of None \<Rightarrow> False | Some t \<Rightarrow> now - t < rtt)"

definition loss :: "sendFlow \<Rightarrow> int \<Rightarrow> duration \<Rightarrow> bool \<Rightarrow> int \<Rightarrow> sendFlow" where
  "loss f now rtt0 undoable clock = (
     let rtt = (if rtt0 < 10 * millisecond then 10 * millisecond else rtt0) in
     if recentLoss f now rtt then f else lossReact f now rtt undoable clock)"

definition undoLoss :: "sendFlow \<Rightarrow> bool \<times> sendFlow" where
  "undoLoss f0 = (
     let cut = fl_lastLossCut f0;
         f = f0\<lparr>fl_lastLossCut := 0\<rparr>
     in if cut \<le> fl_cwnd f then (False, f)
        else (let f1 = f\<lparr>fl_cwnd := min (fl_max f) cut\<rparr>;
                  f2 = (if fl_lastLossSSThresh f1 > fl_ssthresh f1
                        then f1\<lparr>fl_ssthresh := fl_lastLossSSThresh f1\<rparr> else f1)
              in (True, f2\<lparr>fl_growth := 0\<rparr>)))"

text \<open>\<open>waitBurst\<close>: the instant at which the burst may go out and the updated flow.  The reuse of
  one timer object has no effect on when the wait ends.\<close>

definition waitBurst :: "sendFlow \<Rightarrow> int \<Rightarrow> int \<Rightarrow> duration \<Rightarrow> int \<Rightarrow> int \<times> sendFlow" where
  "waitBurst f n window rtt0 now = (
     let rtt = (if rtt0 \<le> 0 then bootstrapPaceRTT else rtt0);
         when = (case fl_nextSend f of None \<Rightarrow> now | Some t \<Rightarrow> if t < now then now else t)
     in (when, f\<lparr>fl_nextSend := Some (when + trunc_div (n * rtt) (max window 1))\<rparr>))"

text \<open>What every operation keeps: the window between two frames (or the configured maximum,
  when that is one) and the maximum, which the delivery window bounds.\<close>

definition flow_inv :: "sendFlow \<Rightarrow> bool" where
  "flow_inv f \<longleftrightarrow> 1 \<le> fl_max f \<and> fl_max f \<le> 4096 \<and> min 2 (fl_max f) \<le> fl_cwnd f \<and> fl_cwnd f \<le> fl_max f
     \<and> 0 \<le> fl_credit f \<and> fl_credit f \<le> 4096 \<and> 0 \<le> fl_growth f \<and> 0 \<le> fl_restartTo f
     \<and> fl_restartTo f \<le> fl_max f \<and> 0 \<le> fl_lastLossCut f \<and> fl_lastLossCut f \<le> fl_max f"

text \<open>The calls a session makes on its flow, for statements about arbitrary call sequences.\<close>

datatype flow_op =
    OpAcknowledged nat int
  | OpObserveRTT duration
  | OpLoss int duration bool int
  | OpUndo
  | OpCredit uint64 nat
  | OpWaitBurst int int duration int

fun flow_apply :: "flow_op \<Rightarrow> sendFlow \<Rightarrow> sendFlow" where
  "flow_apply (OpAcknowledged n now) f = acknowledged f (int n) now"
| "flow_apply (OpObserveRTT s) f = observeRTT f s"
| "flow_apply (OpLoss now rtt u clock) f = loss f now rtt u clock"
| "flow_apply OpUndo f = snd (undoLoss f)"
| "flow_apply (OpCredit no c) f = f\<lparr>fl_feedbackNo := no, fl_credit := int (min c deliveryWindowWide)\<rparr>"
| "flow_apply (OpWaitBurst n w rtt now) f = snd (waitBurst f n w rtt now)"

section \<open>Lemmas\<close>

named_theorems flow_defs \<open>definitions of the window operations\<close>

lemmas [flow_defs] = acknowledged_def loss_def undoLoss_def observeRTT_def

lemma flow_new: "flow_inv (newSendFlow maximum automatic westwood wide)"
  by (auto simp: flow_inv_def newSendFlow_def Let_def initialCwnd_def deliveryWindow_def
      deliveryWindowWide_def)

lemma sampleRate_fields [simp]:
  "fl_max (sampleRate f n now) = fl_max f" "fl_cwnd (sampleRate f n now) = fl_cwnd f"
  "fl_credit (sampleRate f n now) = fl_credit f" "fl_ssthresh (sampleRate f n now) = fl_ssthresh f"
  "fl_growth (sampleRate f n now) = fl_growth f" "fl_restartTo (sampleRate f n now) = fl_restartTo f"
  "fl_lastLossCut (sampleRate f n now) = fl_lastLossCut f"
  by (simp_all add: sampleRate_def Let_def split: option.split)

lemma flow_acknowledged: "flow_inv f \<Longrightarrow> 0 \<le> n \<Longrightarrow> flow_inv (acknowledged f n now)"
  by (auto simp: flow_inv_def acknowledged_def Let_def)

lemma flow_observeRTT: "flow_inv f \<Longrightarrow> flow_inv (observeRTT f s)"
  by (auto simp: flow_inv_def observeRTT_def)

lemma flow_undoLoss: "flow_inv f \<Longrightarrow> flow_inv (snd (undoLoss f))"
  by (auto simp: flow_inv_def undoLoss_def Let_def)

lemma flow_waitBurst: "flow_inv f \<Longrightarrow> flow_inv (snd (waitBurst f n w rtt now))"
  by (auto simp: flow_inv_def waitBurst_def Let_def)

lemma noteLoss_fields [simp]:
  "fl_max (noteLoss f now u) = fl_max f" "fl_cwnd (noteLoss f now u) = fl_cwnd f"
  "fl_minRTT (noteLoss f now u) = fl_minRTT f" "fl_westwood (noteLoss f now u) = fl_westwood f"
  "fl_credit (noteLoss f now u) = fl_credit f" "fl_growth (noteLoss f now u) = fl_growth f"
  "fl_restartTo (noteLoss f now u) = fl_restartTo f" "fl_ssthresh (noteLoss f now u) = fl_ssthresh f"
  by (simp_all add: noteLoss_def)

lemma lossReact_eq:
  "lossReact f now rtt u clock =
     (if fl_minRTT f \<le> 0 then lossCut (noteLoss f now u) u (max 2 (fl_cwnd f div 2)) (fl_cwnd f)
      else if fl_westwood f \<and> \<not> congested f rtt then
        (if bdp f rtt clock \<ge> max 2 (fl_cwnd f - fl_cwnd f div 4) then noteLoss f now u
         else lossCut (noteLoss f now u) u (max 2 (fl_cwnd f - fl_cwnd f div 4)) (fl_max f))
      else lossCut (noteLoss f now u) u (max 2 (fl_cwnd f div 2)) 0)"
proof -
  have "congested (noteLoss f now u) rtt = congested f rtt" "bdp (noteLoss f now u) rtt clock = bdp f rtt clock"
    by (simp_all add: congested_def bdp_def noteLoss_def split: option.split)
  then show ?thesis by (simp add: lossReact_def Let_def max_absorb2)
qed

text \<open>The outcomes of a reported loss: ignored within one RTT of the last one, held, or a cut to
  some target with a restart bound.\<close>

lemma loss_cases:
  assumes "0 \<le> fl_cwnd f"
  obtains (ignored) "loss f now rtt u clock = f"
    | (held) "loss f now rtt u clock = noteLoss f now u"
    | (cut) target restartTo where "loss f now rtt u clock = lossCut (noteLoss f now u) u target restartTo"
        "max 2 (fl_cwnd f div 2) \<le> target" "restartTo \<in> {0, fl_cwnd f, fl_max f}"
proof -
  let ?rtt = "if rtt < 10 * millisecond then 10 * millisecond else rtt"
  let ?lowest = "max 2 (fl_cwnd f - fl_cwnd f div 4)" and ?halved = "max 2 (fl_cwnd f div 2)"
  have low: "?halved \<le> ?lowest" using assms by auto
  show ?thesis
  proof (cases "recentLoss f now ?rtt")
    case True
    then show ?thesis by (intro ignored) (simp add: loss_def Let_def)
  next
    case False
    then have eq: "loss f now rtt u clock = lossReact f now ?rtt u clock"
      unfolding loss_def Let_def by simp
    show ?thesis
    proof (cases "fl_minRTT f \<le> 0")
      case True
      then show ?thesis unfolding eq lossReact_eq by (intro cut [of ?halved "fl_cwnd f"]) (simp_all add: eq lossReact_eq)
    next
      case False
      then show ?thesis
        using held cut [of ?lowest "fl_max f"] cut [of ?halved 0] low unfolding eq lossReact_eq
        by (metis insertI1 insertI2 order_refl)
    qed
  qed
qed

lemma lossCut_inv:
  assumes "flow_inv f" "max 2 (fl_cwnd f div 2) \<le> target" "restartTo \<in> {0, fl_cwnd f, fl_max f}"
  shows "flow_inv (lossCut (noteLoss f now u) u target restartTo)"
proof -
  have "0 \<le> fl_cwnd f" using assms(1) by (auto simp: flow_inv_def)
  then show ?thesis
    using assms by (auto simp: flow_inv_def lossCut_def noteLoss_def Let_def)
qed

lemma flow_loss:
  assumes inv: "flow_inv f"
  shows "flow_inv (loss f now rtt u clock)"
proof -
  have "0 \<le> fl_cwnd f" using inv by (auto simp: flow_inv_def)
  then show ?thesis
  proof (cases rule: loss_cases [of f now rtt u clock])
    case ignored
    then show ?thesis using inv by simp
  next
    case held
    then show ?thesis using inv by (auto simp: flow_inv_def noteLoss_def)
  next
    case (cut target restartTo)
    then show ?thesis using lossCut_inv [OF inv cut(2,3)] by simp
  qed
qed

lemma flow_apply_inv: "flow_inv f \<Longrightarrow> flow_inv (flow_apply op f)"
proof (cases op)
  case (OpCredit no c)
  then show "flow_inv f \<Longrightarrow> flow_inv (flow_apply op f)"
    by (auto simp: flow_inv_def deliveryWindowWide_def)
qed (simp_all add: flow_acknowledged flow_observeRTT flow_loss flow_undoLoss flow_waitBurst)

lemma lossReact_max: "fl_max (lossReact f now rtt u clock) = fl_max f"
  by (simp add: lossReact_eq lossCut_def Let_def)

lemma flow_apply_max: "fl_max (flow_apply op f) = fl_max f"
  by (cases op)
    (simp_all add: acknowledged_def observeRTT_def loss_def lossReact_max undoLoss_def waitBurst_def Let_def)

lemma flow_fold:
  "flow_inv f \<Longrightarrow> flow_inv (fold flow_apply ops f)" "fl_max (fold flow_apply ops f) = fl_max f"
  by (induction ops arbitrary: f) (simp_all add: flow_apply_inv flow_apply_max)

section \<open>Properties\<close>

text \<open>C21. Whatever sequence of acknowledgements, losses, undo attempts, feedback credits and
  pacing waits a session goes through, its congestion window stays between two frames (one,
  if the maximum is one) and its maximum, the maximum respects the negotiated delivery
  window, and the usable window is bounded by both the congestion window and the credit.\<close>

theorem flow_window_bounds:
  "let f = fold flow_apply ops (newSendFlow maximum automatic westwood wide) in
     min 2 (fl_max f) \<le> fl_cwnd f \<and> fl_cwnd f \<le> fl_max f \<and> 1 \<le> fl_max f
     \<and> fl_max f \<le> int (deliveryLimitFor wide) \<and> 0 \<le> fl_window f \<and> fl_window f \<le> fl_cwnd f
     \<and> fl_window f \<le> fl_credit f"
proof -
  let ?f0 = "newSendFlow maximum automatic westwood wide"
  have "flow_inv (fold flow_apply ops ?f0)" by (rule flow_fold(1) [OF flow_new])
  moreover have "fl_max (fold flow_apply ops ?f0) \<le> int (deliveryLimitFor wide)"
    unfolding flow_fold(2) by (simp add: newSendFlow_def Let_def deliveryLimitFor_def)
  ultimately show ?thesis by (auto simp: flow_inv_def fl_window_def Let_def)
qed



text \<open>A timeout proved spurious is undone exactly: after a cut made on a retransmission
  timeout, undoing restores the window, does not leave the slow-start threshold below where
  it was, and cannot be repeated; after a cut that is not undoable there is nothing to undo.\<close>

lemma undoLoss_reverts_last_cut:
  assumes "flow_inv f" "2 \<le> fl_cwnd f" "fl_cwnd (loss f now rtt u clock) < fl_cwnd f"
  shows "case undoLoss (loss f now rtt u clock) of (undone, g) \<Rightarrow>
     undone = u \<and> fst (undoLoss g) = False
     \<and> (u \<longrightarrow> fl_cwnd g = fl_cwnd f \<and> fl_ssthresh f \<le> fl_ssthresh g)"
proof -
  have pos: "0 \<le> fl_cwnd f" using assms(2) by simp
  then show ?thesis
  proof (cases rule: loss_cases [of f now rtt u clock])
    case (cut target restartTo)
    then show ?thesis
      using assms by (auto simp: undoLoss_def lossCut_def noteLoss_def Let_def flow_inv_def)
  qed (use assms in simp_all)
qed

lemma undoLoss_reverts_last_cut_witness:
  "case undoLoss (loss (newSendFlow 0 True True False) 5 7 True 9) of (undone, g) \<Rightarrow>
     undone \<and> fl_cwnd g = 256"
proof -
  have "fl_cwnd (loss (newSendFlow 0 True True False) 5 7 True 9) = 128"
    by (simp add: loss_def recentLoss_def lossReact_def noteLoss_def lossCut_def newSendFlow_def Let_def
        initialCwnd_def deliveryWindow_def)
  with undoLoss_reverts_last_cut [OF flow_new [of 0 True True False], of 5 7 True 9] show ?thesis
    by (auto simp: newSendFlow_def Let_def initialCwnd_def deliveryWindow_def split: prod.splits)
qed

text \<open>Consecutive bursts are spaced: a burst of \<open>n\<close> frames pushes the next burst back by
  the time \<open>n\<close> frames take at one window per RTT (20 ms before any RTT sample), whenever the
  next burst is asked for.\<close>

lemma waitBurst_spacing:
  assumes "0 \<le> n" "waitBurst f n w rtt now = (at1, g)" "waitBurst g m w' rtt' now' = (at2, h)"
  shows "now \<le> at1 \<and> now' \<le> at2
    \<and> at1 + (n * (if rtt \<le> 0 then bootstrapPaceRTT else rtt)) div max w 1 \<le> at2"
proof -
  define r where "r = (if rtt \<le> 0 then bootstrapPaceRTT else rtt)"
  have "0 < r" by (simp add: r_def bootstrapPaceRTT_def)
  then have "trunc_div (n * r) (max w 1) = (n * r) div max w 1"
    using assms(1) by (simp add: trunc_div_nonneg)
  then show ?thesis
    using assms(2,3) unfolding r_def [symmetric]
    by (auto simp: waitBurst_def Let_def r_def [symmetric] split: option.splits if_splits)
qed

lemma waitBurst_spacing_witness:
  "fst (waitBurst (snd (waitBurst (newSendFlow 0 True True False) 64 256 0 1000)) 1 256 0 1000) \<ge> 5001000"
  using waitBurst_spacing [of 64 "newSendFlow 0 True True False" 256 0 1000 _ _ 1 256 0 1000]
  by (fastforce simp: bootstrapPaceRTT_def waitBurst_def newSendFlow_def Let_def trunc_div_def)

end
