(* ===== verification/Retransmit.thy ===== *)
theory Retransmit
  imports SendFlow
begin

text \<open>
  The sender's retransmission machinery (\<^verbatim>\<open>src/tunnel/recovery.go\<close>,
  \<^verbatim>\<open>session_transport.go\<close>, \<^verbatim>\<open>transmit.go\<close> and the \<open>handleAck\<close> of both sessions): the selective
  acknowledgement codec, fast repair from a selective acknowledgement, the timeout scan, and
  the processing of cumulative acknowledgements.

  The map of outstanding packets is an association list with distinct keys.  A handler reads
  the clock once: \<open>now\<close>.
\<close>

section \<open>Definitions\<close>

subsection \<open>Outstanding packets\<close>

record unackedPkt =
  wire :: bytes
  firstSent :: int
  sentTime :: int
  rto :: duration
  sacked :: bool
  queued :: bool
  retries :: nat

type_synonym outstanding = "(uint64 \<times> unackedPkt) list"

definition clientMaxRetries :: nat where "clientMaxRetries = 15"

definition upd_pkt :: "uint64 \<Rightarrow> (unackedPkt \<Rightarrow> unackedPkt) \<Rightarrow> outstanding \<Rightarrow> outstanding" where
  "upd_pkt seq g out = map (\<lambda>(k, p). (k, if k = seq then g p else p)) out"

subsection \<open>Selective acknowledgement payloads\<close>

primrec trimWords :: "nat \<Rightarrow> uint64 list \<Rightarrow> nat" where
  "trimWords 0 ws = 0"
| "trimWords (Suc n) ws = (if ws ! n = 0 then trimWords n ws else Suc n)"

definition encodeSACKWords :: "uint16 \<Rightarrow> uint64 list \<Rightarrow> nat \<Rightarrow> bytes" where
  "encodeSACKWords credit ws maxWords = (let n = trimWords maxWords ws in
     put_be 2 credit @ concat (map (put_be 8) (take n ws)))"

definition encodeSACK :: "uint16 \<Rightarrow> uint64 \<Rightarrow> uint64 list \<Rightarrow> bytes" where
  "encodeSACK credit bitmap extra =
     encodeSACKWords credit (take sackWordsWide ((bitmap # extra) @ replicate sackWordsWide 0)) sackWordsNarrow"

text \<open>The decoding half of \<open>updateSACK\<close>: the words of a payload, zero-extended to the full bitmap.\<close>

definition sackWordCount :: "bytes \<Rightarrow> nat" where
  "sackWordCount payload = (length payload - 2) div 8"

definition sackWord :: "bytes \<Rightarrow> nat \<Rightarrow> uint64" where
  "sackWord payload i = get_be (bslice (2 + i * 8) (2 + i * 8 + 8) payload)"

definition sackDecode :: "bytes \<Rightarrow> uint64 list" where
  "sackDecode payload = map (sackWord payload) [0..<sackWordCount payload]
     @ replicate (sackWordsWide - sackWordCount payload) 0"

definition sackCredit :: "bytes \<Rightarrow> nat" where
  "sackCredit payload = unat (get_be (take 2 payload) :: uint16)"

text \<open>\<open>bits.Len64\<close> and \<open>bits.OnesCount64\<close>\<close>

definition Len64 :: "uint64 \<Rightarrow> nat" where
  "Len64 w = fold (\<lambda>i a. if bit w i then Suc i else a) [0..<64] 0"

definition OnesCount64 :: "uint64 \<Rightarrow> nat" where
  "OnesCount64 w = length (filter (bit w) [0..<64])"

definition sackGaps :: "uint64 list \<Rightarrow> nat" where
  "sackGaps bitmap = sum_list (map OnesCount64 bitmap)"

text \<open>The set bits of the bitmap in ascending order, as the two marking loops visit them.\<close>

definition setBits :: "uint64 list \<Rightarrow> nat list" where
  "setBits ws = filter (winbit ws) [0..<64 * length ws]"

subsection \<open>Fast repair\<close>

definition sackFastRepairMax :: nat where "sackFastRepairMax = 3"

definition sackShapeOk :: "sendFlow \<Rightarrow> UDPCFrame \<Rightarrow> uint64 \<Rightarrow> bool" where
  "sackShapeOk flow f highest \<longleftrightarrow> \<not> (highest = 0 \<or> length (Data f) < 2
     \<or> length (Data f) > sackWordsWidePayload \<or> (length (Data f) - 2) mod 8 \<noteq> 0
     \<or> Ack f > highest \<or> PacketNo f \<le> fl_feedbackNo flow)"

text \<open>No bit may lie beyond the highest sequence number sent.\<close>

definition sackHorizonOk :: "UDPCFrame \<Rightarrow> uint64 \<Rightarrow> bool" where
  "sackHorizonOk f highest \<longleftrightarrow> (\<forall>i < sackWordCount (Data f).
     \<not> (sackWord (Data f) i \<noteq> 0 \<and> unat (highest - Ack f) < i * 64 + Len64 (sackWord (Data f) i)))"

definition markSacked :: "uint64 \<Rightarrow> uint64 list \<Rightarrow> outstanding \<Rightarrow> outstanding" where
  "markSacked ack ws = fold (\<lambda>k. upd_pkt (ack + of_nat k + 1) (\<lambda>p. p\<lparr>sacked := True\<rparr>)) (setBits ws)"

definition repairable :: "duration \<Rightarrow> int \<Rightarrow> unackedPkt \<Rightarrow> bool" where
  "repairable guard now p \<longleftrightarrow> \<not> sacked p \<and> \<not> queued p
     \<and> (let guardFor = (if retries p > 0 then max guard (trunc_div (rto p) 4) else guard) in
        \<not> (now - sentTime p < guardFor \<or> retries p \<ge> clientMaxRetries))"

definition backoff :: "int \<Rightarrow> duration \<Rightarrow> unackedPkt \<Rightarrow> unackedPkt" where
  "backoff now maximumRTO p = p\<lparr>retries := retries p + 1, sentTime := now,
     rto := min (trunc_div (rto p * 3) 2) maximumRTO\<rparr>"

definition sackDue :: "outstanding \<Rightarrow> UDPCFrame \<Rightarrow> uint64 \<Rightarrow> duration \<Rightarrow> int \<Rightarrow> uint64 list" where
  "sackDue out f highest guard now = (let n = sackWordCount (Data f) * 64 in
     take sackFastRepairMax (filter (\<lambda>seq. case map_of out seq of None \<Rightarrow> False | Some p \<Rightarrow> repairable guard now p)
       (takeWhile (\<lambda>seq. seq \<le> Ack f + of_nat n \<and> seq \<le> highest)
          (map (\<lambda>i. Ack f + 1 + of_nat i) [0..<n]))))"

text \<open>The repair stage of \<open>updateSACK\<close>, after the feedback has been applied.\<close>

definition sackRepair ::
  "sendFlow \<Rightarrow> outstanding \<Rightarrow> UDPCFrame \<Rightarrow> uint64 \<Rightarrow> duration \<Rightarrow> int
     \<Rightarrow> (bytes list \<times> bool) \<times> sendFlow option \<times> outstanding" where
  "sackRepair flow out f highest rtt now = (
     if sackGaps (sackDecode (Data f)) < 3 then (([], True), Some flow, out)
     else
       (let guard = max (5 * millisecond) (trunc_div rtt 4);
            due = sackDue out f highest guard now
        in if due = [] then (([], True), Some flow, out)
           else
             (let wires = map (\<lambda>seq. wire (the (map_of out seq))) due;
                  out' = fold (\<lambda>seq. upd_pkt seq (backoff now rttMaxRTO)) due out
              in ((wires, True), Some (flow\<lparr>fl_fastRepairs := fl_fastRepairs flow + int (length wires)\<rparr>), out'))))"

definition updateSACK ::
  "sendFlow option \<Rightarrow> outstanding \<Rightarrow> UDPCFrame \<Rightarrow> uint64 \<Rightarrow> duration \<Rightarrow> int
     \<Rightarrow> (bytes list \<times> bool) \<times> sendFlow option \<times> outstanding" where
  "updateSACK flowp out f highest rtt now = (case flowp of
     None \<Rightarrow> (([], False), None, out)
   | Some flow \<Rightarrow>
       if \<not> sackShapeOk flow f highest then (([], False), flowp, out)
       else if \<not> sackHorizonOk f highest then (([], False), flowp, out)
       else
         (let credit = (if sackCredit (Data f) > deliveryWindowWide then deliveryWindowWide
                        else sackCredit (Data f));
              flow1 = flow\<lparr>fl_feedbackNo := PacketNo f, fl_credit := int credit\<rparr>;
              out1 = markSacked (Ack f) (sackDecode (Data f)) out
          in sackRepair flow1 out1 f highest rtt now))"

subsection \<open>Timeouts\<close>

definition idleRetryDelay :: duration where "idleRetryDelay = 10 * millisecond"
definition retryBurstMax :: nat where "retryBurstMax = 64"

definition creditProbeInterval :: "sendFlow option \<Rightarrow> outstanding \<Rightarrow> duration \<times> bool" where
  "creditProbeInterval flowp out = (case flowp of
     None \<Rightarrow> (0, False)
   | Some flow \<Rightarrow>
       (let anySacked = list_ex (\<lambda>(_, p). sacked p) out;
            gap = list_ex (\<lambda>(_, p). \<not> sacked p \<and> \<not> queued p) out
        in if anySacked \<and> gap then (25 * millisecond, True)
           else (100 * millisecond, fl_credit flow = 0 \<or> anySacked)))"

text \<open>\<open>now.Sub\<close> of the zero time saturates at the largest duration.\<close>

definition sinceOpt :: "int \<Rightarrow> int option \<Rightarrow> duration" where
  "sinceOpt now t = (case t of None \<Rightarrow> 2 ^ 63 - 1 | Some t \<Rightarrow> now - t)"

definition remaining :: "int \<Rightarrow> unackedPkt \<Rightarrow> duration" where
  "remaining now p = rto p - (now - sentTime p)"

definition expired :: "int \<Rightarrow> unackedPkt \<Rightarrow> bool" where
  "expired now p \<longleftrightarrow> \<not> queued p \<and> \<not> sacked p \<and> remaining now p < 0"

text \<open>\<open>retryDue\<close> returns the wires to resend, whether a packet exhausted its retries, the delay
  until the next scan, and whether a probe is due.\<close>

definition retryDue ::
  "outstanding \<Rightarrow> int \<Rightarrow> duration \<Rightarrow> sendFlow option \<Rightarrow> duration
     \<Rightarrow> (bytes list \<times> bool \<times> duration \<times> bool) \<times> sendFlow option \<times> outstanding" where
  "retryDue out now maximumRTO flowp rtt = (
     let waiting = filter (\<lambda>(_, p). \<not> queued p \<and> \<not> sacked p \<and> remaining now p \<ge> 0) out;
         next0 = fold (\<lambda>(_, p) n. if remaining now p < n then remaining now p else n) waiting idleRetryDelay;
         late = filter (\<lambda>(_, p). expired now p) out
     in if list_ex (\<lambda>(_, p). retries p \<ge> clientMaxRetries) late then (([], True, 0, False), flowp, out)
        else
          (let (interval, probe) = creditProbeInterval flowp out;
               next1 = (if probe then (let d = interval - sinceOpt now (case flowp of None \<Rightarrow> None | Some f \<Rightarrow> fl_lastProbe f)
                                       in if d < next0 then d else next0)
                        else next0);
               flow1 = (if probe then map_option (\<lambda>f. f\<lparr>fl_lastProbe := Some now\<rparr>) flowp else flowp);
               due = take retryBurstMax (sort_key fst late);
               next2 = fold (\<lambda>(_, p) n. min (rto (backoff now maximumRTO p)) n) due next1;
               out2 = fold (\<lambda>(seq, _). upd_pkt seq (backoff now maximumRTO)) due out;
               wires = map (\<lambda>(_, p). wire p) due;
               flow2 = (if wires \<noteq> [] then map_option (\<lambda>f. loss f now rtt True now) flow1 else flow1)
           in ((wires, False, max millisecond next2, probe \<and> out2 \<noteq> []), flow2, out2)))"

subsection \<open>Marking transmitted packets\<close>

definition wireSequence :: "bytes \<Rightarrow> uint64" where
  "wireSequence w = get_be (bslice 20 28 w)"

definition wireAck :: "bytes \<Rightarrow> uint64" where
  "wireAck w = get_be (bslice 28 36 w)"

definition markOne :: "int \<Rightarrow> bytes \<Rightarrow> outstanding \<Rightarrow> outstanding" where
  "markOne now w out = (
     if length w < UDPC_HDR_SIZE \<or> w ! 5 \<noteq> CMD_DATA then out
     else upd_pkt (wireSequence w)
       (\<lambda>p. (if queued p then p\<lparr>firstSent := now, queued := False\<rparr> else p)\<lparr>sentTime := now\<rparr>) out)"

definition markTransmitted :: "outstanding \<Rightarrow> bytes list \<Rightarrow> int \<Rightarrow> outstanding" where
  "markTransmitted out wires now = fold (markOne now) wires out"

subsection \<open>Cumulative acknowledgements\<close>

record sendState =
  ss_unacked :: outstanding
  ss_lowest :: uint64
  ss_sendSeq :: uint64
  ss_rtt :: rttEstimator
  ss_flow :: "sendFlow option"

definition undoIfSpurious :: "sendFlow \<Rightarrow> unackedPkt \<Rightarrow> duration \<Rightarrow> int \<Rightarrow> bool \<times> sendFlow" where
  "undoIfSpurious f p srtt now = (
     if retries p = 0 \<or> srtt \<le> 0 then (False, f)
     else if now - sentTime p \<ge> srtt then (False, f)
     else undoLoss f)"

text \<open>The state of the deletion loop: outstanding packets, flow, the \<open>spurious\<close> flag, the count,
  and the observations passed to the FEC sender.\<close>

record ackLoop =
  al_unacked :: outstanding
  al_flow :: "sendFlow option"
  al_spurious :: bool
  al_count :: nat
  al_fec :: "bool list"

definition serverAckOne :: "bool \<Rightarrow> duration \<Rightarrow> int \<Rightarrow> uint64 \<Rightarrow> ackLoop \<Rightarrow> ackLoop" where
  "serverAckOne fec srtt now seq a = (case map_of (al_unacked a) seq of
     None \<Rightarrow> a
   | Some p \<Rightarrow>
       (let a1 = (if fec then a\<lparr>al_fec := al_fec a @ [retries p > 0]\<rparr> else a);
            a2 = (case al_flow a1 of
                    None \<Rightarrow> a1
                  | Some f \<Rightarrow> if al_spurious a1 then a1
                      else (case undoIfSpurious f p srtt now of
                              (s, f') \<Rightarrow> a1\<lparr>al_spurious := s, al_flow := Some f'\<rparr>))
        in a2\<lparr>al_count := al_count a2 + 1, al_unacked := AList.delete seq (al_unacked a2)\<rparr>))"

text \<open>The client's loop body looks the packet up for each of its consumers.\<close>

definition clientAckOne :: "bool \<Rightarrow> duration \<Rightarrow> int \<Rightarrow> uint64 \<Rightarrow> ackLoop \<Rightarrow> ackLoop" where
  "clientAckOne fec srtt now seq a = (
     let a1 = (case map_of (al_unacked a) seq of
                 Some p \<Rightarrow> if fec then a\<lparr>al_fec := al_fec a @ [retries p > 0]\<rparr> else a
               | None \<Rightarrow> a);
         a2 = (case map_of (al_unacked a1) seq of
                 Some p \<Rightarrow> (case al_flow a1 of
                     Some f \<Rightarrow> if \<not> al_spurious a1
                       then (case undoIfSpurious f p srtt now of
                               (s, f') \<Rightarrow> a1\<lparr>al_spurious := s, al_flow := Some f'\<rparr>)
                       else a1
                   | None \<Rightarrow> a1)
               | None \<Rightarrow> a1);
         a3 = (if map_of (al_unacked a2) seq \<noteq> None then a2\<lparr>al_count := al_count a2 + 1\<rparr> else a2)
     in a3\<lparr>al_unacked := AList.delete seq (al_unacked a3)\<rparr>)"

text \<open>The sequence numbers \<open>lo, lo + 1, ..., hi\<close>.\<close>

definition seqs_upto :: "uint64 \<Rightarrow> uint64 \<Rightarrow> uint64 list" where
  "seqs_upto lo hi = map of_nat [unat lo..<Suc (unat hi)]"

definition minKey :: "outstanding \<Rightarrow> uint64" where
  "minKey out = fold (\<lambda>(seq, _) m. if seq < m then seq else m) out (- 1)"

definition handleAckWith ::
  "(bool \<Rightarrow> duration \<Rightarrow> int \<Rightarrow> uint64 \<Rightarrow> ackLoop \<Rightarrow> ackLoop) \<Rightarrow> bool \<Rightarrow> sendState \<Rightarrow> uint64 \<Rightarrow> int
     \<Rightarrow> sendState \<times> bool list" where
  "handleAckWith body fec s ackSeq now = (
     if 0 < ss_sendSeq s \<and> ackSeq \<ge> ss_sendSeq s then (s, [])
     else if ss_unacked s = [] \<or> ackSeq < ss_lowest s then (s, [])
     else
       (let s1 = (case map_of (ss_unacked s) ackSeq of
                    None \<Rightarrow> s
                  | Some p \<Rightarrow> if retries p = 0 \<and> \<not> queued p
                      then s\<lparr>ss_rtt := Sample (ss_rtt s) (now - firstSent p),
                             ss_flow := map_option (\<lambda>f. observeRTT f (now - firstSent p)) (ss_flow s)\<rparr>
                      else s);
            srtt = SRTT (ss_rtt s1);
            a = fold (body fec srtt now) (seqs_upto (ss_lowest s1) ackSeq)
                  \<lparr> al_unacked = ss_unacked s1, al_flow = ss_flow s1, al_spurious = False, al_count = 0, al_fec = [] \<rparr>;
            low = (if al_unacked a = [] then ackSeq + 1
                   else if map_of (al_unacked a) (ackSeq + 1) \<noteq> None then ackSeq + 1
                   else minKey (al_unacked a))
        in (s1\<lparr>ss_unacked := al_unacked a, ss_lowest := low,
               ss_flow := map_option (\<lambda>f. acknowledged f (int (al_count a)) now) (al_flow a)\<rparr>, al_fec a)))"

definition serverHandleAck :: "bool \<Rightarrow> sendState \<Rightarrow> uint64 \<Rightarrow> int \<Rightarrow> sendState \<times> bool list" where
  "serverHandleAck = handleAckWith serverAckOne"

definition clientHandleAck :: "bool \<Rightarrow> sendState \<Rightarrow> uint64 \<Rightarrow> int \<Rightarrow> sendState \<times> bool list" where
  "clientHandleAck = handleAckWith clientAckOne"

text \<open>The part of \<open>sendRecord\<close> that files a sealed frame.\<close>

definition fileRecord :: "sendState \<Rightarrow> uint64 \<Rightarrow> bytes \<Rightarrow> bool \<Rightarrow> int \<Rightarrow> sendState" where
  "fileRecord s seq encoded useQueue now = (
     let s1 = (if ss_unacked s = [] then s\<lparr>ss_lowest := seq\<rparr> else s)
     in s1\<lparr>ss_unacked := (seq, \<lparr> wire = encoded, firstSent = now, sentTime = now, rto = RTO (ss_rtt s),
             sacked = False, queued = useQueue, retries = 0 \<rparr>) # AList.delete seq (ss_unacked s)\<rparr>)"

text \<open>Outstanding packets have distinct numbers between the watermark and the next number.\<close>

definition send_inv :: "sendState \<Rightarrow> bool" where
  "send_inv s \<longleftrightarrow> distinct (map fst (ss_unacked s))
     \<and> (\<forall>(k, p) \<in> set (ss_unacked s). ss_lowest s \<le> k \<and> k < ss_sendSeq s)"

text \<open>The relation between the outstanding packets before and after a repair: the same numbers,
  each with the same encoded frame, no selective acknowledgement withdrawn, at most one more
  retry, and never more retries than the budget.\<close>

definition same_frames :: "outstanding \<Rightarrow> outstanding \<Rightarrow> bool" where
  "same_frames out out' \<longleftrightarrow> map fst out' = map fst out
     \<and> (\<forall>k p. map_of out k = Some p \<longrightarrow> (\<exists>p'. map_of out' k = Some p' \<and> wire p' = wire p
          \<and> (sacked p \<longrightarrow> sacked p') \<and> retries p \<le> retries p' \<and> retries p' \<le> max (retries p) clientMaxRetries))"

text \<open>Concrete packets and a concrete sender for the witnesses.\<close>

definition sample_pkt :: "byte \<Rightarrow> unackedPkt" where
  "sample_pkt b = \<lparr> wire = [b], firstSent = 0, sentTime = 0, rto = 200, sacked = False, queued = False,
     retries = 0 \<rparr>"

definition sample_send :: sendState where
  "sample_send = \<lparr> ss_unacked = [(3, sample_pkt 8), (2, sample_pkt 7), (1, sample_pkt 6)], ss_lowest = 1,
     ss_sendSeq = 4, ss_rtt = newDefaultRTTEstimator, ss_flow = None \<rparr>"

section \<open>Lemmas\<close>

subsection \<open>Updating outstanding packets\<close>

lemma keys_upd_pkt [simp]: "map fst (upd_pkt seq g out) = map fst out"
  by (simp add: upd_pkt_def comp_def case_prod_beta')

lemma map_of_upd_pkt:
  "map_of (upd_pkt seq g out) k = (if k = seq then map_option g (map_of out k) else map_of out k)"
  by (induction out) (auto simp: upd_pkt_def)

lemma keys_fold_upd [simp]: "map fst (fold (\<lambda>x. upd_pkt (h x) g) xs out) = map fst out"
  by (induction xs arbitrary: out) simp_all

lemma map_of_fold_upd:
  assumes "distinct (map h xs)"
  shows "map_of (fold (\<lambda>x. upd_pkt (h x) g) xs out) k =
    (if k \<in> h ` set xs then map_option g (map_of out k) else map_of out k)"
  using assms by (induction xs arbitrary: out) (auto simp: map_of_upd_pkt)

lemma map_of_fold_upd_idem:
  assumes "\<And>p. g (g p) = g p"
  shows "map_of (fold (\<lambda>x. upd_pkt (h x) g) xs out) k =
    (if k \<in> h ` set xs then map_option g (map_of out k) else map_of out k)"
  using assms
  by (induction xs arbitrary: out) (auto simp: map_of_upd_pkt option.map_comp comp_def)

lemma set_setBits: "set (setBits ws) = {k. winbit ws k}"
  by (auto simp: setBits_def dest: winbit_bound)

lemma map_of_markSacked:
  "map_of (markSacked ack ws out) seq = map_option
     (\<lambda>p. if \<exists>k. winbit ws k \<and> seq = ack + of_nat k + 1 then p\<lparr>sacked := True\<rparr> else p) (map_of out seq)"
proof -
  have "seq \<in> (\<lambda>k. ack + of_nat k + 1) ` set (setBits ws) \<longleftrightarrow> (\<exists>k. winbit ws k \<and> seq = ack + of_nat k + 1)"
    by (auto simp: set_setBits)
  then show ?thesis
    unfolding markSacked_def by (cases "map_of out seq") (auto simp: map_of_fold_upd_idem)
qed

lemma keys_markSacked [simp]: "map fst (markSacked ack ws out) = map fst out"
  by (simp add: markSacked_def)

subsection \<open>The selective acknowledgement codec\<close>

lemma trimWords_le: "trimWords n ws \<le> n"
  by (induction n) auto

lemma trimWords_zero: "trimWords n ws \<le> i \<Longrightarrow> i < n \<Longrightarrow> ws ! i = 0"
  by (induction n) (auto simp: less_Suc_eq split: if_splits)

lemma length_words: "length (concat (map (put_be 8) ws)) = 8 * length ws"
  by (induction ws) simp_all

lemma bslice_words:
  "i < length ws \<Longrightarrow> bslice (8 * i) (8 * i + 8) (concat (map (put_be 8) ws)) = put_be 8 (ws ! i)"
proof (induction ws arbitrary: i)
  case (Cons w ws)
  then show ?case
    by (cases i) (simp_all add: bslice_append_left bslice_append_right add.commute [of 8])
qed simp

lemma sack_payload:
  assumes len: "length ws = 64" and m: "m \<le> 64" and zero: "\<And>i. m \<le> i \<Longrightarrow> i < 64 \<Longrightarrow> ws ! i = 0"
  shows "length (encodeSACKWords credit ws m) = 2 + 8 * trimWords m ws"
    and "sackWordCount (encodeSACKWords credit ws m) = trimWords m ws"
    and "sackDecode (encodeSACKWords credit ws m) = ws"
    and "sackCredit (encodeSACKWords credit ws m) = unat credit"
proof -
  define n where "n = trimWords m ws"
  have n: "n \<le> m" "n \<le> 64" using trimWords_le [of m ws] m by (auto simp: n_def)
  have tail: "ws ! i = 0" if "n \<le> i" "i < 64" for i
    using that zero trimWords_zero [of m ws i] by (cases "i < m") (auto simp: n_def)
  have enc: "encodeSACKWords credit ws m = put_be 2 credit @ concat (map (put_be 8) (take n ws))"
    by (simp add: encodeSACKWords_def n_def Let_def)
  show lenp: "length (encodeSACKWords credit ws m) = 2 + 8 * trimWords m ws"
    using n len by (simp add: enc length_words n_def [symmetric])
  then show count: "sackWordCount (encodeSACKWords credit ws m) = trimWords m ws"
    by (simp add: sackWordCount_def)
  have word: "sackWord (encodeSACKWords credit ws m) i = ws ! i" if "i < n" for i
  proof -
    have "bslice (2 + i * 8) (2 + i * 8 + 8) (encodeSACKWords credit ws m)
        = bslice (8 * i) (8 * i + 8) (concat (map (put_be 8) (take n ws)))"
      by (simp add: enc bslice_append_right mult.commute add.commute [of 8])
    then show ?thesis
      using that n len by (simp add: sackWord_def bslice_words)
  qed
  have "map (sackWord (encodeSACKWords credit ws m)) [0..<n] = take n ws"
    using word n len by (intro nth_equalityI) auto
  moreover have "replicate (64 - n) 0 = drop n ws"
    using tail len n by (intro nth_equalityI) auto
  ultimately show "sackDecode (encodeSACKWords credit ws m) = ws"
    unfolding sackDecode_def count n_def [symmetric] sackWordsWide_def by simp
  show "sackCredit (encodeSACKWords credit ws m) = unat credit"
    by (simp add: sackCredit_def enc)
qed

interpretation sack_wide: wire_codec "\<lambda>(credit, ws). encodeSACKWords credit ws sackWordsWide"
  "\<lambda>payload. Some (get_be (take 2 payload), sackDecode payload)" "\<lambda>(credit, ws). length ws = sackWordsWide"
proof
  fix x :: "uint16 \<times> uint64 list"
  assume "case x of (credit, ws) \<Rightarrow> length ws = sackWordsWide"
  then show "Some (get_be (take 2 (case x of (credit, ws) \<Rightarrow> encodeSACKWords credit ws sackWordsWide)),
      sackDecode (case x of (credit, ws) \<Rightarrow> encodeSACKWords credit ws sackWordsWide)) = Some x"
    using sack_payload(3) [of "snd x" 64 "fst x"]
    by (cases x) (simp add: sackWordsWide_def encodeSACKWords_def Let_def)
qed

subsection \<open>Bit counting\<close>

lemma Len64_fold:
  fixes w :: uint64
  defines "r \<equiv> \<lambda>n. fold (\<lambda>i a. if bit w i then Suc i else a) [0..<n] 0"
  shows "(0 < r n \<longrightarrow> bit w (r n - 1)) \<and> (\<forall>i < n. bit w i \<longrightarrow> i < r n) \<and> r n \<le> n"
  by (induction n) (auto simp: r_def less_Suc_eq)

lemma Len64_bit: "w \<noteq> 0 \<Longrightarrow> 0 < Len64 w \<and> bit w (Len64 w - 1) \<and> Len64 w \<le> 64"
proof -
  assume "w \<noteq> 0"
  have "\<exists>i < 64. bit w i"
  proof (rule ccontr)
    assume "\<not> (\<exists>i < 64. bit w i)"
    then have "w = 0" by (intro bit_word_eqI) simp
    with \<open>w \<noteq> 0\<close> show False ..
  qed
  then obtain i where i: "bit w i" "i < 64" by blast
  show ?thesis using Len64_fold [where w = w and n = 64] i by (auto simp: Len64_def)
qed

subsection \<open>Fast repair\<close>

lemma map_of_keys_cong: "map fst out' = map fst out \<Longrightarrow> (map_of out' k = None) = (map_of out k = None)"
  by (metis list.set_map map_of_eq_None_iff)

lemma sackRepair_cases:
  assumes "sackRepair flow out f highest rtt now = ((wires, valid), flowp', out')"
  obtains flow' due where "valid" "flowp' = Some flow'" "fl_credit flow' = fl_credit flow"
    "fl_feedbackNo flow' = fl_feedbackNo flow" "fl_cwnd flow' = fl_cwnd flow"
    "due = [] \<or> due = sackDue out f highest (max (5 * millisecond) (trunc_div rtt 4)) now"
    "wires = map (\<lambda>seq. wire (the (map_of out seq))) due"
    "out' = fold (\<lambda>seq. upd_pkt seq (backoff now rttMaxRTO)) due out"
proof -
  let ?due = "sackDue out f highest (max (5 * millisecond) (trunc_div rtt 4)) now"
  show ?thesis
  proof (cases "sackGaps (sackDecode (Data f)) < 3 \<or> ?due = []")
    case True
    then have "sackRepair flow out f highest rtt now = (([], True), Some flow, out)"
      unfolding sackRepair_def Let_def by (cases "sackGaps (sackDecode (Data f)) < 3") simp_all
    then show ?thesis
      using assms that [of flow "[]"] by simp
  next
    case False
    then have "sackRepair flow out f highest rtt now = ((map (\<lambda>seq. wire (the (map_of out seq))) ?due, True),
        Some (flow\<lparr>fl_fastRepairs := fl_fastRepairs flow + int (length ?due)\<rparr>),
        fold (\<lambda>seq. upd_pkt seq (backoff now rttMaxRTO)) ?due out)"
      unfolding sackRepair_def Let_def by simp
    then show ?thesis
      using assms that [of "flow\<lparr>fl_fastRepairs := fl_fastRepairs flow + int (length ?due)\<rparr>" ?due] by simp
  qed
qed

lemma updateSACK_Some:
  "updateSACK (Some flow) out f highest rtt now = (
     if sackShapeOk flow f highest \<and> sackHorizonOk f highest
     then sackRepair (flow\<lparr>fl_feedbackNo := PacketNo f, fl_credit := int (min (sackCredit (Data f)) deliveryWindowWide)\<rparr>)
       (markSacked (Ack f) (sackDecode (Data f)) out) f highest rtt now
     else (([], False), Some flow, out))"
proof -
  have "(if sackCredit (Data f) > deliveryWindowWide then deliveryWindowWide else sackCredit (Data f))
      = min (sackCredit (Data f)) deliveryWindowWide" by simp
  then show ?thesis by (simp only: updateSACK_def option.case Let_def) simp
qed

text \<open>The frames chosen for repair: at most three, distinct, and each an outstanding packet that is
  neither acknowledged nor still queued and has retries left.\<close>

lemma unat_of_nat_uint64: "i < 4096 \<Longrightarrow> unat (of_nat i :: uint64) = i"
  by (simp add: unat_of_nat take_bit_eq_mod)

lemma distinct_seqs: "n \<le> 4096 \<Longrightarrow> distinct (map (\<lambda>i. ack + 1 + of_nat i :: uint64) [0..<n])"
  using unat_of_nat_uint64 by (auto simp: distinct_map inj_on_def) (metis less_le_trans)

lemma sackDue_spec:
  assumes "sackWordCount (Data f) \<le> 64" "due = sackDue out f highest guard now"
  shows "length due \<le> 3" "distinct due"
    "seq \<in> set due \<Longrightarrow> \<exists>p. map_of out seq = Some p \<and> repairable guard now p"
proof -
  show "length due \<le> 3" by (simp add: assms(2) sackDue_def Let_def sackFastRepairMax_def)
  show "distinct due"
    unfolding assms(2) sackDue_def Let_def
    using distinct_seqs [of "sackWordCount (Data f) * 64" "Ack f"] assms(1)
    by (intro distinct_take distinct_filter distinct_takeWhile) simp
  show "\<exists>p. map_of out seq = Some p \<and> repairable guard now p" if "seq \<in> set due"
    using that unfolding assms(2) sackDue_def Let_def
    by (auto dest!: in_set_takeD split: option.splits)
qed

subsection \<open>The timeout scan\<close>

text \<open>The first \<open>n\<close> elements of a strictly sorted list are those with fewer than \<open>n\<close> below them.\<close>

lemma take_strict_sorted:
  assumes "sorted_wrt (<) xs"
  shows "(x :: 'a :: linorder) \<in> set (take n xs) \<longleftrightarrow> x \<in> set xs \<and> card {y \<in> set xs. y < x} < n"
proof -
  have less: "xs ! i < xs ! j \<longleftrightarrow> i < j" if "i < length xs" "j < length xs" for i j
    using assms that by (metis sorted_wrt_nth_less linorder_neqE_nat order_less_asym order_less_irrefl)
  have inj: "inj_on ((!) xs) {..<length xs}"
    using less by (intro inj_onI) (metis lessThan_iff linorder_neqE_nat order_less_irrefl)
  have below: "card {y \<in> set xs. y < xs ! i} = i" if i: "i < length xs" for i
  proof -
    have "{y \<in> set xs. y < xs ! i} \<subseteq> (!) xs ` {..<i}"
      using i less by (auto simp: in_set_conv_nth)
    moreover have "(!) xs ` {..<i} \<subseteq> {y \<in> set xs. y < xs ! i}"
      using i less by auto
    ultimately have "{y \<in> set xs. y < xs ! i} = (!) xs ` {..<i}" by blast
    moreover have "inj_on ((!) xs) {..<i}" using inj i by (auto intro: inj_on_subset)
    ultimately show ?thesis by (simp add: card_image)
  qed
  show ?thesis
  proof
    assume "x \<in> set (take n xs)"
    then obtain i where "i < n" "i < length xs" "x = xs ! i" by (auto simp: in_set_conv_nth)
    then show "x \<in> set xs \<and> card {y \<in> set xs. y < x} < n" using below by simp
  next
    assume x: "x \<in> set xs \<and> card {y \<in> set xs. y < x} < n"
    then obtain i where "i < length xs" "x = xs ! i" by (auto simp: in_set_conv_nth)
    then show "x \<in> set (take n xs)" using x below by (auto simp: in_set_conv_nth)
  qed
qed

abbreviation late_packets :: "int \<Rightarrow> outstanding \<Rightarrow> outstanding" where
  "late_packets now out \<equiv> filter (\<lambda>(_, p). expired now p) out"

abbreviation due_packets :: "int \<Rightarrow> outstanding \<Rightarrow> outstanding" where
  "due_packets now out \<equiv> take retryBurstMax (sort_key fst (late_packets now out))"

lemma retryDue_shape:
  assumes "retryDue out now maximumRTO flowp rtt = ((wires, exhausted, delay, probe), flow', out')"
  shows "exhausted \<longleftrightarrow> (\<exists>(k, p) \<in> set out. expired now p \<and> clientMaxRetries \<le> retries p)"
    and "exhausted \<Longrightarrow> wires = [] \<and> out' = out \<and> flow' = flowp"
    and "\<not> exhausted \<Longrightarrow> millisecond \<le> delay"
    and "\<not> exhausted \<Longrightarrow> wires = map (\<lambda>(_, p). wire p) (due_packets now out)"
    and "\<not> exhausted \<Longrightarrow> out' = fold (\<lambda>x. upd_pkt (fst x) (backoff now maximumRTO)) (due_packets now out) out"
proof -
  let ?bad = "list_ex (\<lambda>(_, p). retries p \<ge> clientMaxRetries) (late_packets now out)"
  have bad: "?bad \<longleftrightarrow> (\<exists>(k, p) \<in> set out. expired now p \<and> clientMaxRetries \<le> retries p)"
    by (auto simp: list_ex_iff)
  have ex: "exhausted \<longleftrightarrow> ?bad"
    using assms unfolding retryDue_def Let_def by (auto simp: split_beta split: if_splits)
  with bad show "exhausted \<longleftrightarrow> (\<exists>(k, p) \<in> set out. expired now p \<and> clientMaxRetries \<le> retries p)" by simp
  show "exhausted \<Longrightarrow> wires = [] \<and> out' = out \<and> flow' = flowp"
    using assms ex unfolding retryDue_def Let_def by simp
  have split: "(\<lambda>(seq, _). upd_pkt seq (backoff now maximumRTO)) = (\<lambda>x. upd_pkt (fst x) (backoff now maximumRTO))"
    by auto
  show "\<not> exhausted \<Longrightarrow> millisecond \<le> delay"
    "\<not> exhausted \<Longrightarrow> wires = map (\<lambda>(_, p). wire p) (due_packets now out)"
    "\<not> exhausted \<Longrightarrow> out' = fold (\<lambda>x. upd_pkt (fst x) (backoff now maximumRTO)) (due_packets now out) out"
    using assms ex unfolding retryDue_def Let_def split by (auto simp: split_beta)
qed

lemma due_packets_keys:
  assumes "distinct (map fst out)"
  shows "distinct (map fst (due_packets now out))"
    and "k \<in> fst ` set (due_packets now out) \<longleftrightarrow>
      (\<exists>p. map_of out k = Some p \<and> expired now p)
      \<and> card {j. j < k \<and> (\<exists>q. map_of out j = Some q \<and> expired now q)} < retryBurstMax"
proof -
  let ?s = "sort_key fst (late_packets now out)"
  have late: "distinct (map fst (late_packets now out))"
    using assms by (simp add: distinct_map_filter)
  have srt: "sorted_wrt (<) (map fst ?s)"
  proof -
    have "distinct (map fst ?s)"
      using late by (metis distinct_map distinct_sort set_sort)
    then show ?thesis using strict_sorted_iff sorted_sort_key by blast
  qed
  have mem: "j \<in> set (map fst ?s) \<longleftrightarrow> (\<exists>q. map_of out j = Some q \<and> expired now q)" for j
    using map_of_eq_Some_iff [OF assms] by force
  have "map fst (due_packets now out) = take retryBurstMax (map fst ?s)" by (simp add: take_map)
  then show "distinct (map fst (due_packets now out))"
    using srt strict_sorted_iff by (metis distinct_take)
  have "k \<in> fst ` set (due_packets now out) \<longleftrightarrow> k \<in> set (take retryBurstMax (map fst ?s))"
    by (simp add: take_map)
  also have "\<dots> \<longleftrightarrow> k \<in> set (map fst ?s) \<and> card {j \<in> set (map fst ?s). j < k} < retryBurstMax"
    by (rule take_strict_sorted [OF srt])
  also have "{j \<in> set (map fst ?s). j < k} = {j. j < k \<and> (\<exists>q. map_of out j = Some q \<and> expired now q)}"
    using mem by blast
  finally show "k \<in> fst ` set (due_packets now out) \<longleftrightarrow>
      (\<exists>p. map_of out k = Some p \<and> expired now p)
      \<and> card {j. j < k \<and> (\<exists>q. map_of out j = Some q \<and> expired now q)} < retryBurstMax"
    unfolding mem .
qed

subsection \<open>Cumulative acknowledgements\<close>

lemma clientAckOne_eq: "clientAckOne = serverAckOne"
proof (intro ext)
  fix fec srtt now seq and a :: ackLoop
  show "clientAckOne fec srtt now seq a = serverAckOne fec srtt now seq a"
    by (cases "map_of (al_unacked a) seq"; cases "al_flow a")
      (simp_all add: clientAckOne_def serverAckOne_def Let_def split_beta delete_absent)
qed

lemma serverAckOne_unacked:
  "al_unacked (serverAckOne fec srtt now seq a) = AList.delete seq (al_unacked a)"
  by (cases "map_of (al_unacked a) seq")
    (simp_all add: serverAckOne_def Let_def delete_absent split_beta split: option.split)

lemma fold_ack_unacked:
  "al_unacked (fold (serverAckOne fec srtt now) seqs a) = filter (\<lambda>(k, _). k \<notin> set seqs) (al_unacked a)"
  by (induction seqs arbitrary: a)
    (auto simp: serverAckOne_unacked AList.delete_eq intro!: filter_cong)

lemma set_seqs_upto: "set (seqs_upto lo hi) = {k. lo \<le> k \<and> k \<le> hi}"
proof (intro set_eqI iffI)
  fix k
  assume "k \<in> set (seqs_upto lo hi)"
  then obtain n where n: "k = of_nat n" "unat lo \<le> n" "n \<le> unat hi" by (auto simp: seqs_upto_def)
  have "unat hi < 2 ^ LENGTH(64)" by (rule unsigned_less)
  then have "unat k = n" using n by (simp add: unat_of_nat take_bit_eq_mod)
  then show "k \<in> {k. lo \<le> k \<and> k \<le> hi}" using n by (simp add: word_le_nat_alt)
next
  fix k
  assume "k \<in> {k. lo \<le> k \<and> k \<le> hi}"
  then have "unat k \<in> {unat lo..<Suc (unat hi)}" by (simp add: word_le_nat_alt)
  then show "k \<in> set (seqs_upto lo hi)"
    unfolding seqs_upto_def set_map set_upt by (intro image_eqI [of _ _ "unat k"]) simp_all
qed

abbreviation min_fold :: "outstanding \<Rightarrow> uint64 \<Rightarrow> uint64" where
  "min_fold \<equiv> fold (\<lambda>(seq, _) m. if seq < m then seq else m)"

lemma minKey_fold:
  "min_fold out m \<le> m \<and> (\<forall>k \<in> fst ` set out. min_fold out m \<le> k)
     \<and> (min_fold out m = m \<or> min_fold out m \<in> fst ` set out)"
proof (induction out arbitrary: m)
  case (Cons x out)
  obtain seq p where x: "x = (seq, p)" by (cases x)
  show ?case
    using Cons [of seq] Cons [of m] by (cases "seq < m") (auto simp: x)
qed simp

lemma minKey_spec:
  "k \<in> fst ` set out \<Longrightarrow> minKey out \<le> k"
  "out \<noteq> [] \<Longrightarrow> minKey out \<in> fst ` set out"
proof -
  show "k \<in> fst ` set out \<Longrightarrow> minKey out \<le> k"
    unfolding minKey_def using minKey_fold by blast
  show "minKey out \<in> fst ` set out" if ne: "out \<noteq> []"
  proof -
    obtain k where k: "k \<in> fst ` set out" using ne by (cases out) auto
    have "minKey out = - 1 \<or> minKey out \<in> fst ` set out" and "minKey out \<le> k"
      unfolding minKey_def using minKey_fold [of out "- 1"] k by blast+
    moreover have "k = - 1" if "minKey out = - 1"
      using \<open>minKey out \<le> k\<close> that by (simp add: word_order.extremum_unique)
    ultimately show ?thesis using k by metis
  qed
qed

lemma handleAck_guards:
  assumes "send_inv s" "ss_unacked s = [] \<or> ackSeq < ss_lowest s"
  shows "filter (\<lambda>(k, _). ackSeq < k) (ss_unacked s) = ss_unacked s"
  using assms by (force simp: send_inv_def filter_id_conv)

lemma fold_ack_filter:
  assumes "send_inv s"
  shows "filter (\<lambda>(k, _). k \<notin> set (seqs_upto (ss_lowest s) ackSeq)) (ss_unacked s)
    = filter (\<lambda>(k, _). ackSeq < k) (ss_unacked s)"
  using assms by (intro filter_cong) (auto simp: send_inv_def set_seqs_upto)

lemma handleAck_main:
  assumes inv: "send_inv s" and run: "\<not> (0 < ss_sendSeq s \<and> ackSeq \<ge> ss_sendSeq s)"
    "\<not> (ss_unacked s = [] \<or> ackSeq < ss_lowest s)"
  shows "ss_unacked (fst (serverHandleAck fec s ackSeq now)) = filter (\<lambda>(k, _). ackSeq < k) (ss_unacked s)"
    and "ss_sendSeq (fst (serverHandleAck fec s ackSeq now)) = ss_sendSeq s"
    and "ss_lowest (fst (serverHandleAck fec s ackSeq now)) =
      (let out = filter (\<lambda>(k, _). ackSeq < k) (ss_unacked s) in
       if out = [] then ackSeq + 1 else if map_of out (ackSeq + 1) \<noteq> None then ackSeq + 1 else minKey out)"
  using run unfolding serverHandleAck_def handleAckWith_def
  by (auto simp: Let_def fold_ack_unacked fold_ack_filter [OF inv] split: option.split)

lemma handleAck_watermark:
  assumes inv: "send_inv s" and run: "\<not> (0 < ss_sendSeq s \<and> ackSeq \<ge> ss_sendSeq s)"
    "\<not> (ss_unacked s = [] \<or> ackSeq < ss_lowest s)" and k: "(k, p) \<in> set (ss_unacked s)" "ackSeq < k"
  shows "ss_lowest (fst (serverHandleAck fec s ackSeq now)) \<le> k"
    "ss_lowest (fst (serverHandleAck fec s ackSeq now)) \<in> {j \<in> fst ` set (ss_unacked s). ackSeq < j}"
proof -
  let ?out = "filter (\<lambda>(k, _). ackSeq < k) (ss_unacked s)"
  have mem: "k \<in> fst ` set ?out" using k by force
  then have ne: "?out \<noteq> []" by (metis empty_iff image_empty list.set(1))
  have keys: "fst ` set ?out = {j \<in> fst ` set (ss_unacked s). ackSeq < j}" by force
  have succ: "ackSeq + 1 \<le> k" using k(2) unat_Suc_of_less [OF k(2)] by (simp add: word_le_nat_alt word_less_nat_alt)
  have some: "ackSeq + 1 \<in> fst ` set ?out" if "map_of ?out (ackSeq + 1) \<noteq> None"
    using that by (metis map_of_eq_None_iff)
  show "ss_lowest (fst (serverHandleAck fec s ackSeq now)) \<le> k"
    unfolding handleAck_main(3) [OF inv run] Let_def using ne succ minKey_spec(1) [OF mem] by simp
  show "ss_lowest (fst (serverHandleAck fec s ackSeq now)) \<in> {j \<in> fst ` set (ss_unacked s). ackSeq < j}"
    unfolding handleAck_main(3) [OF inv run] Let_def keys [symmetric]
    using ne some minKey_spec(2) [OF ne] by simp
qed

subsection \<open>Repairs keep the frames\<close>

lemma same_frames_refl: "same_frames out out"
  by (simp add: same_frames_def)

lemma same_frames_mark: "same_frames out (markSacked ack ws out)"
  by (auto simp: same_frames_def map_of_markSacked)

lemma same_frames_backoff:
  assumes "distinct xs" "\<And>k p. k \<in> set xs \<Longrightarrow> map_of out k = Some p \<Longrightarrow> retries p < clientMaxRetries"
  shows "same_frames out (fold (\<lambda>k. upd_pkt k (backoff now m)) xs out)"
proof -
  have "map_of (fold (\<lambda>k. upd_pkt k (backoff now m)) xs out) k =
      (if k \<in> set xs then map_option (backoff now m) (map_of out k) else map_of out k)" for k
    using map_of_fold_upd [of "\<lambda>k. k" xs] assms(1) by simp
  then show ?thesis
    using assms(2) keys_fold_upd [of "\<lambda>k. k"]
    by (fastforce simp: same_frames_def backoff_def)
qed

lemma same_frames_trans:
  assumes "same_frames a b" "same_frames b c"
  shows "same_frames a c"
  unfolding same_frames_def
proof (intro conjI allI impI)
  show "map fst c = map fst a" using assms by (simp add: same_frames_def)
  fix k p
  assume "map_of a k = Some p"
  then obtain p' where p': "map_of b k = Some p'" "wire p' = wire p" "sacked p \<longrightarrow> sacked p'"
    "retries p \<le> retries p'" "retries p' \<le> max (retries p) clientMaxRetries"
    using assms(1) unfolding same_frames_def by blast
  then obtain p'' where p'': "map_of c k = Some p''" "wire p'' = wire p'" "sacked p' \<longrightarrow> sacked p''"
    "retries p' \<le> retries p''" "retries p'' \<le> max (retries p') clientMaxRetries"
    using assms(2) unfolding same_frames_def by blast
  then show "\<exists>p'. map_of c k = Some p' \<and> wire p' = wire p \<and> (sacked p \<longrightarrow> sacked p')
      \<and> retries p \<le> retries p' \<and> retries p' \<le> max (retries p) clientMaxRetries"
    using p' by (intro exI [of _ p'']) auto
qed

section \<open>Properties\<close>

text \<open>C18. Processing a cumulative acknowledgement removes exactly the packets up to it (nothing,
  when it acknowledges numbers never sent), keeps every other packet as it was, and leaves the
  watermark at the smallest outstanding number whenever it removed something and packets
  remain.  Client and server process acknowledgements identically.\<close>

theorem handleAck_exact:
  assumes "send_inv s"
  shows "clientHandleAck fec s ackSeq now = serverHandleAck fec s ackSeq now
    \<and> (let s' = fst (serverHandleAck fec s ackSeq now); out = filter (\<lambda>(k, _). ackSeq < k) (ss_unacked s) in
        send_inv s'
        \<and> ss_unacked s' = (if 0 < ss_sendSeq s \<and> ackSeq \<ge> ss_sendSeq s then ss_unacked s else out)
        \<and> (ss_unacked s' \<noteq> ss_unacked s \<and> ss_unacked s' \<noteq> []
             \<longrightarrow> ss_lowest s' = Min (fst ` set (ss_unacked s'))))"
proof -
  let ?s' = "fst (serverHandleAck fec s ackSeq now)" and ?out = "filter (\<lambda>(k, _). ackSeq < k) (ss_unacked s)"
  have eq: "clientHandleAck = serverHandleAck"
    by (simp add: clientHandleAck_def serverHandleAck_def clientAckOne_eq)
  show ?thesis
  proof (cases "(0 < ss_sendSeq s \<and> ackSeq \<ge> ss_sendSeq s) \<or> ss_unacked s = [] \<or> ackSeq < ss_lowest s")
    case True
    then have "?s' = s" by (auto simp: serverHandleAck_def handleAckWith_def)
    then show ?thesis using True assms eq handleAck_guards [OF assms, of ackSeq] by (auto simp: Let_def)
  next
    case False
    then have run: "\<not> (0 < ss_sendSeq s \<and> ackSeq \<ge> ss_sendSeq s)" "\<not> (ss_unacked s = [] \<or> ackSeq < ss_lowest s)"
      by auto
    note main = handleAck_main [OF assms run, of fec now] and water = handleAck_watermark [OF assms run]
    have inv': "send_inv ?s'"
      unfolding send_inv_def main(1,2)
      using assms water(1) by (auto simp: send_inv_def distinct_map_filter)
    have "ss_lowest ?s' = Min (fst ` set ?out)" if ne: "?out \<noteq> []"
    proof -
      obtain k p where kp: "(k, p) \<in> set (ss_unacked s)" "ackSeq < k"
        using ne by (auto simp: filter_empty_conv)
      have "fst ` set ?out = {j \<in> fst ` set (ss_unacked s). ackSeq < j}" by force
      then show ?thesis
        using water(2) [OF kp, of fec now] water(1) by (intro Min_eqI [symmetric]) auto
    qed
    then show ?thesis using run inv' eq main(1) by (auto simp: Let_def)
  qed
qed

theorem handleAck_exact_witness:
  "map fst (ss_unacked (fst (serverHandleAck False sample_send 1 90))) = [3, 2]"
proof -
  have "send_inv sample_send"
    by (simp add: send_inv_def sample_send_def sample_pkt_def)
  moreover have "\<not> (4 :: uint64) \<le> 1" by (simp add: word_le_nat_alt)
  ultimately show ?thesis
    using handleAck_exact [of sample_send False 1 90] by (simp add: Let_def sample_send_def)
qed



text \<open>C20. Retransmission is byte-identical and bounded: neither a selective acknowledgement nor a
  timeout scan drops an outstanding packet, changes its encoded frame, withdraws a selective
  acknowledgement, or charges a packet more retries than the budget.\<close>

theorem repairs_keep_frames:
  assumes "distinct (map fst out)"
  shows "same_frames out (snd (snd (updateSACK flowp out f highest rtt now)))
    \<and> same_frames out (snd (snd (retryDue out now maximumRTO flowp rtt)))"
proof
  show "same_frames out (snd (snd (retryDue out now maximumRTO flowp rtt)))"
  proof -
    obtain wires exhausted delay probe flow' out' where
      r: "retryDue out now maximumRTO flowp rtt = ((wires, exhausted, delay, probe), flow', out')"
      by (metis prod_cases6 prod.collapse)
    note shape = retryDue_shape [OF r]
    have "retries p < clientMaxRetries"
      if "\<not> exhausted" "k \<in> set (map fst (due_packets now out))" "map_of out k = Some p" for k p
      using that due_packets_keys(2) [OF assms, of k now] shape(1) map_of_SomeD by (fastforce simp: not_le)
    then show ?thesis
      using shape(2,5) same_frames_refl
        same_frames_backoff [of "map fst (due_packets now out)" out now maximumRTO] due_packets_keys(1) [OF assms]
      by (cases exhausted) (auto simp: r fold_map comp_def)
  qed
  show "same_frames out (snd (snd (updateSACK flowp out f highest rtt now)))"
  proof (cases flowp)
    case (Some flow)
    show ?thesis
    proof (cases "sackShapeOk flow f highest \<and> sackHorizonOk f highest")
      case True
      let ?out1 = "markSacked (Ack f) (sackDecode (Data f)) out"
      have cnt: "sackWordCount (Data f) \<le> 64"
        using True by (auto simp: sackShapeOk_def sackWordCount_def size_defs)
      obtain wires valid flowp' out' where
        u: "updateSACK flowp out f highest rtt now = ((wires, valid), flowp', out')" by (metis prod.collapse)
      from u obtain due where due: "due = [] \<or> due = sackDue ?out1 f highest (max (5 * millisecond) (trunc_div rtt 4)) now"
        and out': "out' = fold (\<lambda>seq. upd_pkt seq (backoff now rttMaxRTO)) due ?out1"
        unfolding Some updateSACK_Some if_P [OF True] by (rule sackRepair_cases)
      have "distinct due" using due sackDue_spec(2) [OF cnt] by auto
      moreover have "retries p < clientMaxRetries" if k: "k \<in> set due" "map_of ?out1 k = Some p" for k p
      proof -
        have "due = sackDue ?out1 f highest (max (5 * millisecond) (trunc_div rtt 4)) now" using due k by auto
        from sackDue_spec(3) [OF cnt this k(1)] k(2) show ?thesis by (auto simp: repairable_def Let_def)
      qed
      ultimately have "same_frames ?out1 out'" unfolding out' by (rule same_frames_backoff)
      then show ?thesis using same_frames_trans [OF same_frames_mark] by (simp add: u)
    qed (auto simp: Some updateSACK_Some same_frames_refl)
  qed (simp add: updateSACK_def same_frames_refl)
qed

theorem repairs_keep_frames_witness:
  "same_frames (ss_unacked sample_send) (snd (snd (retryDue (ss_unacked sample_send) 1000 rttMaxRTO None 0)))"
  using repairs_keep_frames [of "ss_unacked sample_send"] by (simp add: sample_send_def)

end
