(* ===== verification/AckCoalesce.thy ===== *)
theory AckCoalesce
  imports Retransmit
begin

text \<open>
  Suppression of standalone acknowledgements (\<^verbatim>\<open>src/tunnel/session_transport.go\<close>, type
  \<open>ackCoalescer\<close>): a cumulative advance is sent, already known to the peer, or remembered and
  sent once the suppression interval has passed.
\<close>

section \<open>Definitions\<close>

record ackCoalescer =
  ac_lastValue :: uint64
  ac_lastAt :: "int option"
  ac_pending :: uint64

definition newAckCoalescer :: ackCoalescer where
  "newAckCoalescer = \<lparr> ac_lastValue = 0, ac_lastAt = None, ac_pending = 0 \<rparr>"

definition commitSent :: "ackCoalescer \<Rightarrow> uint64 \<Rightarrow> ackCoalescer" where
  "commitSent c ackSeq = (
     if ackSeq = 0 then c
     else (let c1 = (if ackSeq > ac_lastValue c then c\<lparr>ac_lastValue := ackSeq\<rparr> else c)
           in if ackSeq \<ge> ac_pending c1 then c1\<lparr>ac_pending := 0\<rparr> else c1))"

definition commitSentBatch :: "ackCoalescer \<Rightarrow> bytes list \<Rightarrow> ackCoalescer" where
  "commitSentBatch c wires = commitSent c
     (fold (\<lambda>w ackSeq. if length w < UDPC_HDR_SIZE then ackSeq
            else if wireAck w > ackSeq then wireAck w else ackSeq) wires 0)"

definition commitLocked :: "ackCoalescer \<Rightarrow> uint64 \<Rightarrow> int \<Rightarrow> ackCoalescer" where
  "commitLocked c ackSeq now =
     (if ackSeq > ac_lastValue c then c\<lparr>ac_lastValue := ackSeq\<rparr> else c)\<lparr>ac_pending := 0, ac_lastAt := Some now\<rparr>"

definition claim :: "ackCoalescer \<Rightarrow> uint64 \<Rightarrow> duration \<Rightarrow> bool \<Rightarrow> int \<Rightarrow> bool \<times> ackCoalescer" where
  "claim c ackSeq iv urgent now = (
     if urgent then (True, commitLocked c ackSeq now)
     else if ackSeq = 0 \<or> ackSeq \<le> ac_lastValue c then (False, c)
     else (let c1 = (if ackSeq > ac_pending c then c\<lparr>ac_pending := ackSeq\<rparr> else c)
           in if sinceOpt now (ac_lastAt c1) < iv then (False, c1)
              else (True, commitLocked c1 ackSeq now)))"

text \<open>\<open>flushDue\<close>: the advance to send (0 for none), the wait until the next one, the new state.\<close>

definition flushDue :: "ackCoalescer \<Rightarrow> duration \<Rightarrow> int \<Rightarrow> uint64 \<times> duration \<times> ackCoalescer" where
  "flushDue c iv now = (
     let due = (ac_pending c \<noteq> 0 \<and> ac_pending c > ac_lastValue c \<and> sinceOpt now (ac_lastAt c) \<ge> iv);
         ackSeq = (if due then ac_pending c else 0);
         c1 = (if due then commitLocked c (ac_pending c) now else c)
     in if ac_pending c1 = 0 \<or> ac_pending c1 \<le> ac_lastValue c1 then (ackSeq, 0, c1)
        else (let w = iv - sinceOpt now (ac_lastAt c1) in (ackSeq, (if w < 0 then 0 else w), c1)))"

section \<open>Lemmas\<close>

lemma commitLocked_fields [simp]:
  "ac_lastValue (commitLocked c a now) = max (ac_lastValue c) a" "ac_pending (commitLocked c a now) = 0"
  "ac_lastAt (commitLocked c a now) = Some now"
  by (auto simp: commitLocked_def max_def)

lemma flush_emits:
  assumes "ac_pending c \<noteq> 0" "ac_pending c > ac_lastValue c" "sinceOpt now (ac_lastAt c) \<ge> iv"
  shows "fst (flushDue c iv now) = ac_pending c" "ac_lastValue (snd (snd (flushDue c iv now))) = ac_pending c"
  using assms by (auto simp: flushDue_def Let_def max_def)

lemma flush_wait:
  assumes "ac_pending c \<noteq> 0" "ac_pending c > ac_lastValue c" "sinceOpt now (ac_lastAt c) < iv"
  shows "flushDue c iv now = (0, iv - sinceOpt now (ac_lastAt c), c)"
  using assms by (auto simp: flushDue_def Let_def not_le)

section \<open>Properties\<close>

text \<open>No cumulative advance is lost to suppression.  A claim for an advance that is at least
  the one remembered is authorised, or already known to the peer, or remembered: then the
  next flush sends exactly it once the interval has passed, and until then reports how long
  is left.  Authorised non-urgent claims are at least the interval apart.\<close>

lemma coalesced_ack_not_lost:
  assumes "ac_pending c \<le> ackSeq" "claim c ackSeq iv urgent now = (ok, c')"
  shows "(ok \<longrightarrow> ackSeq \<le> ac_lastValue c' \<and> (urgent \<or> iv \<le> sinceOpt now (ac_lastAt c)))
    \<and> (\<not> ok \<longrightarrow> ackSeq \<le> ac_lastValue c'
         \<or> ac_pending c' = ackSeq
           \<and> (\<forall>later. if iv \<le> sinceOpt later (ac_lastAt c') then fst (flushDue c' iv later) = ackSeq
                else flushDue c' iv later = (0, iv - sinceOpt later (ac_lastAt c'), c')))"
proof (cases "\<not> urgent \<and> ackSeq \<noteq> 0 \<and> ackSeq > ac_lastValue c \<and> sinceOpt now (ac_lastAt c) < iv")
  case True
  have "(if ackSeq > ac_pending c then c\<lparr>ac_pending := ackSeq\<rparr> else c) = c\<lparr>ac_pending := ackSeq\<rparr>"
    using assms(1) by (cases "ackSeq > ac_pending c") auto
  then have "claim c ackSeq iv urgent now = (False, c\<lparr>ac_pending := ackSeq\<rparr>)"
    unfolding claim_def Let_def using True by auto
  then have c': "c' = c\<lparr>ac_pending := ackSeq\<rparr>" and no: "\<not> ok"
    using assms(2) by auto
  then show ?thesis
    using True flush_emits(1) [of c'] flush_wait [of c'] by (auto simp: not_le)
next
  case False
  then show ?thesis
    using assms(2) by (auto simp: claim_def Let_def not_less split: if_splits)
qed

lemma coalesced_ack_not_lost_witness:
  "fst (flushDue (snd (claim (snd (claim newAckCoalescer 5 10 False 100)) 9 10 False 103)) 10 110) = 9"
proof -
  let ?c = "\<lparr> ac_lastValue = 5, ac_lastAt = Some 100, ac_pending = 0 \<rparr>"
  have c: "snd (claim newAckCoalescer 5 10 False 100) = ?c"
    by (simp add: claim_def newAckCoalescer_def commitLocked_def sinceOpt_def Let_def)
  have cl: "claim ?c 9 10 False 103 = (False, ?c\<lparr>ac_pending := 9\<rparr>)"
    by (simp add: claim_def sinceOpt_def Let_def)
  have "\<not> (9 :: uint64) \<le> 5" by (simp add: word_le_nat_alt)
  then have "fst (flushDue (?c\<lparr>ac_pending := 9\<rparr>) 10 110) = 9"
    using coalesced_ack_not_lost [OF _ cl] by (auto simp: sinceOpt_def dest: spec [of _ 110])
  then show ?thesis by (simp add: c cl)
qed

end
