(* ===== verification/Replay.thy ===== *)
theory Replay
  imports Prelude
begin

text \<open>
  The packet-number replay filter of \<^verbatim>\<open>src/tunnel/server.go\<close>: a sliding window of 4096
  packets kept as 64 words of 64 bits, bit \<open>k\<close> of the bitmap standing for the packet
  number \<open>maxSeq - k\<close>.  The word-level code is shown to implement an abstract filter
  (a maximum and a set of numbers), and to reject exactly the numbers that are zero, were
  offered before, or lie behind the window.
\<close>

section \<open>Definitions\<close>

definition replayWindowPackets :: nat where "replayWindowPackets = 4096"
definition replayWindowWords :: nat where "replayWindowWords = replayWindowPackets div 64"

record ReplayFilter =
  maxSeq :: uint64
  seenMax :: bool
  window :: "uint64 list"

text \<open>The zero value of the struct.\<close>

definition newReplayFilter :: ReplayFilter where
  "newReplayFilter = \<lparr> maxSeq = 0, seenMax = False, window = replicate replayWindowWords 0 \<rparr>"

definition Seen :: "ReplayFilter \<Rightarrow> uint64 \<Rightarrow> bool" where
  "Seen rf seq = (
     if seq = 0 then True
     else if \<not> seenMax rf then False
     else if seq > maxSeq rf then False
     else (let behind = unat (maxSeq rf - seq) in
       if behind \<ge> replayWindowPackets then True
       else (window rf ! (behind div 64)) AND push_bit (behind mod 64) 1 \<noteq> 0))"

text \<open>The inner loop of a slide by \<open>0 < step < 64\<close> bits runs over the words from the highest
  index down, then shifts word 0.\<close>

primrec slideBits :: "nat \<Rightarrow> nat \<Rightarrow> uint64 list \<Rightarrow> uint64 list" where
  "slideBits step 0 ws = ws[0 := push_bit step (ws ! 0)]"
| "slideBits step (Suc i) ws =
     slideBits step i (ws[Suc i := push_bit step (ws ! Suc i) OR drop_bit (64 - step) (ws ! i)])"

definition slideWord :: "uint64 list \<Rightarrow> uint64 list" where
  "slideWord ws = 0 # take (replayWindowWords - 1) ws"

function slideWindow :: "nat \<Rightarrow> uint64 list \<Rightarrow> uint64 list" where
  "slideWindow diff ws = (
     if diff > 0 then
       (let step = (if diff > 64 then 64 else diff);
            ws' = (if step = 64 then slideWord ws else slideBits step (length ws - 1) ws)
        in slideWindow (diff - step) ws')
     else ws)"
  by pat_completeness auto

termination
  by (relation "measure fst") auto

declare slideWindow.simps [simp del]

definition acceptLocked :: "ReplayFilter \<Rightarrow> uint64 \<Rightarrow> bool \<times> ReplayFilter" where
  "acceptLocked rf seq = (
     if seq = 0 then (False, rf)
     else if \<not> seenMax rf then
       (True, rf\<lparr>seenMax := True, maxSeq := seq, window := (window rf)[0 := 1]\<rparr>)
     else if seq > maxSeq rf then
       (let diff = unat (seq - maxSeq rf);
            win = (if diff \<ge> replayWindowPackets then replicate replayWindowWords 0
                   else slideWindow diff (window rf))
        in (True, rf\<lparr>maxSeq := seq, window := win[0 := win ! 0 OR 1]\<rparr>))
     else
       (let behind = unat (maxSeq rf - seq) in
        if behind \<ge> replayWindowPackets then (False, rf)
        else (let wordIdx = behind div 64; bitIdx = behind mod 64; w = window rf ! wordIdx in
          if w AND push_bit bitIdx 1 \<noteq> 0 then (False, rf)
          else (True, rf\<lparr>window := (window rf)[wordIdx := w OR push_bit bitIdx 1]\<rparr>))))"

definition Accept :: "ReplayFilter \<Rightarrow> uint64 \<Rightarrow> bool \<times> ReplayFilter" where
  "Accept rf seq = acceptLocked rf seq"

definition Remove :: "ReplayFilter \<Rightarrow> uint64 \<Rightarrow> ReplayFilter" where
  "Remove rf seq = (
     if seq = 0 then rf
     else if \<not> seenMax rf \<or> seq > maxSeq rf \<or> unat (maxSeq rf - seq) \<ge> replayWindowPackets then rf
     else (let behind = unat (maxSeq rf - seq) in
       rf\<lparr>window := (window rf)[behind div 64 :=
            window rf ! (behind div 64) AND NOT (push_bit (behind mod 64) 1)]\<rparr>))"

definition CheckAndAdd :: "ReplayFilter \<Rightarrow> uint64 \<Rightarrow> bool \<times> ReplayFilter" where
  "CheckAndAdd rf seq = (case acceptLocked rf seq of (ok, rf') \<Rightarrow> (\<not> ok, rf'))"

subsection \<open>The abstract filter\<close>

text \<open>The abstract state is the largest number accepted so far (0 before the first one) and the
  numbers within the window that count as seen.\<close>

record replay_spec =
  spec_top :: nat
  spec_seen :: "nat set"

definition spec_rejects :: "replay_spec \<Rightarrow> nat \<Rightarrow> bool" where
  "spec_rejects s p \<longleftrightarrow> p = 0 \<or> p \<in> spec_seen s \<or> p + replayWindowPackets \<le> spec_top s"

definition spec_accept :: "replay_spec \<Rightarrow> nat \<Rightarrow> bool \<times> replay_spec" where
  "spec_accept s p = (
     if spec_rejects s p then (False, s)
     else (let m = max (spec_top s) p in
       (True, \<lparr> spec_top = m, spec_seen = {q \<in> insert p (spec_seen s). m < q + replayWindowPackets} \<rparr>)))"

definition spec_remove :: "replay_spec \<Rightarrow> nat \<Rightarrow> replay_spec" where
  "spec_remove s p = s\<lparr>spec_seen := spec_seen s - {p}\<rparr>"

definition replay_abs :: "ReplayFilter \<Rightarrow> replay_spec" where
  "replay_abs rf = \<lparr> spec_top = unat (maxSeq rf),
     spec_seen = {q. q \<le> unat (maxSeq rf) \<and> winbit (window rf) (unat (maxSeq rf) - q)} \<rparr>"

text \<open>The representation invariant: the bitmap has its fixed size and marks only packet numbers
  from 1 up, and an unused filter is still the zero value.\<close>

definition replay_inv :: "ReplayFilter \<Rightarrow> bool" where
  "replay_inv rf \<longleftrightarrow> length (window rf) = 64
     \<and> (\<forall>k. winbit (window rf) k \<longrightarrow> k < unat (maxSeq rf))
     \<and> (seenMax rf \<longleftrightarrow> maxSeq rf \<noteq> 0)"

text \<open>What an abstract filter remembers of the numbers offered to it.\<close>

definition remembers :: "replay_spec \<Rightarrow> nat set \<Rightarrow> bool" where
  "remembers s H \<longleftrightarrow> spec_top s = Max (insert 0 H)
     \<and> (\<forall>q. spec_rejects s q \<longleftrightarrow> q = 0 \<or> q \<in> H \<or> q + replayWindowPackets \<le> spec_top s)"

section \<open>Lemmas\<close>

subsection \<open>Sliding the bitmap\<close>

lemma length_slideBits [simp]: "length (slideBits step i ws) = length ws"
  by (induction i arbitrary: ws) simp_all

lemma slideBits_nth:
  "i < length ws \<Longrightarrow> j < length ws \<Longrightarrow> slideBits step i ws ! j =
     (if j > i then ws ! j
      else if j = 0 then push_bit step (ws ! 0)
      else push_bit step (ws ! j) OR drop_bit (64 - step) (ws ! (j - 1)))"
proof (induction i arbitrary: ws)
  case 0
  then show ?case by (simp add: nth_list_update)
next
  case (Suc i)
  consider "j > Suc i" | "j = Suc i" | "j \<le> i" by linarith
  then show ?case using Suc by cases (simp_all add: nth_list_update)
qed

lemma div_mod_shift:
  fixes k step :: nat
  assumes "step < 64"
  shows "step \<le> k mod 64 \<Longrightarrow> (k - step) div 64 = k div 64 \<and> (k - step) mod 64 = k mod 64 - step"
    and "k mod 64 < step \<Longrightarrow> step \<le> k \<Longrightarrow>
      0 < k div 64 \<and> (k - step) div 64 = k div 64 - 1 \<and> (k - step) mod 64 = k mod 64 + 64 - step"
proof -
  define j m where "j = k div 64" and "m = k mod 64"
  have k: "k = 64 * j + m" and m: "m < 64" by (simp_all add: j_def m_def)
  { assume "step \<le> k mod 64"
    then have "step \<le> m" by (simp add: m_def)
    then have "k - step = 64 * j + (m - step)" using k by simp
    then show "(k - step) div 64 = k div 64 \<and> (k - step) mod 64 = k mod 64 - step"
      using m by (simp add: j_def [symmetric] m_def [symmetric]) }
  { assume "k mod 64 < step" "step \<le> k"
    then have ms: "m < step" by (simp add: m_def)
    with \<open>step \<le> k\<close> k have j: "0 < j" by (cases j) simp_all
    then obtain j' where j': "j = Suc j'" by (cases j) auto
    then have "k - step = 64 * j' + (m + 64 - step)" using k ms assms by simp
    moreover have "m + 64 - step < 64" using ms by simp
    ultimately show "0 < k div 64 \<and> (k - step) div 64 = k div 64 - 1
        \<and> (k - step) mod 64 = k mod 64 + 64 - step"
      using j' by (simp add: j_def [symmetric] m_def [symmetric]) }
qed

lemma winbit_slideBits:
  assumes "length ws = 64" "0 < step" "step < 64"
  shows "winbit (slideBits step 63 ws) k \<longleftrightarrow> k < 4096 \<and> step \<le> k \<and> winbit ws (k - step)"
proof (cases "k < 4096")
  case True
  then have j: "k div 64 < 64" by simp
  have nth: "slideBits step 63 ws ! (k div 64) =
      (if k div 64 = 0 then push_bit step (ws ! 0)
       else push_bit step (ws ! (k div 64)) OR drop_bit (64 - step) (ws ! (k div 64 - 1)))"
    using slideBits_nth [of 63 ws "k div 64" step] assms(1) j by auto
  show ?thesis
  proof (cases "step \<le> k mod 64")
    case le: True
    then have "step \<le> k" by (meson mod_less_eq_dividend order_trans)
    then show ?thesis
      using div_mod_shift(1) [OF assms(3) le] True assms le less_imp_diff_less [OF True, of step]
      by (auto simp: winbit_def nth bit_simps dest: bit_imp_le_length)
  next
    case False
    show ?thesis
    proof (cases "step \<le> k")
      case sk: True
      then show ?thesis
        using div_mod_shift(2) [OF assms(3) _ sk] True assms False less_imp_diff_less [OF True, of step]
        by (auto simp: winbit_def nth bit_simps add.commute dest: bit_imp_le_length)
    next
      case nsk: False
      then have k: "k div 64 = 0" using assms(3) by simp
      with nth have "slideBits step 63 ws ! 0 = push_bit step (ws ! 0)" by simp
      with k show ?thesis using nsk by (simp add: winbit_def bit_simps)
    qed
  qed
qed (simp add: winbit_def assms)

lemma winbit_slideWord:
  assumes "length ws = 64"
  shows "winbit (slideWord ws) k \<longleftrightarrow> k < 4096 \<and> 64 \<le> k \<and> winbit ws (k - 64)"
proof (cases "64 \<le> k")
  case True
  then obtain k' where k': "k = 64 + k'" using le_Suc_ex by blast
  then show ?thesis
    using assms by (auto simp: winbit_def slideWord_def replayWindowWords_def replayWindowPackets_def)
next
  case False
  then show ?thesis by (simp add: winbit_def slideWord_def)
qed

lemma length_slideWindow [simp]: "length ws = 64 \<Longrightarrow> length (slideWindow diff ws) = 64"
proof (induction diff ws rule: slideWindow.induct)
  case (1 diff ws)
  then show ?case
    by (subst slideWindow.simps)
      (simp add: Let_def slideWord_def replayWindowWords_def replayWindowPackets_def)
qed

lemma winbit_slideWindow:
  "length ws = 64 \<Longrightarrow> winbit (slideWindow diff ws) k \<longleftrightarrow> k < 4096 \<and> diff \<le> k \<and> winbit ws (k - diff)"
proof (induction diff ws rule: slideWindow.induct)
  case (1 diff ws)
  show ?case
  proof (cases "diff = 0")
    case True
    then show ?thesis using 1 by (subst slideWindow.simps) (auto simp: winbit_def)
  next
    case False
    define step where "step = (if diff > 64 then 64 else diff)"
    define ws' where "ws' = (if step = 64 then slideWord ws else slideBits step (length ws - 1) ws)"
    have step: "0 < step" "step \<le> diff" "step \<le> 64" using False by (auto simp: step_def)
    have len: "length ws' = 64"
      using 1(2) by (simp add: ws'_def slideWord_def replayWindowWords_def replayWindowPackets_def)
    have bit': "winbit ws' k \<longleftrightarrow> k < 4096 \<and> step \<le> k \<and> winbit ws (k - step)" for k
      using winbit_slideWord [OF 1(2), of k] winbit_slideBits [OF 1(2) step(1), of k] step 1(2)
      by (auto simp: ws'_def)
    have "slideWindow diff ws = slideWindow (diff - step) ws'"
      using False by (subst slideWindow.simps) (simp add: Let_def step_def ws'_def)
    also have "winbit \<dots> k \<longleftrightarrow> k < 4096 \<and> diff - step \<le> k \<and> winbit ws' (k - (diff - step))"
      using 1(1) [OF _ step_def ws'_def len] False by simp
    also have "\<dots> \<longleftrightarrow> k < 4096 \<and> diff \<le> k \<and> winbit ws (k - diff)"
      using step by (auto simp: bit')
    finally show ?thesis .
  qed
qed

subsection \<open>Refinement of the abstract filter\<close>

lemma Seen_refines:
  assumes inv: "replay_inv rf"
  shows "Seen rf p \<longleftrightarrow> spec_rejects (replay_abs rf) (unat p)"
proof -
  have len: "length (window rf) = 64" and low: "\<And>k. winbit (window rf) k \<Longrightarrow> k < unat (maxSeq rf)"
    and used: "seenMax rf \<longleftrightarrow> maxSeq rf \<noteq> 0"
    using inv by (auto simp: replay_inv_def)
  show ?thesis
  proof (cases "p = 0 \<or> p > maxSeq rf")
    case True
    then show ?thesis
      using used by (auto simp: Seen_def spec_rejects_def replay_abs_def word_less_nat_alt replayWindowPackets_def)
  next
    case False
    then have p: "unat (maxSeq rf - p) = unat (maxSeq rf) - unat p" "0 < unat p" "unat p \<le> unat (maxSeq rf)"
      by (auto simp: word_le_nat_alt unat_sub_if' unat_gt_0 word_less_nat_alt not_less)
    show ?thesis
    proof (cases "unat (maxSeq rf) - unat p < 4096")
      case True
      then show ?thesis
        using False p used winbit_test_64 [OF len True]
        by (auto simp: Seen_def spec_rejects_def replay_abs_def replayWindowPackets_def Let_def)
    next
      case far: False
      then show ?thesis
        using False p used
        by (auto simp: Seen_def spec_rejects_def replay_abs_def replayWindowPackets_def Let_def)
    qed
  qed
qed

lemma replay_new: "replay_inv newReplayFilter" "replay_abs newReplayFilter = \<lparr>spec_top = 0, spec_seen = {}\<rparr>"
  by (auto simp: replay_inv_def newReplayFilter_def replayWindowWords_def replayWindowPackets_def
      winbit_def replay_abs_def)

lemma accept_first:
  assumes inv: "replay_inv rf" and p: "p \<noteq> 0" and unused: "\<not> seenMax rf"
  defines "rf' \<equiv> rf\<lparr>seenMax := True, maxSeq := p, window := (window rf)[0 := 1]\<rparr>"
  shows "replay_inv rf'" "spec_accept (replay_abs rf) (unat p) = (True, replay_abs rf')"
proof -
  have len: "length (window rf) = 64" and zero: "maxSeq rf = 0" and none: "\<And>k. \<not> winbit (window rf) k"
    using inv unused by (auto simp: replay_inv_def)
  have "\<not> bit (window rf ! 0) n" if "n < 64" for n
    using none [of n] that len by (simp add: winbit_def)
  then have "window rf ! 0 = 0"
    by (intro bit_word_eqI) simp
  then have bits: "winbit ((window rf)[0 := 1]) k \<longleftrightarrow> k = 0" for k
    using winbit_set_64 [OF len, of 0 k] none by simp
  have "0 < unat p" using p by (simp add: unat_gt_0)
  then show "replay_inv rf'" "spec_accept (replay_abs rf) (unat p) = (True, replay_abs rf')"
    using p none len zero
    by (auto simp: rf'_def replay_inv_def bits replay_abs_def spec_accept_def spec_rejects_def
        replayWindowPackets_def Let_def)
qed

lemma accept_ahead:
  assumes inv: "replay_inv rf" and used: "seenMax rf" and ahead: "p > maxSeq rf"
  defines "win \<equiv> (if unat (p - maxSeq rf) \<ge> replayWindowPackets then replicate replayWindowWords 0
      else slideWindow (unat (p - maxSeq rf)) (window rf))"
  defines "rf' \<equiv> rf\<lparr>maxSeq := p, window := win[0 := win ! 0 OR 1]\<rparr>"
  shows "replay_inv rf'" "spec_accept (replay_abs rf) (unat p) = (True, replay_abs rf')"
proof -
  define m d where "m = unat (maxSeq rf)" and "d = unat p - m"
  have len: "length (window rf) = 64" and low: "\<And>k. winbit (window rf) k \<Longrightarrow> k < m"
    using inv by (auto simp: replay_inv_def m_def)
  have p: "unat p = m + d" "0 < d" "unat (p - maxSeq rf) = d"
    using ahead by (auto simp: d_def m_def word_less_nat_alt unat_sub_if')
  have win: "length win = 64" "winbit win k \<longleftrightarrow> k < 4096 \<and> d \<le> k \<and> winbit (window rf) (k - d)" for k
    using len winbit_slideWindow [OF len, of d k]
    by (auto simp: win_def p(3) replayWindowPackets_def replayWindowWords_def winbit_def)
  have bits: "winbit (win[0 := win ! 0 OR 1]) k \<longleftrightarrow> k = 0 \<or> k < 4096 \<and> d \<le> k \<and> winbit (window rf) (k - d)" for k
    using winbit_set_64 [OF win(1), of 0 k] by (simp add: win(2))
  show "replay_inv rf'"
    using win(1) p used low by (fastforce simp: rf'_def replay_inv_def bits)
  have "{q. q \<le> m + d \<and> winbit (win[0 := win ! 0 OR 1]) (m + d - q)}
      = {q \<in> insert (m + d) {q. q \<le> m \<and> winbit (window rf) (m - q)}. m + d < q + 4096}"
    using p(2) by (auto simp: bits)
  then show "spec_accept (replay_abs rf) (unat p) = (True, replay_abs rf')"
    using p by (simp add: spec_accept_def spec_rejects_def replay_abs_def rf'_def m_def [symmetric]
        replayWindowPackets_def Let_def)
qed

lemma accept_behind:
  assumes inv: "replay_inv rf" and p0: "p \<noteq> 0" and le: "p \<le> maxSeq rf"
    and near: "unat (maxSeq rf - p) < 4096"
  defines "k \<equiv> unat (maxSeq rf - p)"
  defines "rf' \<equiv> rf\<lparr>window := (window rf)[k div 64 := window rf ! (k div 64) OR push_bit (k mod 64) 1]\<rparr>"
  assumes clear: "\<not> winbit (window rf) k"
  shows "replay_inv rf'" "spec_accept (replay_abs rf) (unat p) = (True, replay_abs rf')"
proof -
  define m where "m = unat (maxSeq rf)"
  have len: "length (window rf) = 64" and low: "\<And>k. winbit (window rf) k \<Longrightarrow> k < m"
    using inv by (auto simp: replay_inv_def m_def)
  have p: "0 < unat p" "unat p \<le> m" "k = m - unat p" "k < 4096"
    using p0 le near by (auto simp: k_def m_def word_le_nat_alt unat_sub_if' unat_gt_0)
  have bits: "winbit (window rf') i \<longleftrightarrow> i = k \<or> winbit (window rf) i" for i
    using winbit_set_64 [OF len p(4), of i] by (simp add: rf'_def)
  have "length (window rf') = 64" "maxSeq rf' = maxSeq rf" "seenMax rf' = seenMax rf"
    using len by (simp_all add: rf'_def)
  with inv p show "replay_inv rf'"
    by (auto simp: replay_inv_def bits m_def)
  have "{q. q \<le> m \<and> winbit (window rf') (m - q)}
      = {q \<in> insert (unat p) {q. q \<le> m \<and> winbit (window rf) (m - q)}. m < q + 4096}"
    using p winbit_bound_64 [OF len] by (fastforce simp: bits)
  then show "spec_accept (replay_abs rf) (unat p) = (True, replay_abs rf')"
    using p clear \<open>maxSeq rf' = maxSeq rf\<close>
    by (simp add: spec_accept_def spec_rejects_def replay_abs_def m_def [symmetric]
        replayWindowPackets_def Let_def max_absorb1)
qed

lemma acceptLocked_refines:
  assumes inv: "replay_inv rf"
  shows "replay_inv (snd (acceptLocked rf p))"
    and "spec_accept (replay_abs rf) (unat p) = (fst (acceptLocked rf p), replay_abs (snd (acceptLocked rf p)))"
proof -
  have len: "length (window rf) = 64" using inv by (simp add: replay_inv_def)
  consider (rej) "Seen rf p" | (first) "p \<noteq> 0" "\<not> seenMax rf" | (ahead) "seenMax rf" "p > maxSeq rf"
    | (behind) "p \<noteq> 0" "seenMax rf" "p \<le> maxSeq rf" "unat (maxSeq rf - p) < 4096"
        "\<not> winbit (window rf) (unat (maxSeq rf - p))"
    using winbit_test_64 [OF len, of "unat (maxSeq rf - p)"]
    by (fastforce simp: Seen_def replayWindowPackets_def Let_def split: if_splits)
  then have "replay_inv (snd (acceptLocked rf p))
    \<and> spec_accept (replay_abs rf) (unat p) = (fst (acceptLocked rf p), replay_abs (snd (acceptLocked rf p)))"
  proof cases
    case rej
    then have "acceptLocked rf p = (False, rf)"
      by (auto simp: Seen_def acceptLocked_def Let_def split: if_splits)
    then show ?thesis using inv rej by (simp add: spec_accept_def Seen_refines)
  next
    case first
    then show ?thesis using accept_first [OF inv first] by (simp add: acceptLocked_def)
  next
    case ahead
    then have "p \<noteq> 0" by auto
    then show ?thesis using accept_ahead [OF inv ahead] ahead by (simp add: acceptLocked_def Let_def)
  next
    case behind
    then show ?thesis
      using accept_behind [OF inv behind(1,3,4,5)] winbit_test_64 [OF len behind(4)]
      by (auto simp: acceptLocked_def Let_def replayWindowPackets_def not_less)
  qed
  then show "replay_inv (snd (acceptLocked rf p))"
    "spec_accept (replay_abs rf) (unat p) = (fst (acceptLocked rf p), replay_abs (snd (acceptLocked rf p)))"
    by auto
qed

lemma Remove_refines:
  assumes inv: "replay_inv rf"
  shows "replay_inv (Remove rf p)" "replay_abs (Remove rf p) = spec_remove (replay_abs rf) (unat p)"
proof -
  define m where "m = unat (maxSeq rf)"
  have len: "length (window rf) = 64" and low: "\<And>k. winbit (window rf) k \<Longrightarrow> k < m"
    and used: "seenMax rf \<longleftrightarrow> maxSeq rf \<noteq> 0"
    using inv by (auto simp: replay_inv_def m_def)
  show "replay_inv (Remove rf p)" "replay_abs (Remove rf p) = spec_remove (replay_abs rf) (unat p)"
  proof (atomize (full), cases "p \<noteq> 0 \<and> p \<le> maxSeq rf \<and> unat (maxSeq rf - p) < 4096")
    case True
    define k where "k = unat (maxSeq rf - p)"
    have "maxSeq rf \<noteq> 0" using True by auto
    then have k: "0 < unat p" "unat p \<le> m" "k = m - unat p" "k < 4096" and sm: "seenMax rf"
      using True used by (auto simp: k_def m_def word_le_nat_alt unat_sub_if' unat_gt_0)
    have eq: "Remove rf p = rf\<lparr>window := (window rf)[k div 64 :=
        window rf ! (k div 64) AND NOT (push_bit (k mod 64) 1)]\<rparr>"
      using True sm by (auto simp: Remove_def k_def Let_def replayWindowPackets_def not_less)
    have bits: "winbit (window (Remove rf p)) i \<longleftrightarrow> i \<noteq> k \<and> winbit (window rf) i" for i
      using winbit_clear_64 [OF len k(4), of i] by (simp add: eq)
    have "length (window (Remove rf p)) = 64" "maxSeq (Remove rf p) = maxSeq rf"
      "seenMax (Remove rf p) = seenMax rf"
      using len by (simp_all add: eq)
    with inv k show "replay_inv (Remove rf p) \<and> replay_abs (Remove rf p) = spec_remove (replay_abs rf) (unat p)"
      by (auto simp: replay_inv_def replay_abs_def spec_remove_def bits m_def)
  next
    case False
    then have "Remove rf p = rf"
      by (auto simp: Remove_def replayWindowPackets_def)
    moreover have "\<not> (unat p \<le> m \<and> winbit (window rf) (m - unat p))"
      using False low [of "m - unat p"] winbit_bound_64 [OF len, of "m - unat p"]
      by (auto simp: m_def word_le_nat_alt unat_sub_if')
    ultimately show "replay_inv (Remove rf p) \<and> replay_abs (Remove rf p) = spec_remove (replay_abs rf) (unat p)"
      using inv by (auto simp: replay_abs_def spec_remove_def m_def)
  qed
qed

subsection \<open>Runs of the filter\<close>

lemma Accept_iff: "replay_inv rf \<Longrightarrow> fst (Accept rf p) \<longleftrightarrow> \<not> Seen rf p"
  using acceptLocked_refines(2) [of rf p] Seen_refines [of rf p]
  by (auto simp: Accept_def spec_accept_def Let_def split: if_splits)

lemma spec_accept_marks: "spec_rejects (snd (spec_accept s p)) p"
  by (auto simp: spec_accept_def spec_rejects_def Let_def replayWindowPackets_def)

lemma spec_accept_keeps: "spec_rejects s q \<Longrightarrow> spec_rejects (snd (spec_accept s p)) q"
  by (auto simp: spec_accept_def spec_rejects_def Let_def)

interpretation replay: dedup_filter replay_inv Seen Accept
proof
  fix rf p q
  assume inv: "replay_inv rf"
  then show "fst (Accept rf p) \<longleftrightarrow> \<not> Seen rf p" by (rule Accept_iff)
  show inv': "replay_inv (snd (Accept rf p))"
    using acceptLocked_refines(1) [OF inv] by (simp add: Accept_def)
  have step: "replay_abs (snd (Accept rf p)) = snd (spec_accept (replay_abs rf) (unat p))"
    using acceptLocked_refines(2) [OF inv] by (simp add: Accept_def)
  show "Seen (snd (Accept rf p)) p"
    using spec_accept_marks by (simp add: Seen_refines [OF inv'] step)
  show "Seen (snd (Accept rf p)) q" if "Seen rf q"
    using that spec_accept_keeps by (simp add: Seen_refines [OF inv'] Seen_refines [OF inv] step)
qed

lemma remembers_step:
  assumes rem: "remembers s H" and fin: "finite H"
  shows "remembers (snd (spec_accept s p)) (insert p H)"
proof -
  have Max: "Max (insert 0 (insert p H)) = max p (spec_top s)"
    using rem fin Max_insert [of "insert 0 H" p] by (simp add: remembers_def insert_commute [of 0 p])
  show ?thesis
  proof (cases "spec_rejects s p")
    case True
    then have "p = 0 \<or> p \<in> H \<or> p + replayWindowPackets \<le> spec_top s" using rem by (auto simp: remembers_def)
    then have "p \<le> spec_top s" using rem fin by (auto simp: remembers_def)
    then show ?thesis
      using rem Max True by (auto simp: remembers_def spec_accept_def max_absorb2)
  next
    case False
    define m where "m = max (spec_top s) p"
    define s' where "s' = snd (spec_accept s p)"
    have s': "spec_top s' = m" "spec_rejects s' q \<longleftrightarrow> q = p \<or> spec_rejects s q \<or> q + replayWindowPackets \<le> m" for q
      using False
      by (auto simp: s'_def m_def spec_accept_def spec_rejects_def Let_def replayWindowPackets_def)
    have "spec_rejects s' q \<longleftrightarrow> q = 0 \<or> q \<in> insert p H \<or> q + replayWindowPackets \<le> m" for q
      using rem by (auto simp: s' remembers_def m_def)
    then show ?thesis
      using Max s'(1) unfolding remembers_def s'_def [symmetric] by (simp add: m_def max.commute)
  qed
qed

lemma run_remembers:
  assumes "replay_inv rf" "remembers (replay_abs rf) H" "finite H"
  shows "remembers (replay_abs (snd (filter_run Accept rf ps))) (unat ` set ps \<union> H)"
  using assms
proof (induction ps arbitrary: rf H)
  case (Cons p ps)
  have "replay_abs (snd (Accept rf p)) = snd (spec_accept (replay_abs rf) (unat p))"
    using acceptLocked_refines(2) [OF Cons.prems(1)] by (simp add: Accept_def)
  then have "remembers (replay_abs (snd (Accept rf p))) (insert (unat p) H)"
    using remembers_step [OF Cons.prems(2,3)] by simp
  from Cons.IH [OF replay.accept_inv [OF Cons.prems(1)] this] Cons.prems(3) show ?case
    by (simp add: split_beta)
qed simp

section \<open>Properties\<close>

text \<open>C16. The word-level filter implements the abstract one: from a state with the
  representation invariant, \<open>Accept\<close> answers and moves as the abstract accept does, \<open>Seen\<close>
  answers as the abstract reject predicate, \<open>Remove\<close> forgets exactly the one number, and all
  of them keep the invariant.\<close>

theorem ReplayFilter_refines:
  assumes "replay_inv rf"
  shows "spec_accept (replay_abs rf) (unat p) = (fst (Accept rf p), replay_abs (snd (Accept rf p)))
    \<and> CheckAndAdd rf p = (\<not> fst (Accept rf p), snd (Accept rf p))
    \<and> (Seen rf p \<longleftrightarrow> spec_rejects (replay_abs rf) (unat p))
    \<and> replay_abs (Remove rf p) = spec_remove (replay_abs rf) (unat p)
    \<and> replay_inv (snd (Accept rf p)) \<and> replay_inv (Remove rf p)"
  using acceptLocked_refines [OF assms] Seen_refines [OF assms] Remove_refines [OF assms]
  by (simp add: Accept_def CheckAndAdd_def split_beta)

theorem ReplayFilter_refines_witness:
  "replay_inv (snd (Accept newReplayFilter 70))
   \<and> replay_abs (Remove (snd (Accept newReplayFilter 70)) 70) = \<lparr>spec_top = 70, spec_seen = {}\<rparr>"
proof -
  define rf where "rf = snd (Accept newReplayFilter 70)"
  have first: "spec_accept \<lparr>spec_top = 0, spec_seen = {}\<rparr> 70 = (fst (Accept newReplayFilter 70), replay_abs rf)"
    and inv: "replay_inv rf"
    using ReplayFilter_refines [OF replay_new(1), of 70] by (simp_all add: rf_def replay_new(2))
  have "replay_abs rf = \<lparr>spec_top = 70, spec_seen = {70}\<rparr>"
    using first by (auto simp: spec_accept_def spec_rejects_def Let_def replayWindowPackets_def)
  with ReplayFilter_refines [OF inv, of 70] inv show ?thesis
    by (simp add: rf_def spec_remove_def)
qed

text \<open>C3. No packet number is accepted twice, whatever numbers are offered in whatever
  order, however far they jump ahead.\<close>

theorem Accept_never_twice:
  "distinct (fst (filter_run Accept newReplayFilter ps))"
  by (rule replay.run_distinct [OF replay_new(1)])

text \<open>After any sequence of offered packet numbers the filter rejects exactly zero, the
  numbers offered before, and the numbers at least a full window behind the largest one.\<close>

lemma Seen_exact:
  "Seen (snd (filter_run Accept newReplayFilter ps)) q \<longleftrightarrow>
     q = 0 \<or> q \<in> set ps \<or> unat q + replayWindowPackets \<le> Max (insert 0 (unat ` set ps))"
proof -
  have "remembers (replay_abs newReplayFilter) {}"
    by (auto simp: replay_new(2) remembers_def spec_rejects_def)
  from run_remembers [OF replay_new(1) this, of ps]
  have "remembers (replay_abs (snd (filter_run Accept newReplayFilter ps))) (unat ` set ps)" by simp
  moreover have "unat q \<in> unat ` set ps \<longleftrightarrow> q \<in> set ps"
    by (rule inj_image_mem_iff) (simp add: inj_def word_unat_eq_iff)
  ultimately show ?thesis
    using Seen_refines [OF replay.run_inv [OF replay_new(1)], of ps q]
    by (simp add: remembers_def unat_eq_zero)
qed

end
