(* ===== verification/Framing.thy ===== *)
theory Framing
  imports Prelude
begin

text \<open>
  Length-prefixed messages over a byte stream (\<^verbatim>\<open>src/tunnel/framing.go\<close>): the encoder, and the
  assembler that cuts an arbitrarily chunked stream back into messages.

  The backing array the assembler keeps or drops after a call does not change the bytes it
  holds, so the model has the bytes only.
\<close>

section \<open>Definitions\<close>

definition FrameHeaderSize :: nat where "FrameHeaderSize = 4"
definition MaxFramedMessage :: nat where "MaxFramedMessage = 2 ^ 20"
definition MaxInt :: nat where "MaxInt = 2 ^ 63 - 1"

datatype framing_error =
    ErrMessageTooLarge
  | ErrAssemblerBroken
  | BatchTooLarge
  | SliceBounds \<comment> \<open>the run-time panic of a slice expression\<close>

definition EncodeMessage :: "bytes \<Rightarrow> framing_error + bytes" where
  "EncodeMessage msg = (
     if length msg > MaxFramedMessage then Inl ErrMessageTooLarge
     else Inr (put_be FrameHeaderSize (of_nat (length msg) :: uint32) @ msg))"

text \<open>The two loops of \<open>EncodeMessages\<close>: the size check and the concatenation.\<close>

fun batchTotal :: "nat \<Rightarrow> bytes list \<Rightarrow> framing_error + nat" where
  "batchTotal tot [] = Inr tot"
| "batchTotal tot (m # ms) = (
     if length m > MaxFramedMessage then Inl ErrMessageTooLarge
     else if int (length m) > int MaxInt - int tot - int FrameHeaderSize then Inl BatchTooLarge
     else batchTotal (tot + (FrameHeaderSize + length m)) ms)"

definition framed :: "bytes \<Rightarrow> bytes" where
  "framed m = put_be FrameHeaderSize (of_nat (length m) :: uint32) @ m"

definition EncodeMessages :: "bytes list \<Rightarrow> framing_error + bytes" where
  "EncodeMessages msgs = (case batchTotal 0 msgs of
     Inl e \<Rightarrow> Inl e
   | Inr _ \<Rightarrow> Inr (concat (map framed msgs)))"

record MessageAssembler =
  ma_buf :: bytes
  ma_maxPayload :: uint32
  ma_broken :: bool

definition NewMessageAssembler :: "uint32 \<Rightarrow> MessageAssembler" where
  "NewMessageAssembler maxPayload = \<lparr> ma_buf = [],
     ma_maxPayload = (if maxPayload \<le> 0 then of_nat MaxFramedMessage else maxPayload), ma_broken = False \<rparr>"

text \<open>The loop of \<open>Feed\<close>.  The slice bounds are computed in \<open>uint32\<close>, where the sum of the header
  size and the length may wrap; slicing below the header then panics.\<close>

definition frameLength :: "bytes \<Rightarrow> uint32" where
  "frameLength buf = get_be (take FrameHeaderSize buf)"

function feedLoop :: "uint32 \<Rightarrow> bytes \<Rightarrow> framing_error + bytes list \<times> bytes" where
  "feedLoop maxPayload buf = (
     if length buf < FrameHeaderSize then Inr ([], buf)
     else (let n = frameLength buf in
       if n > maxPayload then Inl ErrMessageTooLarge
       else if length buf < FrameHeaderSize + unat n then Inr ([], buf)
       else (let stop = of_nat FrameHeaderSize + n in
         if unat stop < FrameHeaderSize then Inl SliceBounds
         else (case feedLoop maxPayload (drop (unat stop) buf) of
             Inl e \<Rightarrow> Inl e
           | Inr (msgs, rest) \<Rightarrow> Inr (bslice FrameHeaderSize (unat stop) buf # msgs, rest)))))"
  by pat_completeness auto

termination
  by (relation "measure (\<lambda>(_, buf). length buf)") (auto simp: FrameHeaderSize_def)

declare feedLoop.simps [simp del]

definition Feed :: "MessageAssembler \<Rightarrow> bytes \<Rightarrow> (framing_error + bytes list) \<times> MessageAssembler" where
  "Feed a chunk = (
     if ma_broken a then (Inl ErrAssemblerBroken, a)
     else (let a1 = (if length chunk > 0 then a\<lparr>ma_buf := ma_buf a @ chunk\<rparr> else a) in
       case feedLoop (ma_maxPayload a1) (ma_buf a1) of
         Inl e \<Rightarrow> (Inl e, if e = ErrMessageTooLarge then a1\<lparr>ma_broken := True, ma_buf := []\<rparr> else a1)
       | Inr (msgs, rest) \<Rightarrow> (Inr msgs, a1\<lparr>ma_buf := rest\<rparr>)))"

definition Pending :: "MessageAssembler \<Rightarrow> nat" where
  "Pending a = length (ma_buf a)"

definition Reset :: "MessageAssembler \<Rightarrow> MessageAssembler" where
  "Reset a = a\<lparr>ma_buf := [], ma_broken := False\<rparr>"

text \<open>The client's receive loop: feed every payload, stop at the first error.\<close>

fun feed_all :: "MessageAssembler \<Rightarrow> bytes list \<Rightarrow> (framing_error + bytes list) \<times> MessageAssembler" where
  "feed_all a [] = (Inr [], a)"
| "feed_all a (c # cs) = (case Feed a c of
     (Inl e, a') \<Rightarrow> (Inl e, a')
   | (Inr ms, a') \<Rightarrow> (case feed_all a' cs of
        (Inl e, a'') \<Rightarrow> (Inl e, a'')
      | (Inr ms', a'') \<Rightarrow> (Inr (ms @ ms'), a'')))"

text \<open>A stream tail that is not yet a whole message.\<close>

definition partial_message :: "uint32 \<Rightarrow> bytes \<Rightarrow> bool" where
  "partial_message maxPayload tail \<longleftrightarrow> length tail < FrameHeaderSize
     \<or> frameLength tail \<le> maxPayload \<and> length tail < FrameHeaderSize + unat (frameLength tail)"

text \<open>A stream tail whose length prefix exceeds the limit.\<close>

definition oversized_message :: "uint32 \<Rightarrow> bytes \<Rightarrow> bool" where
  "oversized_message maxPayload tail \<longleftrightarrow> FrameHeaderSize \<le> length tail
     \<and> maxPayload < frameLength tail"

text \<open>A stream that starts with a whole message within the limit.\<close>

definition whole_message :: "uint32 \<Rightarrow> bytes \<Rightarrow> bool" where
  "whole_message maxPayload w \<longleftrightarrow> frameLength w \<le> maxPayload \<and> FrameHeaderSize + unat (frameLength w) \<le> length w"

text \<open>The whole-stream decoder that the codec interface asks for.\<close>

definition assemble :: "bytes \<Rightarrow> bytes list option" where
  "assemble w = (case feedLoop (of_nat MaxFramedMessage) w of
     Inl e \<Rightarrow> None
   | Inr (ms, rest) \<Rightarrow> if rest = [] then Some ms else None)"

section \<open>Lemmas\<close>

lemma framed_length [codec_simps]: "length (framed m) = FrameHeaderSize + length m"
  by (simp add: framed_def)

lemma framed_header: "length m < 2 ^ 32 \<Longrightarrow> unat (frameLength (framed m @ w)) = length m"
  by (simp add: frameLength_def framed_def FrameHeaderSize_def unat_of_nat take_bit_eq_mod)

lemma frameLength_append: "FrameHeaderSize \<le> length w \<Longrightarrow> frameLength (w @ c) = frameLength w"
  by (simp add: frameLength_def)

text \<open>The four outcomes of one turn of the loop.\<close>

lemma feedLoop_partial: "partial_message mx w \<Longrightarrow> feedLoop mx w = Inr ([], w)"
  by (subst feedLoop.simps) (auto simp: partial_message_def Let_def)

lemma feedLoop_oversized: "oversized_message mx w \<Longrightarrow> feedLoop mx w = Inl ErrMessageTooLarge"
  by (subst feedLoop.simps) (auto simp: oversized_message_def Let_def)

lemma stop_unat:
  "unat (of_nat FrameHeaderSize + n :: uint32)
     = (if unat n < 2 ^ 32 - FrameHeaderSize then FrameHeaderSize + unat n else unat n - (2 ^ 32 - FrameHeaderSize))"
  using unsigned_less [of n] by (simp add: unat_plus_if' FrameHeaderSize_def)

lemma feedLoop_whole:
  assumes "whole_message mx w" "unat (frameLength w) < 2 ^ 32 - FrameHeaderSize"
  shows "feedLoop mx w = (case feedLoop mx (drop (FrameHeaderSize + unat (frameLength w)) w) of
      Inl e \<Rightarrow> Inl e
    | Inr (ms, rest) \<Rightarrow> Inr (bslice FrameHeaderSize (FrameHeaderSize + unat (frameLength w)) w # ms, rest))"
proof -
  have "\<not> length w < FrameHeaderSize" "\<not> frameLength w > mx"
      "\<not> length w < FrameHeaderSize + unat (frameLength w)"
    using assms(1) by (auto simp: whole_message_def)
  then show ?thesis
    using assms(2) by (subst feedLoop.simps) (auto simp: Let_def stop_unat split: sum.split)
qed

lemma feedLoop_wrap:
  assumes "whole_message mx w" "\<not> unat (frameLength w) < 2 ^ 32 - FrameHeaderSize"
  shows "feedLoop mx w = Inl SliceBounds"
proof -
  have "\<not> length w < FrameHeaderSize" "\<not> frameLength w > mx"
      "\<not> length w < FrameHeaderSize + unat (frameLength w)"
    using assms(1) by (auto simp: whole_message_def)
  moreover have "unat (frameLength w) - (2 ^ 32 - FrameHeaderSize) < FrameHeaderSize"
    using unsigned_less [of "frameLength w", where 'a = nat] by (simp add: FrameHeaderSize_def)
  ultimately show ?thesis
    using assms(2) by (subst feedLoop.simps) (simp add: Let_def stop_unat)
qed

lemma feedLoop_outcomes:
  obtains (partial) "partial_message mx w" | (oversized) "oversized_message mx w"
  | (wrap) "whole_message mx w" "\<not> unat (frameLength w) < 2 ^ 32 - FrameHeaderSize"
  | (whole) "whole_message mx w" "unat (frameLength w) < 2 ^ 32 - FrameHeaderSize"
  unfolding partial_message_def oversized_message_def whole_message_def by fastforce

lemma message_append:
  shows "oversized_message mx w \<Longrightarrow> oversized_message mx (w @ c)"
    and "whole_message mx w \<Longrightarrow> whole_message mx (w @ c)"
  by (auto simp: oversized_message_def whole_message_def frameLength_append)

lemma feedLoop_induct [case_names partial oversized wrap whole]:
  assumes "\<And>w. partial_message mx w \<Longrightarrow> P w" "\<And>w. oversized_message mx w \<Longrightarrow> P w"
    and "\<And>w. whole_message mx w \<Longrightarrow> \<not> unat (frameLength w) < 2 ^ 32 - FrameHeaderSize \<Longrightarrow> P w"
    and "\<And>w. whole_message mx w \<Longrightarrow> unat (frameLength w) < 2 ^ 32 - FrameHeaderSize \<Longrightarrow>
           P (drop (FrameHeaderSize + unat (frameLength w)) w) \<Longrightarrow> P w"
  shows "P w"
proof (induction w rule: length_induct)
  case (1 w)
  show ?case
  proof (cases rule: feedLoop_outcomes [of mx w])
    case whole
    then have "length (drop (FrameHeaderSize + unat (frameLength w)) w) < length w"
      by (auto simp: whole_message_def FrameHeaderSize_def)
    then show ?thesis using 1 whole assms(4) by blast
  qed (use assms in blast)+
qed

text \<open>Whole messages at the front of the stream.\<close>

lemma feedLoop_framed:
  assumes "length m \<le> unat mx" "length m < 2 ^ 32 - FrameHeaderSize"
  shows "feedLoop mx (framed m @ w) = (case feedLoop mx w of
     Inl e \<Rightarrow> Inl e | Inr (ms, rest) \<Rightarrow> Inr (m # ms, rest))"
proof -
  have n: "unat (frameLength (framed m @ w)) = length m"
    by (rule framed_header) (use assms in \<open>simp add: FrameHeaderSize_def\<close>)
  then have "whole_message mx (framed m @ w)"
    using assms by (simp add: whole_message_def framed_length word_le_nat_alt)
  moreover have cut: "bslice FrameHeaderSize (FrameHeaderSize + length m) (framed m @ w) = m"
    "drop (FrameHeaderSize + length m) (framed m @ w) = w"
    by (simp_all add: framed_def bslice_def)
  ultimately have "feedLoop mx (framed m @ w) =
      (case feedLoop mx (drop (FrameHeaderSize + unat (frameLength (framed m @ w))) (framed m @ w)) of
         Inl e \<Rightarrow> Inl e | Inr (ms, rest) \<Rightarrow>
           Inr (bslice FrameHeaderSize (FrameHeaderSize + unat (frameLength (framed m @ w))) (framed m @ w) # ms, rest))"
    using assms n by (intro feedLoop_whole) simp_all
  then show ?thesis unfolding n cut .
qed

lemma feedLoop_framed_all:
  assumes "\<forall>m \<in> set ms. length m \<le> unat mx \<and> length m < 2 ^ 32 - FrameHeaderSize"
  shows "feedLoop mx (concat (map framed ms) @ w) = (case feedLoop mx w of
     Inl e \<Rightarrow> Inl e | Inr (ms', rest) \<Rightarrow> Inr (ms @ ms', rest))"
  using assms
  by (induction ms) (auto simp: feedLoop_framed split: sum.splits)

text \<open>Splitting the stream anywhere does not change what the loop finds.\<close>

lemma feedLoop_append_error: "feedLoop mx w = Inl e \<Longrightarrow> feedLoop mx (w @ c) = Inl e"
proof (induction w rule: feedLoop_induct [of mx])
  case (oversized w)
  then show ?case by (simp add: feedLoop_oversized message_append)
next
  case (wrap w)
  then show ?case
    by (simp add: feedLoop_wrap message_append frameLength_append whole_message_def)
next
  case (whole w)
  then have "frameLength (w @ c) = frameLength w" by (simp add: whole_message_def frameLength_append)
  with whole show ?case
    by (auto simp: feedLoop_whole [OF message_append(2)] feedLoop_whole whole_message_def split: sum.splits)
qed (simp add: feedLoop_partial)

lemma feedLoop_append:
  "feedLoop mx w = Inr (ms, rest) \<Longrightarrow> feedLoop mx (w @ c) = (case feedLoop mx (rest @ c) of
     Inl e \<Rightarrow> Inl e | Inr (ms', rest') \<Rightarrow> Inr (ms @ ms', rest'))"
proof (induction w arbitrary: ms rule: feedLoop_induct [of mx])
  case (partial w)
  then show ?case by (auto simp: feedLoop_partial split: sum.splits)
next
  case (whole w)
  then have "frameLength (w @ c) = frameLength w" by (simp add: whole_message_def frameLength_append)
  moreover have "bslice FrameHeaderSize (FrameHeaderSize + unat (frameLength w)) (w @ c)
      = bslice FrameHeaderSize (FrameHeaderSize + unat (frameLength w)) w"
    using whole by (intro bslice_append_left) (simp add: whole_message_def)
  ultimately show ?case
    using whole
    by (auto simp: feedLoop_whole [OF message_append(2)] feedLoop_whole whole_message_def split: sum.splits)
qed (simp_all add: feedLoop_oversized feedLoop_wrap)

lemma feedLoop_idle: "feedLoop mx w = Inr (ms, rest) \<Longrightarrow> feedLoop mx rest = Inr ([], rest)"
proof (induction w arbitrary: ms rule: feedLoop_induct [of mx])
  case (whole w)
  then show ?case by (auto simp: feedLoop_whole split: sum.splits)
qed (simp_all add: feedLoop_partial feedLoop_oversized feedLoop_wrap)

text \<open>Feeding a chunk list is one pass of the loop over the concatenation.\<close>

lemma Feed_eq:
  "\<not> ma_broken a \<Longrightarrow> Feed a c = (case feedLoop (ma_maxPayload a) (ma_buf a @ c) of
     Inl e \<Rightarrow> (Inl e, if e = ErrMessageTooLarge then a\<lparr>ma_broken := True, ma_buf := []\<rparr> else a\<lparr>ma_buf := ma_buf a @ c\<rparr>)
   | Inr (msgs, rest) \<Rightarrow> (Inr msgs, a\<lparr>ma_buf := rest\<rparr>))"
  by (cases "c = []") (auto simp: Feed_def Let_def split: sum.splits)

lemma feed_all_Inr:
  assumes "\<not> ma_broken a" "feedLoop (ma_maxPayload a) (ma_buf a) = Inr ([], ma_buf a)"
    and "feedLoop (ma_maxPayload a) (ma_buf a @ concat cs) = Inr (ms, rest)"
  shows "feed_all a cs = (Inr ms, a\<lparr>ma_buf := rest\<rparr>)"
  using assms
proof (induction cs arbitrary: a ms)
  case (Cons c cs)
  obtain ms1 r1 where 1: "feedLoop (ma_maxPayload a) (ma_buf a @ c) = Inr (ms1, r1)"
    using feedLoop_append_error [of "ma_maxPayload a" "ma_buf a @ c" _ "concat cs"] Cons.prems(3)
    by (cases "feedLoop (ma_maxPayload a) (ma_buf a @ c)") auto
  then obtain ms2 where 2: "feedLoop (ma_maxPayload a) (r1 @ concat cs) = Inr (ms2, rest)" "ms = ms1 @ ms2"
    using feedLoop_append [OF 1, of "concat cs"] Cons.prems(3) by (auto split: sum.splits)
  then show ?case
    using Cons.IH [of "a\<lparr>ma_buf := r1\<rparr>" ms2] Cons.prems(1) feedLoop_idle [OF 1] 1
    by (simp add: Feed_eq)
qed simp

lemma feed_all_oversized:
  assumes "\<not> ma_broken a" "feedLoop (ma_maxPayload a) (ma_buf a) = Inr ([], ma_buf a)"
    and "feedLoop (ma_maxPayload a) (ma_buf a @ concat cs) = Inl ErrMessageTooLarge"
  shows "feed_all a cs = (Inl ErrMessageTooLarge, a\<lparr>ma_buf := [], ma_broken := True\<rparr>)"
  using assms
proof (induction cs arbitrary: a)
  case (Cons c cs)
  show ?case
  proof (cases "feedLoop (ma_maxPayload a) (ma_buf a @ c)")
    case (Inl e)
    then show ?thesis
      using feedLoop_append_error [OF Inl, of "concat cs"] Cons.prems by (simp add: Feed_eq)
  next
    case (Inr p)
    then obtain ms1 r1 where 1: "feedLoop (ma_maxPayload a) (ma_buf a @ c) = Inr (ms1, r1)"
      by (cases p) auto
    then have "feedLoop (ma_maxPayload a) (r1 @ concat cs) = Inl ErrMessageTooLarge"
      using feedLoop_append [OF 1, of "concat cs"] Cons.prems(3) by (auto split: sum.splits)
    then show ?thesis
      using Cons.IH [of "a\<lparr>ma_buf := r1\<rparr>"] Cons.prems(1) feedLoop_idle [OF 1] 1
      by (simp add: Feed_eq)
  qed
qed simp

lemma batchTotal_Inr:
  "batchTotal t ms = Inr n \<Longrightarrow> \<forall>m \<in> set ms. length m \<le> MaxFramedMessage"
  by (induction t ms rule: batchTotal.induct) auto

interpretation framing: wire_codec
  "\<lambda>ms. concat (map framed ms)" assemble "\<lambda>ms. EncodeMessages ms = Inr (concat (map framed ms))"
proof
  fix ms assume "EncodeMessages ms = Inr (concat (map framed ms))"
  then have ok: "\<forall>m \<in> set ms. length m \<le> MaxFramedMessage"
    by (auto simp: EncodeMessages_def dest: batchTotal_Inr split: sum.splits)
  have mx: "unat (of_nat MaxFramedMessage :: uint32) = MaxFramedMessage"
    by (simp add: MaxFramedMessage_def)
  show "assemble (concat (map framed ms)) = Some ms"
  proof -
    have "feedLoop (of_nat MaxFramedMessage) (concat (map framed ms) @ []) = Inr (ms, [])"
      using ok feedLoop_partial [of "of_nat MaxFramedMessage" "[]"]
      by (subst feedLoop_framed_all) (auto simp: mx partial_message_def MaxFramedMessage_def FrameHeaderSize_def)
    then show ?thesis by (simp add: assemble_def)
  qed
qed

section \<open>Properties\<close>



end
