(* ===== verification/ChunkPipe.thy ===== *)
theory ChunkPipe
  imports Prelude
begin

text \<open>
  The buffered in-memory connection between a session and the application
  (\<^verbatim>\<open>src/tunnel/chunkpipe.go\<close>): queues of chunks in both directions, deadlines, closing, and
  the wake-up channels of sleeping readers and writers.

  The critical sections of \<open>Read\<close> and \<open>Write\<close> are functions; the loops around them, the sleeping
  and the signalling after the lock has been released are a step relation in which one reader
  and one writer per end, closers and deadline setters interleave.  A channel of capacity one
  is a flag.
\<close>

section \<open>Definitions\<close>

definition chunkPipeBuffer :: nat where "chunkPipeBuffer = 256 * 1024"
definition chunkPipeChunk :: nat where "chunkPipeChunk = 64 * 1024"

record chunkDir =
  cd_chunks :: "bytes list"
  cd_bytes :: int

text \<open>The two directions, and the two ends: \<open>App\<close> reads \<open>Down\<close> and writes \<open>Up\<close>.\<close>

datatype pipe_dir = Down | Up
datatype pipe_side = App | Session

text \<open>A field per direction or per end of the source is a function of the direction or the end.\<close>

record chunkPipe =
  cp_closed :: bool
  cp_dir :: "pipe_dir \<Rightarrow> chunkDir"
  cp_data :: "pipe_dir \<Rightarrow> bool"
  cp_space :: "pipe_dir \<Rightarrow> bool"
  cp_readDeadline :: "pipe_side \<Rightarrow> int option"
  cp_writeDeadline :: "pipe_side \<Rightarrow> int option"

definition newChunkPipe :: chunkPipe where
  "newChunkPipe = \<lparr> cp_closed = False, cp_dir = (\<lambda>_. \<lparr> cd_chunks = [], cd_bytes = 0 \<rparr>),
     cp_data = (\<lambda>_. False), cp_space = (\<lambda>_. False),
     cp_readDeadline = (\<lambda>_. None), cp_writeDeadline = (\<lambda>_. None) \<rparr>"

definition signal :: "chunkPipe \<Rightarrow> chunkPipe" where
  "signal p = p\<lparr>cp_data := (\<lambda>_. True), cp_space := (\<lambda>_. True)\<rparr>"

definition push :: "chunkDir \<Rightarrow> bytes \<Rightarrow> nat \<times> chunkDir" where
  "push q b = (
     let piece = (if length b < chunkPipeChunk then length b else chunkPipeChunk);
         chunk = take piece b
     in (piece, q\<lparr>cd_chunks := cd_chunks q @ [chunk], cd_bytes := cd_bytes q + int (length chunk)\<rparr>))"

text \<open>The loop of \<open>take\<close> with room for \<open>k\<close> more bytes: the bytes copied, the chunks left and the
  running byte count.\<close>

fun takeLoop :: "nat \<Rightarrow> bytes list \<Rightarrow> int \<Rightarrow> bytes \<times> bytes list \<times> int" where
  "takeLoop k [] n = ([], [], n)"
| "takeLoop k (c # cs) n = (
     if k = 0 then ([], c # cs, n)
     else (let copied = min k (length c); n' = n - int copied in
       if copied < length c then (take copied c, drop copied c # cs, n')
       else (case takeLoop (k - copied) cs n' of (out, rest, m) \<Rightarrow> (take copied c @ out, rest, m))))"

definition cd_take :: "chunkDir \<Rightarrow> nat \<Rightarrow> bytes \<times> chunkDir" where
  "cd_take q k = (case takeLoop k (cd_chunks q) (cd_bytes q) of
     (out, rest, m) \<Rightarrow> (out, q\<lparr>cd_chunks := rest, cd_bytes := m\<rparr>))"

definition readDir :: "pipe_side \<Rightarrow> pipe_dir" where
  "readDir e = (case e of App \<Rightarrow> Down | Session \<Rightarrow> Up)"

definition writeDir :: "pipe_side \<Rightarrow> pipe_dir" where
  "writeDir e = (case e of App \<Rightarrow> Up | Session \<Rightarrow> Down)"

definition deadlineExpired :: "int option \<Rightarrow> int \<Rightarrow> bool" where
  "deadlineExpired dl now \<longleftrightarrow> (case dl of None \<Rightarrow> False | Some t \<Rightarrow> \<not> now < t)"

datatype pipe_error = EOF | ErrClosedPipe | ErrDeadlineExceeded

text \<open>One turn of the read loop: data, an error, or going to sleep until the given deadline.\<close>

datatype read_turn = Got bytes | ReadFail pipe_error | ReadSleep "int option"

definition readTurn :: "chunkPipe \<Rightarrow> pipe_side \<Rightarrow> nat \<Rightarrow> int \<Rightarrow> read_turn \<times> chunkPipe" where
  "readTurn p e k now = (case cd_take (cp_dir p (readDir e)) k of (out, q') \<Rightarrow>
     (let p' = p\<lparr>cp_dir := (cp_dir p)(readDir e := q')\<rparr> in
      if length out > 0 then (Got out, p')
      else if cp_closed p' then (ReadFail EOF, p')
      else if deadlineExpired (cp_readDeadline p' e) now then (ReadFail ErrDeadlineExceeded, p')
      else (ReadSleep (cp_readDeadline p' e), p')))"

text \<open>One turn of the write loop on the bytes not yet written.\<close>

datatype write_turn = Pushed nat | WriteFail pipe_error | WriteSleep "int option"

definition writeTurn :: "chunkPipe \<Rightarrow> pipe_side \<Rightarrow> bytes \<Rightarrow> int \<Rightarrow> write_turn \<times> chunkPipe" where
  "writeTurn p e b now = (
     if cp_closed p then (WriteFail ErrClosedPipe, p)
     else if deadlineExpired (cp_writeDeadline p e) now then (WriteFail ErrDeadlineExceeded, p)
     else if cd_bytes (cp_dir p (writeDir e)) < int chunkPipeBuffer then
       (case push (cp_dir p (writeDir e)) b of (k, q') \<Rightarrow>
          (Pushed k, p\<lparr>cp_dir := (cp_dir p)(writeDir e := q')\<rparr>))
     else (WriteSleep (cp_writeDeadline p e), p))"

definition pipeClose :: "chunkPipe \<Rightarrow> chunkPipe" where
  "pipeClose p = p\<lparr>cp_closed := True\<rparr>"

definition SetDeadline :: "chunkPipe \<Rightarrow> pipe_side \<Rightarrow> int option \<Rightarrow> chunkPipe" where
  "SetDeadline p e t = p\<lparr>cp_readDeadline := (cp_readDeadline p)(e := t),
     cp_writeDeadline := (cp_writeDeadline p)(e := t)\<rparr>"

definition SetReadDeadline :: "chunkPipe \<Rightarrow> pipe_side \<Rightarrow> int option \<Rightarrow> chunkPipe" where
  "SetReadDeadline p e t = p\<lparr>cp_readDeadline := (cp_readDeadline p)(e := t)\<rparr>"

definition SetWriteDeadline :: "chunkPipe \<Rightarrow> pipe_side \<Rightarrow> int option \<Rightarrow> chunkPipe" where
  "SetWriteDeadline p e t = p\<lparr>cp_writeDeadline := (cp_writeDeadline p)(e := t)\<rparr>"

subsection \<open>The pipe in use\<close>

text \<open>Where a reader or a writer is: outside a call, about to enter the critical section, or asleep
  on its channel with the deadline it captured.\<close>

datatype read_pc = ReadIdle | ReadTry nat | ReadWait nat "int option"
datatype write_pc = WriteIdle | WriteTry bytes nat | WriteWait bytes nat "int option"

text \<open>\<open>ps_signals\<close> counts the threads between releasing the lock and \<open>signal\<close>; \<open>ps_sent\<close> and
  \<open>ps_received\<close> record the bytes accepted from the writers and returned to the readers.\<close>

record pipe_sys =
  ps_pipe :: chunkPipe
  ps_read :: "pipe_side \<Rightarrow> read_pc"
  ps_write :: "pipe_side \<Rightarrow> write_pc"
  ps_signals :: nat
  ps_clock :: int
  ps_sent :: "pipe_dir \<Rightarrow> bytes"
  ps_received :: "pipe_dir \<Rightarrow> bytes"

definition pipe_init :: "int \<Rightarrow> pipe_sys" where
  "pipe_init t = \<lparr> ps_pipe = newChunkPipe, ps_read = (\<lambda>_. ReadIdle), ps_write = (\<lambda>_. WriteIdle),
     ps_signals = 0, ps_clock = t, ps_sent = (\<lambda>_. []), ps_received = (\<lambda>_. []) \<rparr>"

inductive pipe_step :: "pipe_sys \<Rightarrow> pipe_sys \<Rightarrow> bool" where
  read_call: "\<lbrakk> ps_read s e = ReadIdle; 0 < k \<rbrakk> \<Longrightarrow> pipe_step s (s\<lparr>ps_read := (ps_read s)(e := ReadTry k)\<rparr>)"
| read_data: "\<lbrakk> ps_read s e = ReadTry k; readTurn (ps_pipe s) e k (ps_clock s) = (Got out, p') \<rbrakk> \<Longrightarrow>
    pipe_step s (s\<lparr>ps_pipe := p', ps_read := (ps_read s)(e := ReadIdle), ps_signals := ps_signals s + 1,
      ps_received := (ps_received s)(readDir e := ps_received s (readDir e) @ out)\<rparr>)"
| read_fail: "\<lbrakk> ps_read s e = ReadTry k; readTurn (ps_pipe s) e k (ps_clock s) = (ReadFail err, p') \<rbrakk> \<Longrightarrow>
    pipe_step s (s\<lparr>ps_pipe := p', ps_read := (ps_read s)(e := ReadIdle)\<rparr>)"
| read_sleep: "\<lbrakk> ps_read s e = ReadTry k; readTurn (ps_pipe s) e k (ps_clock s) = (ReadSleep dl, p') \<rbrakk> \<Longrightarrow>
    pipe_step s (s\<lparr>ps_pipe := p', ps_read := (ps_read s)(e := ReadWait k dl)\<rparr>)"
| read_wake: "\<lbrakk> ps_read s e = ReadWait k dl; cp_data (ps_pipe s) (readDir e) \<rbrakk> \<Longrightarrow>
    pipe_step s (s\<lparr>ps_pipe := (ps_pipe s)\<lparr>cp_data := (cp_data (ps_pipe s))(readDir e := False)\<rparr>,
      ps_read := (ps_read s)(e := ReadTry k)\<rparr>)"
| read_timeout: "\<lbrakk> ps_read s e = ReadWait k dl; deadlineExpired dl (ps_clock s) \<rbrakk> \<Longrightarrow>
    pipe_step s (s\<lparr>ps_read := (ps_read s)(e := ReadIdle)\<rparr>)"
| write_call: "ps_write s e = WriteIdle \<Longrightarrow> pipe_step s (s\<lparr>ps_write := (ps_write s)(e := WriteTry b 0)\<rparr>)"
| write_done: "\<lbrakk> ps_write s e = WriteTry b w; \<not> w < length b \<rbrakk> \<Longrightarrow>
    pipe_step s (s\<lparr>ps_write := (ps_write s)(e := WriteIdle)\<rparr>)"
| write_push: "\<lbrakk> ps_write s e = WriteTry b w; w < length b;
      writeTurn (ps_pipe s) e (drop w b) (ps_clock s) = (Pushed k, p') \<rbrakk> \<Longrightarrow>
    pipe_step s (s\<lparr>ps_pipe := p', ps_write := (ps_write s)(e := WriteTry b (w + k)),
      ps_signals := ps_signals s + 1,
      ps_sent := (ps_sent s)(writeDir e := ps_sent s (writeDir e) @ bslice w (w + k) b)\<rparr>)"
| write_fail: "\<lbrakk> ps_write s e = WriteTry b w; w < length b;
      writeTurn (ps_pipe s) e (drop w b) (ps_clock s) = (WriteFail err, p') \<rbrakk> \<Longrightarrow>
    pipe_step s (s\<lparr>ps_pipe := p', ps_write := (ps_write s)(e := WriteIdle)\<rparr>)"
| write_sleep: "\<lbrakk> ps_write s e = WriteTry b w; w < length b;
      writeTurn (ps_pipe s) e (drop w b) (ps_clock s) = (WriteSleep dl, p') \<rbrakk> \<Longrightarrow>
    pipe_step s (s\<lparr>ps_pipe := p', ps_write := (ps_write s)(e := WriteWait b w dl)\<rparr>)"
| write_wake: "\<lbrakk> ps_write s e = WriteWait b w dl; cp_space (ps_pipe s) (writeDir e) \<rbrakk> \<Longrightarrow>
    pipe_step s (s\<lparr>ps_pipe := (ps_pipe s)\<lparr>cp_space := (cp_space (ps_pipe s))(writeDir e := False)\<rparr>,
      ps_write := (ps_write s)(e := WriteTry b w)\<rparr>)"
| write_timeout: "\<lbrakk> ps_write s e = WriteWait b w dl; deadlineExpired dl (ps_clock s) \<rbrakk> \<Longrightarrow>
    pipe_step s (s\<lparr>ps_write := (ps_write s)(e := WriteIdle)\<rparr>)"
| close: "\<not> cp_closed (ps_pipe s) \<Longrightarrow>
    pipe_step s (s\<lparr>ps_pipe := pipeClose (ps_pipe s), ps_signals := ps_signals s + 1\<rparr>)"
| deadline: "p' \<in> {SetDeadline (ps_pipe s) e t, SetReadDeadline (ps_pipe s) e t, SetWriteDeadline (ps_pipe s) e t} \<Longrightarrow>
    pipe_step s (s\<lparr>ps_pipe := p', ps_signals := ps_signals s + 1\<rparr>)"
| signal: "0 < ps_signals s \<Longrightarrow> pipe_step s (s\<lparr>ps_pipe := signal (ps_pipe s), ps_signals := ps_signals s - 1\<rparr>)"
| tick: "0 \<le> d \<Longrightarrow> pipe_step s (s\<lparr>ps_clock := ps_clock s + d\<rparr>)"

text \<open>A queue holds non-empty chunks, counts its bytes, and exceeds its budget by less than a chunk.\<close>

definition dir_inv :: "chunkDir \<Rightarrow> bool" where
  "dir_inv q \<longleftrightarrow> [] \<notin> set (cd_chunks q) \<and> cd_bytes q = int (length (concat (cd_chunks q)))
     \<and> cd_bytes q < int (chunkPipeBuffer + chunkPipeChunk)"

text \<open>A reader that would find something is never left asleep without a wake-up pending, nor is a
  writer that would find room.\<close>

definition reader_awake :: "pipe_sys \<Rightarrow> pipe_side \<Rightarrow> bool" where
  "reader_awake s e \<longleftrightarrow> (\<exists>k dl. ps_read s e = ReadWait k dl)
       \<and> (cd_chunks (cp_dir (ps_pipe s) (readDir e)) \<noteq> [] \<or> cp_closed (ps_pipe s))
     \<longrightarrow> cp_data (ps_pipe s) (readDir e) \<or> 0 < ps_signals s"

definition writer_awake :: "pipe_sys \<Rightarrow> pipe_side \<Rightarrow> bool" where
  "writer_awake s e \<longleftrightarrow> (\<exists>b w dl. ps_write s e = WriteWait b w dl)
       \<and> (cd_bytes (cp_dir (ps_pipe s) (writeDir e)) < int chunkPipeBuffer \<or> cp_closed (ps_pipe s))
     \<longrightarrow> cp_space (ps_pipe s) (writeDir e) \<or> 0 < ps_signals s"

definition pipe_inv :: "pipe_sys \<Rightarrow> bool" where
  "pipe_inv s \<longleftrightarrow> (\<forall>d. dir_inv (cp_dir (ps_pipe s) d)
       \<and> ps_sent s d = ps_received s d @ concat (cd_chunks (cp_dir (ps_pipe s) d)))
     \<and> (\<forall>e k. ps_read s e = ReadTry k \<longrightarrow> 0 < k) \<and> (\<forall>e k dl. ps_read s e = ReadWait k dl \<longrightarrow> 0 < k)"

text \<open>A reader of the session end asleep when the application end has just written a byte.\<close>

definition pipe_sample :: pipe_sys where
  "pipe_sample = (pipe_init 0)\<lparr>
     ps_pipe := newChunkPipe\<lparr>cp_dir := (cp_dir newChunkPipe)(Up := \<lparr> cd_chunks = [[7]], cd_bytes = 1 \<rparr>)\<rparr>,
     ps_read := (\<lambda>_. ReadIdle)(Session := ReadWait 4 None),
     ps_write := (\<lambda>_. WriteIdle)(App := WriteTry [7] 1), ps_signals := 1, ps_sent := (\<lambda>_. [])(Up := [7])\<rparr>"

section \<open>Lemmas\<close>

lemma dir_inj [simp]:
  "readDir e = readDir e' \<longleftrightarrow> e = e'" "writeDir e = writeDir e' \<longleftrightarrow> e = e'"
  by (auto simp: readDir_def writeDir_def split: pipe_side.splits)

lemma takeLoop_spec:
  assumes "takeLoop k cs n = (out, rest, m)" "[] \<notin> set cs"
  shows "out @ concat rest = concat cs \<and> m = n - int (length out) \<and> [] \<notin> set rest
    \<and> (0 < k \<and> cs \<noteq> [] \<longrightarrow> out \<noteq> [])"
  using assms
proof (induction k cs n arbitrary: out rest m rule: takeLoop.induct)
  case (2 k c cs n)
  show ?case
  proof (cases "k = 0 \<or> k < length c")
    case True
    then show ?thesis using "2.prems" by (auto simp: Let_def min_def split: if_splits)
  next
    case False
    then have mn: "min k (length c) = length c" by simp
    then obtain out' where
      o: "takeLoop (k - length c) cs (n - int (length c)) = (out', rest, m)" "out = c @ out'"
      using "2.prems" False by (auto simp: Let_def split: prod.splits)
    have "out' @ concat rest = concat cs \<and> m = n - int (length c) - int (length out') \<and> [] \<notin> set rest
        \<and> (0 < k - length c \<and> cs \<noteq> [] \<longrightarrow> out' \<noteq> [])"
      using "2.IH" [OF _ refl refl] False o "2.prems" by (simp add: mn)
    then show ?thesis using o "2.prems" by auto
  qed
qed simp

lemma cd_take_spec:
  assumes "cd_take q k = (out, q')" "dir_inv q"
  shows "dir_inv q' \<and> out @ concat (cd_chunks q') = concat (cd_chunks q)
    \<and> cd_bytes q' = cd_bytes q - int (length out) \<and> (0 < k \<and> cd_chunks q \<noteq> [] \<longrightarrow> out \<noteq> [])
    \<and> (out = [] \<longrightarrow> cd_bytes q' = cd_bytes q)"
proof -
  obtain rest m where l: "takeLoop k (cd_chunks q) (cd_bytes q) = (out, rest, m)"
      "q' = q\<lparr>cd_chunks := rest, cd_bytes := m\<rparr>"
    using assms(1) by (auto simp: cd_take_def split: prod.splits)
  have s: "out @ concat rest = concat (cd_chunks q)" "m = cd_bytes q - int (length out)" "[] \<notin> set rest"
      "0 < k \<and> cd_chunks q \<noteq> [] \<longrightarrow> out \<noteq> []"
    using takeLoop_spec [OF l(1)] assms(2) by (auto simp: dir_inv_def)
  have "int (length (concat (cd_chunks q))) = int (length out) + int (length (concat rest))"
    using s(1) by (metis length_append of_nat_add)
  then show ?thesis using s l(2) assms(2) by (auto simp: dir_inv_def)
qed

lemma push_spec:
  assumes "push q b = (k, q')" "dir_inv q" "b \<noteq> []" "cd_bytes q < int chunkPipeBuffer"
  shows "dir_inv q' \<and> concat (cd_chunks q') = concat (cd_chunks q) @ take k b \<and> 0 < k \<and> k \<le> length b"
  using assms by (auto simp: push_def Let_def dir_inv_def chunkPipeChunk_def chunkPipeBuffer_def split: if_splits)

text \<open>What a turn of the read loop did, by its outcome.\<close>

lemma readTurn_spec:
  assumes "readTurn p e k now = (r, p')" "dir_inv (cp_dir p (readDir e))" "0 < k"
  obtains (got) out q where "r = Got out" "p' = p\<lparr>cp_dir := (cp_dir p)(readDir e := q)\<rparr>" "dir_inv q"
      "out @ concat (cd_chunks q) = concat (cd_chunks (cp_dir p (readDir e)))"
    | (other) "\<forall>out. r \<noteq> Got out" "p' = p" "cd_chunks (cp_dir p (readDir e)) = []"
      "\<forall>dl. r = ReadSleep dl \<longrightarrow> \<not> cp_closed p"
proof -
  obtain out q where t: "cd_take (cp_dir p (readDir e)) k = (out, q)"
    by (cases "cd_take (cp_dir p (readDir e)) k")
  note s = cd_take_spec [OF t assms(2)]
  show thesis
  proof (cases "out = []")
    case True
    then have "cd_chunks (cp_dir p (readDir e)) = []" using s assms(3) by auto
    then have "q = cp_dir p (readDir e)"
      using t s by (auto simp: cd_take_def)
    then have "p\<lparr>cp_dir := (cp_dir p)(readDir e := q)\<rparr> = p" by simp
    with True \<open>cd_chunks _ = []\<close> show thesis
      using assms(1) t by (intro other) (auto simp: readTurn_def Let_def split: if_splits)
  next
    case False
    then show thesis
      using assms(1) t s by (intro got [of out q]) (auto simp: readTurn_def Let_def)
  qed
qed

lemma writeTurn_spec:
  assumes "writeTurn p e b now = (r, p')" "dir_inv (cp_dir p (writeDir e))" "b \<noteq> []"
  obtains (pushed) k q where "r = Pushed k" "p' = p\<lparr>cp_dir := (cp_dir p)(writeDir e := q)\<rparr>" "dir_inv q"
      "concat (cd_chunks q) = concat (cd_chunks (cp_dir p (writeDir e))) @ take k b" "0 < k" "k \<le> length b"
    | (other) "\<forall>k. r \<noteq> Pushed k" "p' = p"
      "\<forall>dl. r = WriteSleep dl \<longrightarrow> \<not> cp_closed p \<and> \<not> cd_bytes (cp_dir p (writeDir e)) < int chunkPipeBuffer"
proof (cases "\<exists>k. r = Pushed k")
  case True
  then obtain k q where "r = Pushed k" "push (cp_dir p (writeDir e)) b = (k, q)"
      "p' = p\<lparr>cp_dir := (cp_dir p)(writeDir e := q)\<rparr>" "cd_bytes (cp_dir p (writeDir e)) < int chunkPipeBuffer"
    using assms(1) by (auto simp: writeTurn_def split: if_splits prod.splits)
  then show ?thesis using push_spec assms(2,3) by (intro pushed [of k q]) blast+
next
  case False
  then show ?thesis
    using assms(1) by (intro other) (auto simp: writeTurn_def split: if_splits prod.splits)
qed

lemma pipe_inv_init: "pipe_inv (pipe_init t) \<and> reader_awake (pipe_init t) e \<and> writer_awake (pipe_init t) e"
  by (auto simp: pipe_inv_def reader_awake_def writer_awake_def pipe_init_def newChunkPipe_def
      dir_inv_def chunkPipeBuffer_def)

lemma pipe_inv_step: "pipe_step s s' \<Longrightarrow> pipe_inv s \<Longrightarrow> pipe_inv s'"
proof (induction rule: pipe_step.induct)
  case (read_data s e k out p')
  then have d: "dir_inv (cp_dir (ps_pipe s) (readDir e))" "0 < k" by (auto simp: pipe_inv_def)
  with read_data show ?case
    by - (rule readTurn_spec [OF read_data(2) d], simp_all, auto simp: pipe_inv_def)
next
  case (read_fail s e k err p')
  then have d: "dir_inv (cp_dir (ps_pipe s) (readDir e))" "0 < k" by (auto simp: pipe_inv_def)
  with read_fail show ?case
    by - (rule readTurn_spec [OF read_fail(2) d], simp_all, auto simp: pipe_inv_def)
next
  case (read_sleep s e k dl p')
  then have d: "dir_inv (cp_dir (ps_pipe s) (readDir e))" "0 < k" by (auto simp: pipe_inv_def)
  with read_sleep show ?case
    by - (rule readTurn_spec [OF read_sleep(2) d], simp_all, auto simp: pipe_inv_def)
next
  case (write_push s e b w k p')
  then have d: "dir_inv (cp_dir (ps_pipe s) (writeDir e))" "drop w b \<noteq> []" by (auto simp: pipe_inv_def)
  with write_push show ?case
    by - (rule writeTurn_spec [OF write_push(3) d], simp_all, auto simp: pipe_inv_def bslice_def)
next
  case (write_fail s e b w err p')
  then have d: "dir_inv (cp_dir (ps_pipe s) (writeDir e))" "drop w b \<noteq> []" by (auto simp: pipe_inv_def)
  with write_fail show ?case
    by - (rule writeTurn_spec [OF write_fail(3) d], simp_all, auto simp: pipe_inv_def)
next
  case (write_sleep s e b w dl p')
  then have d: "dir_inv (cp_dir (ps_pipe s) (writeDir e))" "drop w b \<noteq> []" by (auto simp: pipe_inv_def)
  with write_sleep show ?case
    by - (rule writeTurn_spec [OF write_sleep(3) d], simp_all, auto simp: pipe_inv_def)
next
  case (read_wake s e k dl)
  then have "0 < k" unfolding pipe_inv_def by blast
  with read_wake show ?case by (simp add: pipe_inv_def)
qed (auto simp: pipe_inv_def pipeClose_def SetDeadline_def SetReadDeadline_def SetWriteDeadline_def signal_def)

lemmas awake_defs = reader_awake_def writer_awake_def

lemma awake_step:
  "pipe_step s s' \<Longrightarrow> pipe_inv s \<Longrightarrow> reader_awake s x \<Longrightarrow> writer_awake s y \<Longrightarrow>
     reader_awake s' x \<and> writer_awake s' y"
proof (induction rule: pipe_step.induct)
  case (read_fail s e k err p')
  then have d: "dir_inv (cp_dir (ps_pipe s) (readDir e))" "0 < k" by (auto simp: pipe_inv_def)
  with read_fail show ?case
    by - (rule readTurn_spec [OF read_fail(2) d], simp_all, auto simp: awake_defs)
next
  case (read_sleep s e k dl p')
  then have d: "dir_inv (cp_dir (ps_pipe s) (readDir e))" "0 < k" by (auto simp: pipe_inv_def)
  with read_sleep show ?case
    by - (rule readTurn_spec [OF read_sleep(2) d], simp_all, auto simp: awake_defs)
next
  case (write_fail s e b w err p')
  then have d: "dir_inv (cp_dir (ps_pipe s) (writeDir e))" "drop w b \<noteq> []" by (auto simp: pipe_inv_def)
  with write_fail show ?case
    by - (rule writeTurn_spec [OF write_fail(3) d], simp_all, auto simp: awake_defs)
next
  case (write_sleep s e b w dl p')
  then have d: "dir_inv (cp_dir (ps_pipe s) (writeDir e))" "drop w b \<noteq> []" by (auto simp: pipe_inv_def)
  with write_sleep show ?case
    by - (rule writeTurn_spec [OF write_sleep(3) d], simp_all, auto simp: awake_defs)
qed (auto simp: awake_defs signal_def)

lemma pipe_reachable:
  "pipe_step\<^sup>*\<^sup>* (pipe_init t) s \<Longrightarrow> pipe_inv s \<and> reader_awake s e \<and> writer_awake s e"
  by (induction rule: rtranclp_induct) (auto simp: pipe_inv_init intro: pipe_inv_step dest: awake_step)

lemma pipe_sample_reachable: "pipe_step\<^sup>*\<^sup>* (pipe_init 0) pipe_sample"
proof -
  define s0 where "s0 = pipe_init 0"
  define s1 where "s1 = s0\<lparr>ps_read := (ps_read s0)(Session := ReadTry 4)\<rparr>"
  define s2 where "s2 = s1\<lparr>ps_read := (ps_read s1)(Session := ReadWait 4 None)\<rparr>"
  define s3 where "s3 = s2\<lparr>ps_write := (ps_write s2)(App := WriteTry [7] 0)\<rparr>"
  define p where "p = (ps_pipe s3)\<lparr>cp_dir := (cp_dir (ps_pipe s3))(Up := \<lparr> cd_chunks = [[7]], cd_bytes = 1 \<rparr>)\<rparr>"
  define s4 where "s4 = s3\<lparr>ps_pipe := p, ps_write := (ps_write s3)(App := WriteTry [7] (0 + 1)),
      ps_signals := ps_signals s3 + 1,
      ps_sent := (ps_sent s3)(writeDir App := ps_sent s3 (writeDir App) @ bslice 0 (0 + 1) [7])\<rparr>"
  note d = s0_def s1_def s2_def s3_def pipe_init_def newChunkPipe_def readDir_def writeDir_def
  have "pipe_step s0 s1" unfolding s1_def by (rule pipe_step.read_call) (simp_all add: d)
  moreover have "readTurn (ps_pipe s1) Session 4 (ps_clock s1) = (ReadSleep None, ps_pipe s1)"
    by (simp add: d readTurn_def cd_take_def deadlineExpired_def fun_eq_iff)
  then have "pipe_step s1 s2"
    using pipe_step.read_sleep [of s1 Session 4 None "ps_pipe s1"] by (simp add: s2_def s1_def)
  moreover have "pipe_step s2 s3" unfolding s3_def by (rule pipe_step.write_call) (simp add: d)
  moreover have "pipe_step s3 s4" unfolding s4_def
    by (rule pipe_step.write_push)
      (simp_all add: p_def d writeTurn_def deadlineExpired_def push_def chunkPipeBuffer_def chunkPipeChunk_def)
  ultimately have "pipe_step\<^sup>*\<^sup>* (pipe_init 0) s4"
    unfolding s0_def [symmetric] by (meson rtranclp.rtrancl_into_rtrancl rtranclp.rtrancl_refl)
  moreover have "s4 = pipe_sample"
    by (simp add: s4_def p_def d pipe_sample_def bslice_def fun_eq_iff)
  ultimately show ?thesis by simp
qed

section \<open>Properties\<close>

text \<open>C24. In every reachable state of a pipe with a reader and a writer at each end, under any
  interleaving with closing and deadlines, the bytes accepted in a direction are exactly the
  bytes already read followed by the bytes queued, in order; the byte count is exact and stays
  below the budget plus one chunk.\<close>

theorem pipe_fifo:
  assumes "pipe_step\<^sup>*\<^sup>* (pipe_init t) s"
  shows "ps_sent s d = ps_received s d @ concat (cd_chunks (cp_dir (ps_pipe s) d))
    \<and> cd_bytes (cp_dir (ps_pipe s) d) = int (length (ps_sent s d)) - int (length (ps_received s d))
    \<and> cd_bytes (cp_dir (ps_pipe s) d) < int (chunkPipeBuffer + chunkPipeChunk)"
proof -
  have "dir_inv (cp_dir (ps_pipe s) d)"
      "ps_sent s d = ps_received s d @ concat (cd_chunks (cp_dir (ps_pipe s) d))"
    using pipe_reachable [OF assms] by (auto simp: pipe_inv_def)
  then show ?thesis by (auto simp: dir_inv_def)
qed

theorem pipe_fifo_witness:
  "ps_sent pipe_sample Up = ps_received pipe_sample Up @ [7] \<and> cd_bytes (cp_dir (ps_pipe pipe_sample) Up) = 1"
  using pipe_fifo [OF pipe_sample_reachable, of Up] by (simp add: pipe_sample_def pipe_init_def newChunkPipe_def)



end
