(* ===== verification/Fec.thy ===== *)
theory Fec
  imports Protocol
begin

text \<open>
  Adaptive forward error correction, sending side (\<^verbatim>\<open>src/tunnel/fec.go\<close>): the loss estimators, the
  choice of the parity count, the block metadata in the header of parity frames, and the sender
  that groups consecutive records into blocks.

  The Reed-Solomon code of \<^verbatim>\<open>klauspost/reedsolomon\<close> is a parameter: a pair of functions for \<open>Encode\<close>
  and \<open>ReconstructData\<close>.  Estimates are exact rationals where the source has \<open>float64\<close>.  What the
  \<open>emit\<close> callback receives is returned as a list.
\<close>

section \<open>Definitions\<close>

subsection \<open>Constants\<close>

definition fecDataShardsMax :: nat where "fecDataShardsMax = 8"
definition fecParityShardsMax :: nat where "fecParityShardsMax = 4"
definition fecFlushDelay :: duration where "fecFlushDelay = 15 * millisecond"
definition fecBootstrapBlocks :: uint64 where "fecBootstrapBlocks = 4"
definition fecLossAlpha :: rat where "fecLossAlpha = 64"
definition fecBootstrapLossRate :: rat where "fecBootstrapLossRate = 5 / 1000"
definition fecMemoMinBlocks :: uint64 where "fecMemoMinBlocks = 32"
definition fecLossMemoTTL :: duration where "fecLossMemoTTL = 300 * second"
definition fecDataShift :: nat where "fecDataShift = 4"
definition fecDataMask :: uint16 where "fecDataMask = push_bit fecDataShift 7"
definition fecParityShift :: nat where "fecParityShift = 7"
definition fecParityMask :: uint16 where "fecParityMask = push_bit fecParityShift 3"
definition fecIndexShift :: nat where "fecIndexShift = 9"
definition fecIndexMask :: uint16 where "fecIndexMask = push_bit fecIndexShift 3"
definition fecMetaMask :: uint16 where "fecMetaMask = (fecDataMask OR fecParityMask) OR fecIndexMask"
definition fecParityExtFlag :: uint16 where "fecParityExtFlag = push_bit 2 1"
definition fecIndexExtFlag :: uint16 where "fecIndexExtFlag = push_bit 3 1"
definition fecParityShardsExtMax :: nat where "fecParityShardsExtMax = 8"

definition fecEnabled :: "bool option \<Rightarrow> bool" where
  "fecEnabled v = (case v of None \<Rightarrow> True | Some b \<Rightarrow> b)"

definition fecDataPayloadCap :: "int \<Rightarrow> int" where
  "fecDataPayloadCap recordPayloadCap = (
     let n = recordPayloadCap - int fecLengthPrefixSize in if n < 1 then 1 else n)"

subsection \<open>Loss estimation\<close>

type_synonym fecLossEstimator = rat

definition observeOutcome :: "fecLossEstimator \<Rightarrow> bool \<Rightarrow> fecLossEstimator" where
  "observeOutcome value lost = (let sample = (if lost then 1 else 0) in value + (sample - value) / fecLossAlpha)"

definition observeValue :: "fecLossEstimator \<Rightarrow> rat \<Rightarrow> rat \<Rightarrow> fecLossEstimator" where
  "observeValue value sample alpha = (
     let s1 = (if sample < 0 then 0 else sample);
         s2 = (if s1 > 1 then 1 else s1);
         a = (if alpha \<le> 0 \<or> alpha > 1 then 1 / 4 else alpha)
     in value + (s2 - value) * a)"

definition basisPoints :: "fecLossEstimator \<Rightarrow> uint16" where
  "basisPoints v = (if v \<le> 0 then 0 else if v \<ge> 1 then 10000 else of_int \<lfloor>v * 10000 + 1 / 2\<rfloor>)"

record fecAdaptiveLoss =
  fa_local :: fecLossEstimator
  fa_remote :: fecLossEstimator

definition fa_observeAck :: "fecAdaptiveLoss \<Rightarrow> bool \<Rightarrow> fecAdaptiveLoss" where
  "fa_observeAck a retransmitted = a\<lparr>fa_local := observeOutcome (fa_local a) retransmitted\<rparr>"

definition fa_observeRemote :: "fecAdaptiveLoss \<Rightarrow> uint16 \<Rightarrow> fecAdaptiveLoss" where
  "fa_observeRemote a bp = (let bp' = (if bp > 10000 then 10000 else bp) in
     a\<lparr>fa_remote := observeValue (fa_remote a) (of_nat (unat bp') / 10000) (1 / 4)\<rparr>)"

definition fa_loss :: "fecAdaptiveLoss \<Rightarrow> rat" where
  "fa_loss a = (
     if fa_remote a \<le> fa_local a then fa_local a
     else (let ceiling = 2 * fa_local a + fecBootstrapLossRate in
       if fa_remote a > ceiling then ceiling else fa_remote a))"

definition fecParityForLossExt :: "rat \<Rightarrow> bool \<Rightarrow> nat" where
  "fecParityForLossExt loss ext = (
     if ext then
       (if loss < 5 / 1000 then 0 else if loss < 25 / 1000 then 1 else if loss < 6 / 100 then 2
        else if loss < 12 / 100 then 3 else if loss < 20 / 100 then 4 else if loss < 30 / 100 then 6 else 8)
     else
       (if loss < 5 / 1000 then 0 else if loss < 25 / 1000 then 1 else if loss < 6 / 100 then 2
        else if loss < 12 / 100 then 3 else 4))"

definition fecParityForLoss :: "rat \<Rightarrow> nat" where
  "fecParityForLoss loss = fecParityForLossExt loss False"

text \<open>The memo that carries a session's estimate into the next one.\<close>

record fecLossMemo =
  fm_value :: rat
  fm_at :: "int option"

definition fm_put :: "fecLossMemo \<Rightarrow> rat \<Rightarrow> int \<Rightarrow> fecLossMemo" where
  "fm_put m loss now = m\<lparr>fm_value := loss, fm_at := Some now\<rparr>"

definition fm_get :: "fecLossMemo \<Rightarrow> int \<Rightarrow> rat option" where
  "fm_get m now = (case fm_at m of
     None \<Rightarrow> None
   | Some t \<Rightarrow> if now - t > fecLossMemoTTL then None else Some (fm_value m))"

subsection \<open>Parity frames\<close>

record fecSourceShard =
  src_seq :: uint64
  src_payload :: bytes

record fecParityShard =
  BaseSeq :: uint64
  DataShards :: nat
  ParityShards :: nat
  Index :: nat
  ShardData :: bytes
  Ext :: bool

text \<open>\<open>None\<close> is the result \<open>false\<close>, which leaves the frame as it was.\<close>

definition applyToFrame :: "fecParityShard \<Rightarrow> UDPCFrame \<Rightarrow> UDPCFrame option" where
  "applyToFrame p f = (
     let maxParity = (if Ext p then fecParityShardsExtMax else fecParityShardsMax) in
     if BaseSeq p = 0 \<or> DataShards p < 1 \<or> DataShards p > fecDataShardsMax
        \<or> ParityShards p < 1 \<or> ParityShards p > maxParity
        \<or> Index p \<ge> ParityShards p \<or> length (ShardData p) < fecLengthPrefixSize
        \<or> length (ShardData p) > UDPC_MAX_DATA then None
     else (let g0 = Flags f AND NOT fecMetaMask;
               g1 = (if Ext p then g0 AND NOT (fecParityExtFlag OR fecIndexExtFlag) else g0);
               g2 = g1 OR push_bit fecDataShift (of_nat (DataShards p - 1) AND 7);
               g3 = g2 OR push_bit fecParityShift (of_nat (ParityShards p - 1) AND 3);
               g4 = g3 OR push_bit fecIndexShift (of_nat (Index p) AND 3);
               g5 = (if Ext p \<and> ParityShards p - 1 \<ge> 4 then g4 OR fecParityExtFlag else g4);
               g6 = (if Ext p \<and> Index p \<ge> 4 then g5 OR fecIndexExtFlag else g5)
           in Some (f\<lparr>Seq := BaseSeq p, Flags := g6, Data := ShardData p\<rparr>)))"

datatype fec_error = InvalidFecFrame | InvalidFecMetadata | FecSequenceOverflow

definition fecField :: "uint16 \<Rightarrow> uint16 \<Rightarrow> nat \<Rightarrow> nat" where
  "fecField flags m shift = unat (drop_bit shift (flags AND m))"

definition parseFECParityFrameExt :: "UDPCFrame \<Rightarrow> bool \<Rightarrow> fec_error + fecParityShard" where
  "parseFECParityFrameExt frame ext = (
     if Cmd frame \<noteq> CMD_FEC \<or> Seq frame = 0 \<or> length (Data frame) < fecLengthPrefixSize then Inl InvalidFecFrame
     else (let m1 = fecField (Flags frame) fecParityMask fecParityShift;
               idx = fecField (Flags frame) fecIndexMask fecIndexShift;
               maxParity = (if ext then fecParityShardsExtMax else fecParityShardsMax);
               m1' = (if ext \<and> Flags frame AND fecParityExtFlag \<noteq> 0 then m1 + 4 else m1);
               idx' = (if ext \<and> Flags frame AND fecIndexExtFlag \<noteq> 0 then idx + 4 else idx);
               p = \<lparr> BaseSeq = Seq frame,
                     DataShards = fecField (Flags frame) fecDataMask fecDataShift + 1,
                     ParityShards = m1' + 1, Index = idx', ShardData = Data frame, Ext = False \<rparr>
           in if DataShards p < 1 \<or> DataShards p > fecDataShardsMax
                 \<or> ParityShards p < 1 \<or> ParityShards p > maxParity
                 \<or> Index p \<ge> ParityShards p then Inl InvalidFecMetadata
              else if BaseSeq p > (- 1) - of_nat (DataShards p - 1) then Inl FecSequenceOverflow
              else Inr p))"

definition parseFECParityFrame :: "UDPCFrame \<Rightarrow> fec_error + fecParityShard" where
  "parseFECParityFrame frame = parseFECParityFrameExt frame False"

subsection \<open>The sender\<close>

text \<open>The code: \<open>rs_encode k m data\<close> is the parity of \<open>k\<close> data shards; \<open>rs_reconstruct k m shards\<close>
  fills in the missing data shards.  \<open>None\<close> is an error.\<close>

record rs_codec =
  rs_encode :: "nat \<Rightarrow> nat \<Rightarrow> bytes list \<Rightarrow> bytes list option"
  rs_reconstruct :: "nat \<Rightarrow> nat \<Rightarrow> bytes option list \<Rightarrow> bytes list option"

text \<open>\<open>fs_timer\<close> is the generation of the armed flush timer.\<close>

record fecSender =
  fs_pending :: "fecSourceShard list"
  fs_timer :: "nat option"
  fs_flushGen :: nat
  fs_closed :: bool
  fs_blocks :: uint64
  fs_adaptive :: fecAdaptiveLoss
  fs_extParity :: bool

definition newFECSenderExt :: "bool \<Rightarrow> fecSender" where
  "newFECSenderExt extParity = \<lparr> fs_pending = [], fs_timer = None, fs_flushGen = 0, fs_closed = False,
     fs_blocks = 0, fs_adaptive = \<lparr> fa_local = 0, fa_remote = 0 \<rparr>, fs_extParity = extParity \<rparr>"

definition memoSnapshot :: "fecSender \<Rightarrow> rat option" where
  "memoSnapshot s = (if fs_blocks s < fecMemoMinBlocks then None else Some (fa_local (fs_adaptive s)))"

definition seedLoss :: "fecSender \<Rightarrow> rat \<Rightarrow> fecSender" where
  "seedLoss s loss = s\<lparr>fs_adaptive := (fs_adaptive s)\<lparr>fa_local := observeValue (fa_local (fs_adaptive s)) loss 1\<rparr>\<rparr>"

definition fs_observeAck :: "fecSender \<Rightarrow> bool \<Rightarrow> fecSender" where
  "fs_observeAck s retransmitted = s\<lparr>fs_adaptive := fa_observeAck (fs_adaptive s) retransmitted\<rparr>"

definition fs_observeRemoteBasisPoints :: "fecSender \<Rightarrow> uint16 \<Rightarrow> fecSender" where
  "fs_observeRemoteBasisPoints s bp = s\<lparr>fs_adaptive := fa_observeRemote (fs_adaptive s) bp\<rparr>"

definition detachLocked :: "fecSender \<Rightarrow> fecSourceShard list \<times> fecSender" where
  "detachLocked s = (
     if fs_pending s = [] then ([], s)
     else (fs_pending s, s\<lparr>fs_pending := [], fs_timer := None\<rparr>))"

definition consecutive :: "fecSourceShard list \<Rightarrow> bool" where
  "consecutive block = list_all (\<lambda>i. src_seq (block ! i) = src_seq (block ! 0) + of_nat i) [1..<length block]"

definition maxPayloadOf :: "bytes list \<Rightarrow> nat" where
  "maxPayloadOf ps = fold (\<lambda>p m. if length p > m then length p else m) ps 0"

text \<open>A data shard: the length prefix, the payload, zeros up to the shard size.\<close>

definition fecShard :: "nat \<Rightarrow> bytes \<Rightarrow> bytes" where
  "fecShard shardSize payload = put_be fecLengthPrefixSize (of_nat (length payload) :: uint16) @ payload
     @ replicate (shardSize - fecLengthPrefixSize - length payload) 0"

text \<open>The number of parity shards of a block: adaptive, at least one while bootstrapping, less than
  the number of data shards, at most the negotiated maximum.\<close>

definition parityCount :: "fecSender \<Rightarrow> uint64 \<Rightarrow> nat \<Rightarrow> nat" where
  "parityCount s blockNo k = (
     let n0 = fecParityForLossExt (fa_loss (fs_adaptive s)) (fs_extParity s);
         n1 = (if blockNo \<le> fecBootstrapBlocks \<and> n0 < 1 then 1 else n0);
         n2 = (if n1 > k - 1 then k - 1 else n1);
         maxParity = (if fs_extParity s then fecParityShardsExtMax else fecParityShardsMax)
     in if n2 > maxParity then maxParity else n2)"

definition emitBlock :: "rs_codec \<Rightarrow> fecSender \<Rightarrow> fecSourceShard list \<Rightarrow> fecSender \<times> fecParityShard list" where
  "emitBlock rs s block = (
     if block = [] then (s, [])
     else if \<not> consecutive block then (s, [])
     else (let shardSize = fecLengthPrefixSize + maxPayloadOf (map src_payload block) in
       if shardSize > UDPC_MAX_DATA then (s, [])
       else if fs_closed s then (s, [])
       else (let s1 = s\<lparr>fs_blocks := fs_blocks s + 1\<rparr>;
                 dataShards = length block;
                 parityShards = parityCount s1 (fs_blocks s1) dataShards
             in if parityShards \<le> 0 then (s1, [])
                else (case rs_encode rs dataShards parityShards (map (fecShard shardSize \<circ> src_payload) block) of
                    None \<Rightarrow> (s1, [])
                  | Some parity \<Rightarrow> (s1, map (\<lambda>i. \<lparr> BaseSeq = src_seq (block ! 0), DataShards = dataShards,
                        ParityShards = parityShards, Index = i, ShardData = parity ! i, Ext = fs_extParity s \<rparr>)
                      [0..<parityShards])))))"

definition fs_add :: "rs_codec \<Rightarrow> fecSender \<Rightarrow> uint64 \<Rightarrow> bytes \<Rightarrow> fecSender \<times> fecParityShard list" where
  "fs_add rs s seq payload = (
     if seq = 0 \<or> length payload = 0 then (s, [])
     else if fs_closed s then (s, [])
     else if fs_pending s = [] \<and> fs_blocks s \<ge> fecBootstrapBlocks \<and> fecParityForLoss (fa_loss (fs_adaptive s)) = 0
       then (s, [])
     else
       (let (block1, s1) = (if fs_pending s \<noteq> [] \<and> seq \<noteq> src_seq (last (fs_pending s)) + 1 then detachLocked s else ([], s));
            s2 = s1\<lparr>fs_pending := fs_pending s1 @ [\<lparr> src_seq = seq, src_payload = payload \<rparr>]\<rparr>;
            s3 = (if length (fs_pending s2) = 1
                  then s2\<lparr>fs_flushGen := fs_flushGen s2 + 1, fs_timer := Some (fs_flushGen s2 + 1)\<rparr> else s2);
            (block2, s4) = (if length (fs_pending s3) \<ge> fecDataShardsMax then detachLocked s3 else ([], s3));
            (s5, out1) = emitBlock rs s4 block1;
            (s6, out2) = emitBlock rs s5 block2
        in (s6, out1 @ out2)))"

definition flushTimer :: "rs_codec \<Rightarrow> fecSender \<Rightarrow> nat \<Rightarrow> fecSender \<times> fecParityShard list" where
  "flushTimer rs s gen = (
     if fs_closed s \<or> gen \<noteq> fs_flushGen s then (s, [])
     else (case detachLocked s of (block, s1) \<Rightarrow> emitBlock rs s1 block))"

definition fs_close :: "fecSender \<Rightarrow> fecSender" where
  "fs_close s = (if \<not> fs_closed s then s\<lparr>fs_closed := True, fs_timer := None, fs_pending := []\<rparr> else s)"

subsection \<open>Vocabulary of the properties\<close>

datatype fec_event =
    Sent uint64 bytes
  | Flush nat
  | AckSeen bool
  | Feedback uint16
  | Seeded rat
  | FecClosed

fun fec_step :: "rs_codec \<Rightarrow> fecSender \<Rightarrow> fec_event \<Rightarrow> fecSender \<times> fecParityShard list" where
  "fec_step rs s (Sent seq payload) = fs_add rs s seq payload"
| "fec_step rs s (Flush gen) = flushTimer rs s gen"
| "fec_step rs s (AckSeen r) = (fs_observeAck s r, [])"
| "fec_step rs s (Feedback bp) = (fs_observeRemoteBasisPoints s bp, [])"
| "fec_step rs s (Seeded v) = (seedLoss s v, [])"
| "fec_step rs s FecClosed = (fs_close s, [])"

fun fec_run :: "rs_codec \<Rightarrow> fecSender \<Rightarrow> fec_event list \<Rightarrow> fecSender \<times> fecParityShard list" where
  "fec_run rs s [] = (s, [])"
| "fec_run rs s (e # es) = (case fec_step rs s e of (s', out) \<Rightarrow>
     (case fec_run rs s' es of (s'', out') \<Rightarrow> (s'', out @ out')))"

text \<open>The shard size and the shards of the block of \<open>k\<close> records from \<open>base\<close> in a stream.\<close>

definition block_payloads :: "(uint64 \<Rightarrow> bytes) \<Rightarrow> uint64 \<Rightarrow> nat \<Rightarrow> bytes list" where
  "block_payloads src base k = map (\<lambda>i. src (base + of_nat i)) [0..<k]"

definition block_size :: "(uint64 \<Rightarrow> bytes) \<Rightarrow> uint64 \<Rightarrow> nat \<Rightarrow> nat" where
  "block_size src base k = fecLengthPrefixSize + maxPayloadOf (block_payloads src base k)"

definition block_shards :: "(uint64 \<Rightarrow> bytes) \<Rightarrow> uint64 \<Rightarrow> nat \<Rightarrow> bytes list" where
  "block_shards src base k = map (fecShard (block_size src base k)) (block_payloads src base k)"

text \<open>A parity shard that belongs to the stream: its data is the parity the code computes for the block
  it names, and its metadata is within the ranges of the wire encoding.\<close>

definition genuine :: "rs_codec \<Rightarrow> (uint64 \<Rightarrow> bytes) \<Rightarrow> fecParityShard \<Rightarrow> bool" where
  "genuine rs src p \<longleftrightarrow> BaseSeq p \<noteq> 0 \<and> 1 \<le> DataShards p \<and> DataShards p \<le> fecDataShardsMax
     \<and> 1 \<le> ParityShards p \<and> ParityShards p \<le> (if Ext p then fecParityShardsExtMax else fecParityShardsMax)
     \<and> Index p < ParityShards p \<and> unat (BaseSeq p) + DataShards p \<le> 2 ^ 64 \<and> block_size src (BaseSeq p) (DataShards p) \<le> UDPC_MAX_DATA
     \<and> (\<exists>parity. rs_encode rs (DataShards p) (ParityShards p) (block_shards src (BaseSeq p) (DataShards p)) = Some parity
          \<and> ShardData p = parity ! Index p)"

definition fec_inv :: "(uint64 \<Rightarrow> bytes) \<Rightarrow> fecSender \<Rightarrow> bool" where
  "fec_inv src s \<longleftrightarrow> 0 \<le> fa_local (fs_adaptive s) \<and> fa_local (fs_adaptive s) \<le> 1
     \<and> 0 \<le> fa_remote (fs_adaptive s) \<and> fa_remote (fs_adaptive s) \<le> 1
     \<and> length (fs_pending s) < fecDataShardsMax
     \<and> (\<forall>x \<in> set (fs_pending s). src_seq x \<noteq> 0 \<and> src_payload x = src (src_seq x))"

text \<open>The records handed to the sender are those of the stream.\<close>

fun honest :: "(uint64 \<Rightarrow> bytes) \<Rightarrow> fec_event \<Rightarrow> bool" where
  "honest src (Sent seq payload) \<longleftrightarrow> payload = src seq"
| "honest src _ \<longleftrightarrow> True"

text \<open>The parity of two data shards as their bytewise exclusive or: a code for the witnesses.\<close>

definition xor_codec :: rs_codec where
  "xor_codec = \<lparr>
     rs_encode = (\<lambda>k m data. if k = 2 \<and> m = 1 then Some [map2 (XOR) (data ! 0) (data ! 1)] else None),
     rs_reconstruct = (\<lambda>k m shards. case shards of
         [Some a, Some b, _] \<Rightarrow> Some [a, b]
       | [None, Some b, Some c] \<Rightarrow> Some [map2 (XOR) b c, b]
       | [Some a, None, Some c] \<Rightarrow> Some [a, map2 (XOR) a c]
       | _ \<Rightarrow> None) \<rparr>"

text \<open>The flags word of a parity frame: two-bit and three-bit fields, and the extension bits.\<close>

definition meta_flags :: "uint16 \<Rightarrow> bool \<Rightarrow> nat \<Rightarrow> nat \<Rightarrow> nat \<Rightarrow> uint16" where
  "meta_flags g ext k1 m1 i = (
     let g0 = g AND NOT fecMetaMask;
         g1 = (if ext then g0 AND NOT (fecParityExtFlag OR fecIndexExtFlag) else g0);
         g4 = ((g1 OR push_bit fecDataShift (of_nat k1 AND 7)) OR push_bit fecParityShift (of_nat m1 AND 3))
                OR push_bit fecIndexShift (of_nat i AND 3);
         g5 = (if ext \<and> m1 \<ge> 4 then g4 OR fecParityExtFlag else g4)
     in if ext \<and> i \<ge> 4 then g5 OR fecIndexExtFlag else g5)"

section \<open>Lemmas\<close>

subsection \<open>Metadata bits\<close>

lemma bit_small_masks: "bit (7 :: uint16) n \<longleftrightarrow> n < 3" "bit (3 :: uint16) n \<longleftrightarrow> n < 2" "bit (1 :: uint16) n \<longleftrightarrow> n = 0"
proof -
  have m: "(7 :: uint16) = mask 3" "(3 :: uint16) = mask 2" by (simp_all add: mask_eq_exp_minus_1)
  show "bit (7 :: uint16) n \<longleftrightarrow> n < 3" "bit (3 :: uint16) n \<longleftrightarrow> n < 2"
    unfolding m bit_mask_iff by auto
  show "bit (1 :: uint16) n \<longleftrightarrow> n = 0" by (simp add: bit_1_iff)
qed

lemma bit_fec_masks:
  "bit fecDataMask n \<longleftrightarrow> 4 \<le> n \<and> n < 7" "bit fecParityMask n \<longleftrightarrow> 7 \<le> n \<and> n < 9"
  "bit fecIndexMask n \<longleftrightarrow> 9 \<le> n \<and> n < 11" "bit fecMetaMask n \<longleftrightarrow> 4 \<le> n \<and> n < 11"
  "bit fecParityExtFlag n \<longleftrightarrow> n = 2" "bit fecIndexExtFlag n \<longleftrightarrow> n = 3"
  unfolding fecDataMask_def fecParityMask_def fecIndexMask_def fecMetaMask_def fecParityExtFlag_def
      fecIndexExtFlag_def fecDataShift_def fecParityShift_def fecIndexShift_def bit_or_iff bit_push_bit_iff
      bit_small_masks possible_bit_word
  by auto

lemma bit_meta_flags:
  "bit (meta_flags g ext k1 m1 i) n \<longleftrightarrow> n < 16 \<and> (
     if 4 \<le> n \<and> n < 7 then bit k1 (n - 4) else if 7 \<le> n \<and> n < 9 then bit m1 (n - 7)
     else if 9 \<le> n \<and> n < 11 then bit i (n - 9)
     else if ext \<and> n = 2 then 4 \<le> m1 else if ext \<and> n = 3 then 4 \<le> i else bit g n)"
proof (cases "n < 16")
  case True
  have w: "bit (of_nat x :: uint16) j \<longleftrightarrow> j < 16 \<and> bit x j" for x j
    by (simp add: bit_of_nat_iff)
  show ?thesis
    using True
    unfolding meta_flags_def Let_def fecDataShift_def fecParityShift_def fecIndexShift_def
      if_distrib [of "\<lambda>v. bit v n"] bit_or_iff bit_and_iff bit_not_iff bit_push_bit_iff bit_fec_masks
      bit_small_masks w possible_bit_word
    by auto
next
  case False
  then show ?thesis by (auto dest: bit_imp_le_length)
qed

lemma small_bits:
  assumes "x < 2 ^ j" "j \<le> n"
  shows "\<not> bit (x :: nat) n"
proof -
  have "x < 2 ^ n" using assms by (meson less_le_trans one_le_numeral power_increasing)
  then show ?thesis by (simp add: bit_iff_odd)
qed

lemma meta_fields:
  assumes "k1 < 8"
  shows "fecField (meta_flags g ext k1 m1 i) fecDataMask fecDataShift = k1"
    and "fecField (meta_flags g ext k1 m1 i) fecParityMask fecParityShift = m1 mod 4"
    and "fecField (meta_flags g ext k1 m1 i) fecIndexMask fecIndexShift = i mod 4"
proof -
  have "drop_bit fecDataShift (meta_flags g ext k1 m1 i AND fecDataMask) = of_nat k1"
    by (rule bit_word_eqI)
      (use small_bits [of k1 3] assms in \<open>auto simp: bit_drop_bit_eq bit_and_iff bit_meta_flags bit_fec_masks
        bit_of_nat_iff fecDataShift_def not_less\<close>)
  then show "fecField (meta_flags g ext k1 m1 i) fecDataMask fecDataShift = k1"
    using assms by (simp add: fecField_def unat_of_nat take_bit_eq_mod del: drop_bit_and)
  have "drop_bit fecParityShift (meta_flags g ext k1 m1 i AND fecParityMask) = of_nat (take_bit 2 m1)"
    by (rule bit_word_eqI)
      (auto simp: bit_drop_bit_eq bit_and_iff bit_meta_flags bit_fec_masks bit_of_nat_iff
        bit_take_bit_iff fecParityShift_def)
  then show "fecField (meta_flags g ext k1 m1 i) fecParityMask fecParityShift = m1 mod 4"
    by (simp add: fecField_def unat_of_nat take_bit_eq_mod del: drop_bit_and)
  have "drop_bit fecIndexShift (meta_flags g ext k1 m1 i AND fecIndexMask) = of_nat (take_bit 2 i)"
    by (rule bit_word_eqI)
      (auto simp: bit_drop_bit_eq bit_and_iff bit_meta_flags bit_fec_masks bit_of_nat_iff
        bit_take_bit_iff fecIndexShift_def)
  then show "fecField (meta_flags g ext k1 m1 i) fecIndexMask fecIndexShift = i mod 4"
    by (simp add: fecField_def unat_of_nat take_bit_eq_mod del: drop_bit_and)
qed

lemma meta_ext:
  "meta_flags g True k1 m1 i AND fecParityExtFlag \<noteq> 0 \<longleftrightarrow> 4 \<le> m1"
  "meta_flags g True k1 m1 i AND fecIndexExtFlag \<noteq> 0 \<longleftrightarrow> 4 \<le> i"
proof -
  have "x \<noteq> 0 \<longleftrightarrow> (\<exists>n. bit x n)" for x :: uint16
    by (metis bit_0_eq bot_apply bit_word_eqI bot_bool_def)
  then show "meta_flags g True k1 m1 i AND fecParityExtFlag \<noteq> 0 \<longleftrightarrow> 4 \<le> m1"
      "meta_flags g True k1 m1 i AND fecIndexExtFlag \<noteq> 0 \<longleftrightarrow> 4 \<le> i"
    by (auto simp: bit_and_iff bit_fec_masks bit_meta_flags)
qed

lemma applyToFrame_Some:
  "applyToFrame p f = Some g \<longleftrightarrow> BaseSeq p \<noteq> 0 \<and> 1 \<le> DataShards p \<and> DataShards p \<le> fecDataShardsMax
     \<and> 1 \<le> ParityShards p \<and> ParityShards p \<le> (if Ext p then fecParityShardsExtMax else fecParityShardsMax)
     \<and> Index p < ParityShards p \<and> fecLengthPrefixSize \<le> length (ShardData p) \<and> length (ShardData p) \<le> UDPC_MAX_DATA
     \<and> g = f\<lparr>Seq := BaseSeq p, Flags := meta_flags (Flags f) (Ext p) (DataShards p - 1) (ParityShards p - 1) (Index p),
           Data := ShardData p\<rparr>"
  unfolding applyToFrame_def meta_flags_def Let_def by (auto simp: not_less)

lemma parse_applied:
  assumes "applyToFrame p f = Some g" "Cmd f = CMD_FEC" "unat (BaseSeq p) + DataShards p \<le> 2 ^ 64"
  shows "parseFECParityFrameExt g (Ext p) = Inr (p\<lparr>Ext := False\<rparr>)"
proof -
  define k1 m1 where "k1 = DataShards p - 1" and "m1 = ParityShards p - 1"
  note a = assms(1) [unfolded applyToFrame_Some]
  have g: "g = f\<lparr>Seq := BaseSeq p, Flags := meta_flags (Flags f) (Ext p) k1 m1 (Index p), Data := ShardData p\<rparr>"
    and k: "DataShards p = k1 + 1" "k1 < 8" and m: "ParityShards p = m1 + 1"
    and m8: "Index p \<le> m1" "m1 < (if Ext p then 8 else 4)"
    using a by (auto simp: k1_def m1_def fecDataShardsMax_def fecParityShardsMax_def fecParityShardsExtMax_def)
  have "unat ((- 1 :: uint64) - of_nat k1) = 2 ^ 64 - 1 - k1"
    using k(2) by (simp add: unat_sub_if' unat_of_nat take_bit_eq_mod word_le_nat_alt
        unsigned_minus_1_eq_mask mask_eq_exp_minus_1)
  then have ov: "\<not> BaseSeq p > (- 1) - of_nat k1"
    using assms(3) k by (simp add: word_less_nat_alt)
  have q: "p\<lparr>Ext := False\<rparr> = \<lparr> BaseSeq = BaseSeq p, DataShards = k1 + 1, ParityShards = m1 + 1, Index = Index p,
      ShardData = ShardData p, Ext = False \<rparr>"
    using k m by (cases p) simp
  have nx: "m1 mod 4 = m1" "Index p mod 4 = Index p" if "\<not> Ext p"
    using m8 that by simp_all
  have x: "(if 4 \<le> x then x mod 4 + 4 else x mod 4) = x" if "x < 8" for x :: nat
    using that by presburger
  have px: "(if Ext p \<and> Flags g AND fecParityExtFlag \<noteq> 0 then m1 mod 4 + 4 else m1 mod 4) = m1"
    using nx x [of m1] m8 by (cases "Ext p") (simp_all add: g meta_ext)
  have ix: "(if Ext p \<and> Flags g AND fecIndexExtFlag \<noteq> 0 then Index p mod 4 + 4 else Index p mod 4) = Index p"
    using nx x [of "Index p"] m8 by (cases "Ext p") (simp_all add: g meta_ext)
  have flags: "Flags g = meta_flags (Flags f) (Ext p) k1 m1 (Index p)" "Seq g = BaseSeq p" "Data g = ShardData p"
      "Cmd g = CMD_FEC"
    using assms(2) by (simp_all add: g)
  show ?thesis
    unfolding parseFECParityFrameExt_def Let_def q
    using a m8 k ov px ix unfolding flags meta_fields [OF k(2)]
    by (auto simp: fecDataShardsMax_def fecParityShardsMax_def fecParityShardsExtMax_def)
qed

subsection \<open>Estimates\<close>

lemma ewma_range:
  fixes v x a :: rat
  assumes "0 \<le> v" "v \<le> 1" "0 \<le> x" "x \<le> 1" "0 \<le> a" "a \<le> 1"
  shows "0 \<le> v + (x - v) * a \<and> v + (x - v) * a \<le> 1"
proof -
  have e: "v + (x - v) * a = v * (1 - a) + x * a" by (simp add: algebra_simps)
  have "v * (1 - a) \<le> 1 * (1 - a)" "x * a \<le> 1 * a"
    using assms by (intro mult_right_mono; simp)+
  moreover have "0 \<le> v * (1 - a)" "0 \<le> x * a" using assms by simp_all
  ultimately show ?thesis unfolding e by simp
qed

lemma observeOutcome_range: "0 \<le> v \<Longrightarrow> v \<le> 1 \<Longrightarrow> 0 \<le> observeOutcome v b \<and> observeOutcome v b \<le> 1"
  using ewma_range [of v "if b then 1 else 0" "1 / 64"] by (simp add: observeOutcome_def fecLossAlpha_def Let_def)

lemma observeValue_range: "0 \<le> v \<Longrightarrow> v \<le> 1 \<Longrightarrow> 0 \<le> observeValue v x a \<and> observeValue v x a \<le> 1"
  unfolding observeValue_def Let_def by (rule ewma_range) auto

lemma fa_loss_bounds:
  "fa_local a \<le> fa_loss a \<or> fa_local a < 0" "fa_loss a \<le> max (fa_local a) (2 * fa_local a + fecBootstrapLossRate)"
  by (auto simp: fa_loss_def Let_def fecBootstrapLossRate_def max_def)

lemma fecParityForLossExt_le:
  "fecParityForLossExt l x \<le> (if x then fecParityShardsExtMax else fecParityShardsMax)"
  by (simp add: fecParityForLossExt_def fecParityShardsExtMax_def fecParityShardsMax_def)

lemma parityCount_bounds:
  "parityCount s n k \<le> k - 1" "parityCount s n k \<le> (if fs_extParity s then fecParityShardsExtMax else fecParityShardsMax)"
  by (auto simp: parityCount_def Let_def)

subsection \<open>Blocks\<close>

lemma maxPayloadOf_ge: "p \<in> set ps \<Longrightarrow> length p \<le> maxPayloadOf ps"
proof -
  define f where "f = (\<lambda>(p :: bytes) m. if length p > m then length p else m)"
  have "m \<le> fold f ps m \<and> (\<forall>p \<in> set ps. length p \<le> fold f ps m)" for m
  proof (induction ps arbitrary: m)
    case (Cons q ps)
    have "m \<le> f q m" "length q \<le> f q m" by (simp_all add: f_def)
    then show ?case using Cons [of "f q m"] by (auto intro: order_trans)
  qed simp
  then show "p \<in> set ps \<Longrightarrow> length p \<le> maxPayloadOf ps" by (simp add: maxPayloadOf_def f_def)
qed

lemma consecutive_payloads:
  assumes "consecutive block" "block \<noteq> []" "\<forall>x \<in> set block. src_payload x = src (src_seq x)"
  shows "map src_payload block = block_payloads src (src_seq (block ! 0)) (length block)"
proof -
  have "src_seq (block ! i) = src_seq (block ! 0) + of_nat i" if "i < length block" for i
    using assms(1) that by (cases "i = 0") (auto simp: consecutive_def list_all_iff)
  then show ?thesis
    using assms(3) by (auto simp: block_payloads_def intro!: nth_equalityI)
qed

lemma consecutive_no_wrap:
  assumes "consecutive block" "length block \<le> 2 ^ 64" "block \<noteq> []" "\<forall>x \<in> set block. src_seq x \<noteq> 0"
  shows "unat (src_seq (block ! 0)) + length block \<le> 2 ^ 64"
proof (rule ccontr)
  define b where "b = src_seq (block ! 0)"
  assume "\<not> ?thesis"
  then have n: "2 ^ 64 < unat b + length block" by (simp add: b_def)
  have ub: "unat b < 2 ^ 64" "unat b \<noteq> 0"
    using unsigned_less [of b, where 'a = nat] assms(3,4) by (auto simp: b_def unat_eq_zero)
  then have i: "2 ^ 64 - unat b < length block" using n by linarith
  have pos: "0 < 2 ^ 64 - unat b" using ub by simp
  have "src_seq (block ! (2 ^ 64 - unat b)) = b + of_nat (2 ^ 64 - unat b)"
    using assms(1) i pos by (auto simp: consecutive_def list_all_iff b_def)
  also have "\<dots> = of_nat (unat b + (2 ^ 64 - unat b))" by simp
  also have "\<dots> = of_nat (2 ^ 64)" using \<open>unat b < 2 ^ 64\<close> by (metis le_add_diff_inverse less_imp_le)
  also have "\<dots> = (0 :: uint64)" by simp
  finally show False using assms(4) i nth_mem by blast
qed

lemma emitBlock_genuine:
  assumes "emitBlock rs s block = (s', out)" "length block \<le> fecDataShardsMax" "p \<in> set out"
    and "\<forall>x \<in> set block. src_seq x \<noteq> 0 \<and> src_payload x = src (src_seq x)"
  shows "genuine rs src p \<and> ParityShards p < DataShards p \<and> Ext p = fs_extParity s"
proof -
  define k size s1 m where "k = length block" and "size = fecLengthPrefixSize + maxPayloadOf (map src_payload block)"
    and "s1 = s\<lparr>fs_blocks := fs_blocks s + 1\<rparr>" and "m = parityCount s1 (fs_blocks s1) k"
  have ne: "block \<noteq> []" and c: "consecutive block" and sz: "size \<le> UDPC_MAX_DATA" and m0: "0 < m"
    using assms(1,3) by (auto simp: emitBlock_def Let_def size_def k_def m_def s1_def split: if_splits option.splits)
  obtain parity i where enc: "rs_encode rs k m (map (fecShard size \<circ> src_payload) block) = Some parity" and i: "i < m"
      and p: "p = \<lparr> BaseSeq = src_seq (block ! 0), DataShards = k, ParityShards = m, Index = i, ShardData = parity ! i,
        Ext = fs_extParity s \<rparr>"
    using assms(1,3) by (auto simp: emitBlock_def Let_def size_def k_def m_def s1_def split: if_splits option.splits)
  have pay: "map src_payload block = block_payloads src (src_seq (block ! 0)) k"
    using consecutive_payloads [OF c ne] assms(4) by (simp add: k_def)
  have "size = block_size src (src_seq (block ! 0)) k" by (simp add: size_def block_size_def pay)
  moreover have "map (fecShard size \<circ> src_payload) block = block_shards src (src_seq (block ! 0)) k"
    by (simp add: block_shards_def block_size_def size_def flip: pay)
  moreover have "unat (src_seq (block ! 0)) + k \<le> 2 ^ 64"
    using consecutive_no_wrap [OF c] assms(2,4) ne by (simp add: k_def fecDataShardsMax_def)
  moreover have "src_seq (block ! 0) \<noteq> 0" using assms(4) ne by simp
  moreover have "k \<le> fecDataShardsMax" "1 \<le> k" using assms(2) ne by (simp_all add: k_def Suc_leI)
  ultimately show ?thesis
    using parityCount_bounds [of s1 "fs_blocks s1" k] m0 i enc sz
    by (auto simp: genuine_def p m_def s1_def)
qed

lemma emitBlock_fields:
  "emitBlock rs s block = (s', out) \<Longrightarrow> fs_pending s' = fs_pending s \<and> fs_adaptive s' = fs_adaptive s \<and> fs_extParity s' = fs_extParity s"
  by (auto simp: emitBlock_def Let_def split: if_splits option.splits)

lemma detachLocked_spec:
  "detachLocked s = (block, s') \<Longrightarrow> block = fs_pending s \<and> fs_pending s' = [] \<and> fs_adaptive s' = fs_adaptive s
     \<and> fs_extParity s' = fs_extParity s"
  by (auto simp: detachLocked_def split: if_splits)

lemma fec_inv_new: "fec_inv src (newFECSenderExt x)"
  by (simp add: fec_inv_def newFECSenderExt_def fecDataShardsMax_def)

text \<open>Emission after a detachment keeps the invariant and emits genuine parity only.\<close>

lemma emit_detached:
  assumes "emitBlock rs s block = (s', out)" "fec_inv src s" "length block \<le> fecDataShardsMax"
    and "\<forall>x \<in> set block. src_seq x \<noteq> 0 \<and> src_payload x = src (src_seq x)"
  shows "fec_inv src s' \<and> fs_extParity s' = fs_extParity s
    \<and> (\<forall>p \<in> set out. genuine rs src p \<and> ParityShards p < DataShards p \<and> Ext p = fs_extParity s)"
  using emitBlock_genuine [OF assms(1,3) _ assms(4)] emitBlock_fields [OF assms(1)] assms(2)
  by (auto simp: fec_inv_def)

lemma fs_add_inv:
  assumes "fs_add rs s seq (src seq) = (s', out)" "fec_inv src s"
  shows "fec_inv src s' \<and> fs_extParity s' = fs_extParity s
    \<and> (\<forall>p \<in> set out. genuine rs src p \<and> ParityShards p < DataShards p \<and> Ext p = fs_extParity s)"
proof (cases "seq = 0 \<or> length (src seq) = 0 \<or> fs_closed s
    \<or> fs_pending s = [] \<and> fs_blocks s \<ge> fecBootstrapBlocks \<and> fecParityForLoss (fa_loss (fs_adaptive s)) = 0")
  case True
  then show ?thesis using assms by (auto simp: fs_add_def split: if_splits)
next
  case False
  define d1 where "d1 = (if fs_pending s \<noteq> [] \<and> seq \<noteq> src_seq (last (fs_pending s)) + 1 then detachLocked s else ([], s))"
  obtain block1 s1 where 1: "d1 = (block1, s1)" by (cases d1)
  define s2 where "s2 = s1\<lparr>fs_pending := fs_pending s1 @ [\<lparr> src_seq = seq, src_payload = src seq \<rparr>]\<rparr>"
  define s3 where "s3 = (if length (fs_pending s2) = 1
      then s2\<lparr>fs_flushGen := fs_flushGen s2 + 1, fs_timer := Some (fs_flushGen s2 + 1)\<rparr> else s2)"
  define d2 where "d2 = (if length (fs_pending s3) \<ge> fecDataShardsMax then detachLocked s3 else ([], s3))"
  obtain block2 s4 where 2: "d2 = (block2, s4)" by (cases d2)
  obtain s5 out1 where 3: "emitBlock rs s4 block1 = (s5, out1)" by (cases "emitBlock rs s4 block1")
  obtain s6 out2 where 4: "emitBlock rs s5 block2 = (s6, out2)" by (cases "emitBlock rs s5 block2")
  have res: "s' = s6" "out = out1 @ out2"
    using assms(1) False
    unfolding fs_add_def d1_def [symmetric] 1 prod.case Let_def s2_def [symmetric] s3_def [symmetric]
      d2_def [symmetric] 2 3 4 by auto
  have one: "set block1 \<union> set (fs_pending s1) \<subseteq> set (fs_pending s)" "length block1 < fecDataShardsMax"
      "length (fs_pending s1) < fecDataShardsMax" "fs_adaptive s1 = fs_adaptive s" "fs_extParity s1 = fs_extParity s"
    using 1 assms(2) detachLocked_spec [of s block1 s1] by (auto simp: d1_def fec_inv_def split: if_splits)
  have three: "fs_pending s3 = fs_pending s1 @ [\<lparr> src_seq = seq, src_payload = src seq \<rparr>]"
      "fs_adaptive s3 = fs_adaptive s" "fs_extParity s3 = fs_extParity s"
    using one by (auto simp: s3_def s2_def)
  have four: "set block2 \<union> set (fs_pending s4) \<subseteq> set (fs_pending s3)" "length block2 \<le> fecDataShardsMax"
      "length (fs_pending s4) < fecDataShardsMax" "fs_adaptive s4 = fs_adaptive s" "fs_extParity s4 = fs_extParity s"
    using 2 three one(3) detachLocked_spec [of s3 block2 s4] by (auto simp: d2_def fecDataShardsMax_def split: if_splits)
  have src: "\<forall>x \<in> set block1 \<union> set (fs_pending s3). src_seq x \<noteq> 0 \<and> src_payload x = src (src_seq x)"
    using one(1) assms(2) False three(1) by (auto simp: fec_inv_def)
  have "fec_inv src s4" using four assms(2) src by (auto simp: fec_inv_def)
  note e1 = emit_detached [OF 3 this less_imp_le [OF one(2)]]
  note e2 = emit_detached [OF 4 _ four(2)]
  show ?thesis using e1 e2 src four res by auto
qed

lemma fec_step_inv:
  assumes "fec_step rs s e = (s', out)" "fec_inv src s" "honest src e"
  shows "fec_inv src s' \<and> fs_extParity s' = fs_extParity s
    \<and> (\<forall>p \<in> set out. genuine rs src p \<and> ParityShards p < DataShards p \<and> Ext p = fs_extParity s)"
proof (cases e)
  case (Sent seq payload)
  then show ?thesis using fs_add_inv [of rs s seq src s' out] assms by simp
next
  case (Flush gen)
  obtain block s1 where d: "detachLocked s = (block, s1)" by (cases "detachLocked s")
  note f = detachLocked_spec [OF d]
  have i1: "fec_inv src s1" using f assms(2) by (auto simp: fec_inv_def fecDataShardsMax_def)
  have b: "length block \<le> fecDataShardsMax" "\<forall>x \<in> set block. src_seq x \<noteq> 0 \<and> src_payload x = src (src_seq x)"
    using f assms(2) by (auto simp: fec_inv_def)
  show ?thesis
  proof (cases "fs_closed s \<or> gen \<noteq> fs_flushGen s")
    case True
    then show ?thesis using assms Flush by (auto simp: flushTimer_def)
  next
    case False
    then have "emitBlock rs s1 block = (s', out)"
      using assms(1) Flush d by (simp add: flushTimer_def)
    then show ?thesis using emit_detached [OF _ i1 b] f by simp
  qed
next
  case (AckSeen r)
  then show ?thesis
    using assms observeOutcome_range [of "fa_local (fs_adaptive s)" r]
    by (auto simp: fec_inv_def fs_observeAck_def fa_observeAck_def)
next
  case (Feedback bp)
  then show ?thesis
    using assms observeValue_range [of "fa_remote (fs_adaptive s)"]
    by (auto simp: fec_inv_def fs_observeRemoteBasisPoints_def fa_observeRemote_def Let_def)
next
  case (Seeded v)
  then show ?thesis
    using assms observeValue_range [of "fa_local (fs_adaptive s)" v 1] by (auto simp: fec_inv_def seedLoss_def)
next
  case FecClosed
  then show ?thesis
    using assms by (cases "fs_closed s") (auto simp: fec_inv_def fs_close_def fecDataShardsMax_def)
qed

lemma fec_run_inv:
  assumes "fec_run rs s es = (s', out)" "fec_inv src s" "\<forall>e \<in> set es. honest src e"
  shows "fec_inv src s' \<and> fs_extParity s' = fs_extParity s
    \<and> (\<forall>p \<in> set out. genuine rs src p \<and> ParityShards p < DataShards p \<and> Ext p = fs_extParity s)"
  using assms
proof (induction es arbitrary: s out)
  case (Cons e es)
  obtain s1 out1 where 1: "fec_step rs s e = (s1, out1)" by (cases "fec_step rs s e")
  obtain s2 out2 where 2: "fec_run rs s1 es = (s2, out2)" by (cases "fec_run rs s1 es")
  have r: "s' = s2" "out = out1 @ out2" using Cons.prems(1) 1 2 by auto
  have i: "fec_inv src s1 \<and> fs_extParity s1 = fs_extParity s
      \<and> (\<forall>p \<in> set out1. genuine rs src p \<and> ParityShards p < DataShards p \<and> Ext p = fs_extParity s)"
    using fec_step_inv [OF 1 Cons.prems(2)] Cons.prems(3) by simp
  then show ?case using Cons.IH [of s1 out2] 2 r Cons.prems(3) by auto
qed simp

lemma fecShard_length:
  "length p \<le> n - fecLengthPrefixSize \<Longrightarrow> fecLengthPrefixSize \<le> n \<Longrightarrow> length (fecShard n p) = n"
  by (simp add: fecShard_def)

lemma block_shards_length:
  "length (block_shards src base k) = k" "x \<in> set (block_shards src base k) \<Longrightarrow> length x = block_size src base k"
  by (auto simp: block_shards_def block_payloads_def block_size_def intro!: fecShard_length maxPayloadOf_ge)

section \<open>Properties\<close>

text \<open>The FEC metadata that a sender packs into the header flags of a parity frame is what the
  receiver unpacks, for every block geometry of either encoding and whatever the other flags
  were; the packing succeeds exactly within the ranges of the encoding.\<close>

lemma fec_metadata_roundtrip:
  assumes "Cmd f = CMD_FEC" "unat (BaseSeq p) + DataShards p \<le> 2 ^ 64"
  shows "case applyToFrame p f of
     None \<Rightarrow> BaseSeq p = 0 \<or> DataShards p \<notin> {1..fecDataShardsMax}
       \<or> ParityShards p \<notin> {1..if Ext p then fecParityShardsExtMax else fecParityShardsMax}
       \<or> ParityShards p \<le> Index p \<or> length (ShardData p) \<notin> {fecLengthPrefixSize..UDPC_MAX_DATA}
   | Some g \<Rightarrow> parseFECParityFrameExt g (Ext p) = Inr (p\<lparr>Ext := False\<rparr>)"
proof (cases "applyToFrame p f")
  case None
  then show ?thesis
    by (simp add: applyToFrame_def Let_def not_less not_le split: if_splits)
next
  case (Some g)
  then show ?thesis using parse_applied [OF Some assms] by simp
qed

lemma fec_metadata_roundtrip_witness:
  "parseFECParityFrameExt (the (applyToFrame \<lparr> BaseSeq = 9, DataShards = 8, ParityShards = 7, Index = 5,
       ShardData = [1, 2, 3], Ext = True \<rparr> (sample_frame\<lparr>Cmd := CMD_FEC\<rparr>))) True
   = Inr \<lparr> BaseSeq = 9, DataShards = 8, ParityShards = 7, Index = 5, ShardData = [1, 2, 3], Ext = False \<rparr>"
  using fec_metadata_roundtrip [of "sample_frame\<lparr>Cmd := CMD_FEC\<rparr>"
      "\<lparr> BaseSeq = 9, DataShards = 8, ParityShards = 7, Index = 5, ShardData = [1, 2, 3], Ext = True \<rparr>"]
  by (simp add: fecDataShardsMax_def fecParityShardsExtMax_def size_defs split: option.splits)

text \<open>C26. A sender only emits parity of its own stream.  Through any sequence of sent records,
  flush timers, acknowledgements, feedback reports, seeding and closing, every parity shard is
  the code's parity of the consecutive records it names, with fewer parity than data shards
  and within the negotiated maximum; and the loss estimates stay between 0 and 1.\<close>

theorem fec_sender_genuine:
  assumes "\<forall>e \<in> set es. honest src e"
    and "fec_run rs (newFECSenderExt ext) es = (s, out)"
  shows "(\<forall>p \<in> set out. genuine rs src p \<and> ParityShards p < DataShards p \<and> Ext p = ext)
    \<and> 0 \<le> fa_local (fs_adaptive s) \<and> fa_local (fs_adaptive s) \<le> 1
    \<and> fa_loss (fs_adaptive s) \<le> max 1 (2 * fa_local (fs_adaptive s) + fecBootstrapLossRate)"
proof -
  have "fec_inv src s" "\<forall>p \<in> set out. genuine rs src p \<and> ParityShards p < DataShards p \<and> Ext p = ext"
    using fec_run_inv [OF assms(2) fec_inv_new assms(1)] by (auto simp: newFECSenderExt_def)
  then show ?thesis
    using fa_loss_bounds [of "fs_adaptive s"] by (auto simp: fec_inv_def)
qed

theorem fec_sender_genuine_witness:
  "let src = (\<lambda>q. [ucast q]); r = fec_run xor_codec (newFECSenderExt False) [Sent 1 [1], Sent 2 [2], Flush 1] in
     length (snd r) = 1 \<and> genuine xor_codec src (snd r ! 0)"
proof -
  define src where "src = (\<lambda>q :: uint64. [ucast q :: byte])"
  define es where "es = [Sent 1 [1], Sent 2 [2], Flush 1]"
  obtain s out where r: "fec_run xor_codec (newFECSenderExt False) es = (s, out)"
    by (cases "fec_run xor_codec (newFECSenderExt False) es")
  have h: "\<forall>e \<in> set es. honest src e" by (simp add: es_def src_def)
  have "length (snd (fec_run xor_codec (newFECSenderExt False) es)) = 1"
    unfolding es_def by code_simp
  then show ?thesis
    using fec_sender_genuine [OF h r] r nth_mem [of 0 out] by (simp add: es_def src_def)
qed

end
