(* ===== verification/FecReceiver.thy ===== *)
theory FecReceiver
  imports Fec "HOL-Library.AList"
begin

text \<open>
  Adaptive forward error correction, receiving side (\<^verbatim>\<open>src/tunnel/fec.go\<close>): the cache of recent
  records, the blocks waiting for shards, reconstruction, and the pruning of both.

  Maps are association lists with distinct keys; a loop over a map visits the list in order, so
  a statement about every list covers every iteration order of the Go runtime.
\<close>

section \<open>Definitions\<close>

definition fecRecentDataLimit :: uint64 where "fecRecentDataLimit = 64"
definition fecRecentDataHardLimit :: nat where "fecRecentDataHardLimit = 2 * 64"
definition fecMaxPendingBlocks :: nat where "fecMaxPendingBlocks = 16"
definition fecBlockTTL :: duration where "fecBlockTTL = 2 * second"

type_synonym fecRecovered = "uint64 \<times> bytes"

record fecRecvBlock =
  rb_baseSeq :: uint64
  rb_dataShards :: nat
  rb_parityShards :: nat
  rb_shardSize :: nat
  rb_parity :: "bytes option list"
  rb_updatedAt :: int

record fecReceiver =
  fr_recent :: "(uint64 \<times> bytes) list"
  fr_highest :: uint64
  fr_lastPrune :: uint64
  fr_blocks :: "(uint64 \<times> fecRecvBlock) list"
  fr_loss :: fecLossEstimator
  fr_extParity :: bool

definition newFECReceiverExt :: "bool \<Rightarrow> fecReceiver" where
  "newFECReceiverExt extParity = \<lparr> fr_recent = [], fr_highest = 0, fr_lastPrune = 0, fr_blocks = [],
     fr_loss = 0, fr_extParity = extParity \<rparr>"

definition feedbackBasisPoints :: "fecReceiver \<Rightarrow> uint16" where
  "feedbackBasisPoints r = basisPoints (fr_loss r)"

definition cacheRecent :: "uint64 \<Rightarrow> bytes \<Rightarrow> fecReceiver \<Rightarrow> fecReceiver" where
  "cacheRecent seq payload r = r\<lparr>fr_recent := (seq, payload) # AList.delete seq (fr_recent r)\<rparr>"

definition deleteBlock :: "uint64 \<Rightarrow> fecReceiver \<Rightarrow> fecReceiver" where
  "deleteBlock base r = r\<lparr>fr_blocks := AList.delete base (fr_blocks r)\<rparr>"

subsection \<open>Pruning\<close>

definition minSeq :: "(uint64 \<times> 'a) list \<Rightarrow> uint64" where
  "minSeq xs = fold (\<lambda>(seq, _) lo. if seq < lo then seq else lo) xs (- 1)"

lemma minSeq_mem:
  assumes "xs \<noteq> []"
  shows "minSeq xs \<in> fst ` set xs"
proof -
  define f where "f = (\<lambda>(seq, _ :: 'a) lo. if seq < lo then seq else lo :: uint64)"
  have "fold f ys lo = lo \<and> (\<forall>y \<in> set ys. lo \<le> fst y) \<or> fold f ys lo \<in> fst ` set ys" for ys lo
  proof (induction ys arbitrary: lo)
    case (Cons y ys)
    have "f y lo = lo \<and> lo \<le> fst y \<or> f y lo = fst y" by (cases y) (auto simp: f_def)
    then show ?case using Cons [of "f y lo"] by auto
  qed simp
  then consider "minSeq xs = - 1" "\<forall>y \<in> set xs. - 1 \<le> fst y" | "minSeq xs \<in> fst ` set xs"
    unfolding minSeq_def f_def by blast
  then show ?thesis
  proof cases
    case 1
    obtain x where x: "x \<in> set xs" using assms by (cases xs) auto
    with 1 have "fst x = - 1" by (simp add: word_order.extremum_unique)
    with 1 x show ?thesis by force
  qed
qed

function evictRecent :: "(uint64 \<times> bytes) list \<Rightarrow> (uint64 \<times> bytes) list" where
  "evictRecent rec = (if length rec > fecRecentDataHardLimit then evictRecent (AList.delete (minSeq rec) rec) else rec)"
  by pat_completeness auto

termination
proof (relation "measure length")
  fix rec :: "(uint64 \<times> bytes) list"
  assume "length rec > fecRecentDataHardLimit"
  then have "rec \<noteq> []" by (auto simp: fecRecentDataHardLimit_def)
  then show "(AList.delete (minSeq rec) rec, rec) \<in> measure length"
    using delete_shorter [OF minSeq_mem] by simp
qed simp

definition pruneRecentLocked :: "fecReceiver \<Rightarrow> fecReceiver" where
  "pruneRecentLocked r = (
     let r1 = (if fr_highest r > fecRecentDataLimit \<and> fr_highest r - fr_lastPrune r \<ge> of_nat fecDataShardsMax
               then r\<lparr>fr_recent := filter (\<lambda>(seq, _). \<not> seq < fr_highest r - fecRecentDataLimit) (fr_recent r),
                      fr_lastPrune := fr_highest r\<rparr>
               else r)
     in r1\<lparr>fr_recent := evictRecent (fr_recent r1)\<rparr>)"

fun oldestBlock :: "(uint64 \<times> int) option \<Rightarrow> (uint64 \<times> fecRecvBlock) list \<Rightarrow> uint64" where
  "oldestBlock None [] = 0"
| "oldestBlock (Some (base, _)) [] = base"
| "oldestBlock None ((base, b) # bs) = oldestBlock (Some (base, rb_updatedAt b)) bs"
| "oldestBlock (Some (base', t)) ((base, b) # bs) =
     oldestBlock (if rb_updatedAt b < t then Some (base, rb_updatedAt b) else Some (base', t)) bs"

lemma oldestBlock_mem:
  "oldestBlock (Some (base, t)) bs \<in> insert base (fst ` set bs)"
proof (induction bs arbitrary: base t)
  case (Cons x bs)
  obtain a b where "x = (a, b)" by (cases x)
  then show ?case using Cons [of a "rb_updatedAt b"] Cons [of base t] by simp blast
qed simp

function evictBlocks :: "(uint64 \<times> fecRecvBlock) list \<Rightarrow> (uint64 \<times> fecRecvBlock) list" where
  "evictBlocks bs = (if length bs > fecMaxPendingBlocks then evictBlocks (AList.delete (oldestBlock None bs) bs) else bs)"
  by pat_completeness auto

termination
proof (relation "measure length")
  fix bs :: "(uint64 \<times> fecRecvBlock) list"
  assume "length bs > fecMaxPendingBlocks"
  then obtain base b bs' where "bs = (base, b) # bs'" by (cases bs) auto
  then have "oldestBlock None bs \<in> fst ` set bs" using oldestBlock_mem by auto
  then show "(AList.delete (oldestBlock None bs) bs, bs) \<in> measure length"
    using delete_shorter by simp
qed simp

declare evictRecent.simps [simp del] evictBlocks.simps [simp del]

definition pruneBlocksLocked :: "int \<Rightarrow> fecReceiver \<Rightarrow> fecReceiver" where
  "pruneBlocksLocked now r = r\<lparr>fr_blocks :=
     evictBlocks (filter (\<lambda>(_, b). \<not> now - rb_updatedAt b > fecBlockTTL) (fr_blocks r))\<rparr>"

subsection \<open>Reconstruction\<close>

definition blockSeq :: "fecRecvBlock \<Rightarrow> nat \<Rightarrow> uint64" where
  "blockSeq b i = rb_baseSeq b + of_nat i"

text \<open>The loop that cuts the payloads out of the reconstructed shards.  An early return keeps the
  payloads already cached.\<close>

fun recoverLoop :: "fecRecvBlock \<Rightarrow> bytes list \<Rightarrow> nat list \<Rightarrow> fecReceiver \<Rightarrow> fecReceiver \<times> fecRecovered list option" where
  "recoverLoop b shards [] r = (r, Some [])"
| "recoverLoop b shards (idx # rest) r = (
     let shard = shards ! idx in
     if length shard \<noteq> rb_shardSize b then (r, None)
     else (let n = unat (get_be (take fecLengthPrefixSize shard) :: uint16) in
       if n > rb_shardSize b - fecLengthPrefixSize then (r, None)
       else (let payload = bslice fecLengthPrefixSize (fecLengthPrefixSize + n) shard in
         case recoverLoop b shards rest (cacheRecent (blockSeq b idx) payload r) of
           (r', None) \<Rightarrow> (r', None)
         | (r', Some out) \<Rightarrow> (r', Some ((blockSeq b idx, payload) # out)))))"

definition missingShards :: "fecReceiver \<Rightarrow> fecRecvBlock \<Rightarrow> nat list" where
  "missingShards r b = filter (\<lambda>i. map_of (fr_recent r) (blockSeq b i) = None) [0..<rb_dataShards b]"

definition blockShards :: "fecReceiver \<Rightarrow> fecRecvBlock \<Rightarrow> bytes option list" where
  "blockShards r b = map (\<lambda>i. map_option (fecShard (rb_shardSize b)) (map_of (fr_recent r) (blockSeq b i))) [0..<rb_dataShards b]
     @ rb_parity b"

text \<open>The code counts the available shards before it builds them and again while it does, on the
  same state; the model has the check once.\<close>

definition tryRecoverLocked :: "rs_codec \<Rightarrow> fecReceiver \<Rightarrow> fecRecvBlock \<Rightarrow> fecReceiver \<times> fecRecovered list" where
  "tryRecoverLocked rs r b = (
     let missing = missingShards r b;
         available = (rb_dataShards b - length missing) + length (filter (\<lambda>p. p \<noteq> None) (rb_parity b))
     in if list_ex (\<lambda>i. case map_of (fr_recent r) (blockSeq b i) of None \<Rightarrow> False
             | Some payload \<Rightarrow> length payload > rb_shardSize b - fecLengthPrefixSize) [0..<rb_dataShards b] then (r, [])
        else if missing = [] then (deleteBlock (rb_baseSeq b) r, [])
        else if available < rb_dataShards b \<or> length missing > rb_parityShards b then (r, [])
        else (case rs_reconstruct rs (rb_dataShards b) (rb_parityShards b) (blockShards r b) of
            None \<Rightarrow> (r, [])
          | Some shards \<Rightarrow> (case recoverLoop b shards missing r of
                (r', None) \<Rightarrow> (r', [])
              | (r', Some out) \<Rightarrow>
                  (deleteBlock (rb_baseSeq b) (r'\<lparr>fr_loss := observeOutcome (fr_loss r') True\<rparr>), out))))"

subsection \<open>Arrivals\<close>

definition tryBlock :: "rs_codec \<Rightarrow> uint64 \<Rightarrow> fecRecvBlock \<Rightarrow> fecReceiver \<times> fecRecovered list \<Rightarrow> fecReceiver \<times> fecRecovered list" where
  "tryBlock rs seq b st = (case st of (r, out) \<Rightarrow>
     if seq \<ge> rb_baseSeq b \<and> seq < rb_baseSeq b + of_nat (rb_dataShards b)
     then (case tryRecoverLocked rs r b of (r', out') \<Rightarrow> (r', out @ out'))
     else (r, out))"

definition onData :: "rs_codec \<Rightarrow> fecReceiver \<Rightarrow> uint64 \<Rightarrow> bytes \<Rightarrow> int \<Rightarrow> fecReceiver \<times> fecRecovered list" where
  "onData rs r seq payload now = (
     if seq = 0 then (r, [])
     else (let r1 = (if map_of (fr_recent r) seq = None
                     then (cacheRecent seq payload r)\<lparr>fr_loss := observeOutcome (fr_loss r) False,
                            fr_highest := (if seq > fr_highest r then seq else fr_highest r)\<rparr>
                     else r);
               r2 = pruneRecentLocked r1
           in case fold (\<lambda>(_, b). tryBlock rs seq b) (fr_blocks r2) (r2, []) of
                (r3, out) \<Rightarrow> (pruneBlocksLocked now r3, sort_key fst out)))"

definition newBlock :: "fecParityShard \<Rightarrow> int \<Rightarrow> fecRecvBlock" where
  "newBlock p now = \<lparr> rb_baseSeq = BaseSeq p, rb_dataShards = DataShards p, rb_parityShards = ParityShards p,
     rb_shardSize = length (ShardData p), rb_parity = replicate (ParityShards p) None, rb_updatedAt = now \<rparr>"

definition addParity :: "fecParityShard \<Rightarrow> int \<Rightarrow> fecRecvBlock \<Rightarrow> fecRecvBlock" where
  "addParity p now b = b\<lparr>rb_updatedAt := now,
     rb_parity := (if rb_parity b ! Index p = None then (rb_parity b)[Index p := Some (ShardData p)] else rb_parity b)\<rparr>"

definition storeBlock :: "fecRecvBlock \<Rightarrow> fecReceiver \<Rightarrow> fecReceiver" where
  "storeBlock b r = r\<lparr>fr_blocks := (rb_baseSeq b, b) # AList.delete (rb_baseSeq b) (fr_blocks r)\<rparr>"

definition onParityFrame :: "rs_codec \<Rightarrow> fecReceiver \<Rightarrow> UDPCFrame \<Rightarrow> int \<Rightarrow> fecReceiver \<times> fecRecovered list" where
  "onParityFrame rs r frame now = (case parseFECParityFrameExt frame (fr_extParity r) of
     Inl _ \<Rightarrow> (r, [])
   | Inr p \<Rightarrow>
       (let b = (case map_of (fr_blocks r) (BaseSeq p) of None \<Rightarrow> newBlock p now | Some b \<Rightarrow> b) in
        if rb_dataShards b \<noteq> DataShards p \<or> rb_parityShards b \<noteq> ParityShards p \<or> rb_shardSize b \<noteq> length (ShardData p)
        then (r, [])
        else (let b' = addParity p now b in
          case tryRecoverLocked rs (storeBlock b' r) b' of
            (r', out) \<Rightarrow> (pruneBlocksLocked now r', sort_key fst out))))"

subsection \<open>Vocabulary of the properties\<close>

text \<open>A shard list of which some entries may be missing.\<close>

definition erasure :: "bytes option list \<Rightarrow> bytes list \<Rightarrow> bool" where
  "erasure xs full \<longleftrightarrow> length xs = length full \<and> (\<forall>i < length full. xs ! i = None \<or> xs ! i = Some (full ! i))"

text \<open>What the library documents for a geometry: encoding shards of one size gives parity shards of
  that size, and any \<open>k\<close> of the \<open>k + m\<close> shards determine the data shards.\<close>

definition mds :: "rs_codec \<Rightarrow> nat \<Rightarrow> nat \<Rightarrow> bool" where
  "mds rs k m \<longleftrightarrow> (\<forall>data n. length data = k \<and> 0 < n \<and> (\<forall>x \<in> set data. length x = n) \<longrightarrow>
     (\<exists>parity. rs_encode rs k m data = Some parity \<and> length parity = m \<and> (\<forall>x \<in> set parity. length x = n)
        \<and> (\<forall>shards. erasure shards (data @ parity) \<and> k \<le> length (filter (\<lambda>x. x \<noteq> None) shards)
             \<longrightarrow> rs_reconstruct rs k m shards = Some data)))"

text \<open>A waiting block whose parity belongs to the stream.\<close>

definition block_ok :: "rs_codec \<Rightarrow> (uint64 \<Rightarrow> bytes) \<Rightarrow> fecRecvBlock \<Rightarrow> bool" where
  "block_ok rs src b \<longleftrightarrow> mds rs (rb_dataShards b) (rb_parityShards b)
     \<and> rb_shardSize b = block_size src (rb_baseSeq b) (rb_dataShards b) \<and> rb_shardSize b \<le> UDPC_MAX_DATA
     \<and> (\<exists>parity. rs_encode rs (rb_dataShards b) (rb_parityShards b) (block_shards src (rb_baseSeq b) (rb_dataShards b)) = Some parity
          \<and> erasure (rb_parity b) parity)"

definition recent_ok :: "(uint64 \<Rightarrow> bytes) \<Rightarrow> fecReceiver \<Rightarrow> bool" where
  "recent_ok src r \<longleftrightarrow> (\<forall>seq p. map_of (fr_recent r) seq = Some p \<longrightarrow> p = src seq)"

definition recv_inv :: "rs_codec \<Rightarrow> (uint64 \<Rightarrow> bytes) \<Rightarrow> fecReceiver \<Rightarrow> bool" where
  "recv_inv rs src r \<longleftrightarrow> recent_ok src r \<and> distinct (map fst (fr_blocks r))
     \<and> (\<forall>(base, b) \<in> set (fr_blocks r). rb_baseSeq b = base \<and> block_ok rs src b)"

text \<open>No waiting block has more data shards than the encoding allows.\<close>

definition small_blocks :: "(uint64 \<times> fecRecvBlock) list \<Rightarrow> bool" where
  "small_blocks bs \<longleftrightarrow> (\<forall>(_, b) \<in> set bs. rb_dataShards b \<le> fecDataShardsMax)"

datatype fec_arrival = DataArrival uint64 bytes int | ParityArrival UDPCFrame int

fun arrival_step :: "rs_codec \<Rightarrow> fecReceiver \<Rightarrow> fec_arrival \<Rightarrow> fecReceiver \<times> fecRecovered list" where
  "arrival_step rs r (DataArrival seq payload now) = onData rs r seq payload now"
| "arrival_step rs r (ParityArrival frame now) = onParityFrame rs r frame now"

fun arrival_run :: "rs_codec \<Rightarrow> fecReceiver \<Rightarrow> fec_arrival list \<Rightarrow> fecReceiver \<times> fecRecovered list" where
  "arrival_run rs r [] = (r, [])"
| "arrival_run rs r (e # es) = (case arrival_step rs r e of (r', out) \<Rightarrow>
     (case arrival_run rs r' es of (r'', out') \<Rightarrow> (r'', out @ out')))"

text \<open>An arrival from a peer that sends its stream and parity of its stream: a frame that parses
  carries genuine parity of a geometry the code handles.\<close>

fun genuine_arrival :: "rs_codec \<Rightarrow> (uint64 \<Rightarrow> bytes) \<Rightarrow> bool \<Rightarrow> fec_arrival \<Rightarrow> bool" where
  "genuine_arrival rs src ext (DataArrival seq payload now) \<longleftrightarrow> payload = src seq"
| "genuine_arrival rs src ext (ParityArrival frame now) \<longleftrightarrow> (case parseFECParityFrameExt frame ext of
     Inl _ \<Rightarrow> True
   | Inr p \<Rightarrow> genuine rs src (p\<lparr>Ext := ext\<rparr>) \<and> mds rs (DataShards p) (ParityShards p))"

text \<open>The stream and the parity frame of the witnesses: records 1 and 2 and their parity.\<close>

definition sample_src :: "uint64 \<Rightarrow> bytes" where
  "sample_src q = [ucast q]"

definition sample_parity :: fecParityShard where
  "sample_parity = \<lparr> BaseSeq = 1, DataShards = 2, ParityShards = 1, Index = 0, ShardData = [0, 0, 3], Ext = False \<rparr>"

definition sample_parity_frame :: UDPCFrame where
  "sample_parity_frame = sample_frame\<lparr>Cmd := CMD_FEC, Seq := 1, Flags := 16, Data := [0, 0, 3]\<rparr>"

text \<open>A parity frame of a block of one record: it recovers the record by itself.\<close>

definition lone_parity :: "bytes \<Rightarrow> uint64 \<Rightarrow> UDPCFrame" where
  "lone_parity d base = sample_frame\<lparr>Cmd := CMD_FEC, Seq := base, Flags := 0, Data := d\<rparr>"

section \<open>Lemmas\<close>

subsection \<open>Shards\<close>

lemma fecShard_decode:
  assumes "length p \<le> n - fecLengthPrefixSize" "n \<le> UDPC_MAX_DATA"
  shows "unat (get_be (take fecLengthPrefixSize (fecShard n p)) :: uint16) = length p"
    and "bslice fecLengthPrefixSize (fecLengthPrefixSize + length p) (fecShard n p) = p"
proof -
  have "length p < 65536" using assms by (simp add: size_defs)
  then show "unat (get_be (take fecLengthPrefixSize (fecShard n p)) :: uint16) = length p"
    by (simp add: fecShard_def fecLengthPrefixSize_def unat_of_nat take_bit_eq_mod)
  show "bslice fecLengthPrefixSize (fecLengthPrefixSize + length p) (fecShard n p) = p"
    by (simp add: fecShard_def bslice_def)
qed

lemma src_fits: "i < k \<Longrightarrow> length (src (base + of_nat i)) \<le> block_size src base k - fecLengthPrefixSize"
  by (auto simp: block_size_def block_payloads_def intro!: maxPayloadOf_ge)

lemma block_size_ge: "fecLengthPrefixSize \<le> block_size src base k"
  by (simp add: block_size_def)

lemma block_shards_nth: "i < k \<Longrightarrow> block_shards src base k ! i = fecShard (block_size src base k) (src (base + of_nat i))"
  by (simp add: block_shards_def block_payloads_def)

subsection \<open>The cache\<close>

lemma map_of_cacheRecent: "map_of (fr_recent (cacheRecent seq p r)) = (map_of (fr_recent r))(seq \<mapsto> p)"
  by (rule ext) (simp add: cacheRecent_def delete_conv)

lemma cacheRecent_fields [simp]:
  "fr_blocks (cacheRecent seq p r) = fr_blocks r" "fr_extParity (cacheRecent seq p r) = fr_extParity r"
  by (simp_all add: cacheRecent_def)

lemma fold_cacheRecent_fields [simp]:
  "fr_blocks (fold (\<lambda>i. cacheRecent (f i) (g i)) is r) = fr_blocks r"
  "fr_extParity (fold (\<lambda>i. cacheRecent (f i) (g i)) is r) = fr_extParity r"
  by (induction "is" arbitrary: r) simp_all

lemma map_of_fold_cacheRecent:
  "map_of (fr_recent (fold (\<lambda>i. cacheRecent (f i) (src (f i))) is r)) seq
     = (if seq \<in> f ` set is then Some (src seq) else map_of (fr_recent r) seq)"
  by (induction "is" arbitrary: r) (auto simp: map_of_cacheRecent)

lemma recent_okD: "recent_ok src r \<Longrightarrow> map_of (fr_recent r) seq = Some p \<Longrightarrow> p = src seq"
  by (simp add: recent_ok_def)

lemma recent_ok_cong: "fr_recent r = fr_recent r' \<Longrightarrow> recent_ok src r \<longleftrightarrow> recent_ok src r'"
  by (simp only: recent_ok_def)

lemma recent_ok_cache: "recent_ok src r \<Longrightarrow> recent_ok src (cacheRecent seq (src seq) r)"
  by (auto simp: recent_ok_def map_of_cacheRecent)

lemma map_of_filter_key: "map_of (filter (\<lambda>(k, _). Q k) xs) k = (if Q k then map_of xs k else None)"
  by (induction xs) auto

lemma evictRecent_sub: "map_of (evictRecent xs) k = Some v \<Longrightarrow> map_of xs k = Some v"
proof (induction xs rule: evictRecent.induct)
  case (1 xs)
  have "evictRecent xs = (if length xs > fecRecentDataHardLimit then evictRecent (AList.delete (minSeq xs) xs) else xs)"
    by (rule evictRecent.simps)
  then show ?case
    using 1 by (auto simp: delete_conv split: if_splits)
qed

lemma evictRecent_length: "length (evictRecent xs) \<le> fecRecentDataHardLimit"
proof (induction xs rule: evictRecent.induct)
  case (1 xs)
  then show ?case by (subst evictRecent.simps) simp
qed

lemma evictBlocks_sub: "set (evictBlocks bs) \<subseteq> set bs \<and> (distinct (map fst bs) \<longrightarrow> distinct (map fst (evictBlocks bs)))"
proof (induction bs rule: evictBlocks.induct)
  case (1 bs)
  have "evictBlocks bs = (if length bs > fecMaxPendingBlocks then evictBlocks (AList.delete (oldestBlock None bs) bs) else bs)"
    by (rule evictBlocks.simps)
  moreover have "set (AList.delete (oldestBlock None bs) bs) \<subseteq> set bs"
    by (auto simp: AList.delete_eq)
  ultimately show ?case
    using "1.IH" distinct_delete [of bs "oldestBlock None bs"] by auto
qed

lemma evictBlocks_length: "length (evictBlocks bs) \<le> fecMaxPendingBlocks"
proof (induction bs rule: evictBlocks.induct)
  case (1 bs)
  then show ?case by (subst evictBlocks.simps) simp
qed

lemma pruneRecentLocked_fields [simp]:
  "fr_blocks (pruneRecentLocked r) = fr_blocks r" "fr_extParity (pruneRecentLocked r) = fr_extParity r"
  "length (fr_recent (pruneRecentLocked r)) \<le> fecRecentDataHardLimit"
  by (simp_all add: pruneRecentLocked_def Let_def evictRecent_length)

lemma recent_ok_prune: "recent_ok src r \<Longrightarrow> recent_ok src (pruneRecentLocked r)"
  by (auto simp: recent_ok_def pruneRecentLocked_def Let_def map_of_filter_key split: if_splits dest!: evictRecent_sub)

lemma pruneBlocksLocked_fields [simp]:
  "fr_recent (pruneBlocksLocked now r) = fr_recent r" "fr_extParity (pruneBlocksLocked now r) = fr_extParity r"
  "length (fr_blocks (pruneBlocksLocked now r)) \<le> fecMaxPendingBlocks"
  by (simp_all add: pruneBlocksLocked_def evictBlocks_length)

subsection \<open>Reconstruction\<close>

lemma recoverLoop_genuine:
  assumes "\<forall>i \<in> set is. shards ! i = fecShard n (src (blockSeq b i)) \<and> length (src (blockSeq b i)) \<le> n - fecLengthPrefixSize"
    and "rb_shardSize b = n" "fecLengthPrefixSize \<le> n" "n \<le> UDPC_MAX_DATA"
  shows "recoverLoop b shards is r
    = (fold (\<lambda>i. cacheRecent (blockSeq b i) (src (blockSeq b i))) is r, Some (map (\<lambda>i. (blockSeq b i, src (blockSeq b i))) is))"
  using assms(1)
proof (induction "is" arbitrary: r)
  case (Cons i "is")
  have s: "shards ! i = fecShard n (src (blockSeq b i))" "length (src (blockSeq b i)) \<le> n - fecLengthPrefixSize"
    using Cons.prems by auto
  note d = fecShard_decode [OF s(2) assms(4)]
  show ?case
    using Cons.IH [of "cacheRecent (blockSeq b i) (src (blockSeq b i)) r"] Cons.prems s(2)
    by (simp add: s(1) Let_def d assms(2) fecShard_length assms(3))
qed simp

lemma length_filter_map_option:
  "length (filter (\<lambda>x. x \<noteq> None) (map (\<lambda>i. map_option g (f i)) is)) = length is - length (filter (\<lambda>i. f i = None) is)"
proof -
  have "length (filter (\<lambda>x. x \<noteq> None) (map (\<lambda>i. map_option g (f i)) is)) = length (filter (\<lambda>i. \<not> f i = None) is)"
    by (induction "is") auto
  then show ?thesis using sum_length_filter_compl [of "\<lambda>i. f i = None" "is"] by simp
qed

lemma blockShards_erasure:
  assumes "recent_ok src r" "rb_shardSize b = block_size src (rb_baseSeq b) (rb_dataShards b)" "erasure (rb_parity b) parity"
  shows "erasure (blockShards r b) (block_shards src (rb_baseSeq b) (rb_dataShards b) @ parity)"
proof -
  have "blockShards r b ! i = None
      \<or> blockShards r b ! i = Some ((block_shards src (rb_baseSeq b) (rb_dataShards b) @ parity) ! i)"
    if "i < rb_dataShards b" for i
    using assms(1,2) that
    by (cases "map_of (fr_recent r) (rb_baseSeq b + of_nat i)")
      (auto simp: blockShards_def blockSeq_def nth_append block_shards_nth block_shards_length recent_ok_def)
  then show ?thesis
    using assms(3) by (auto simp: erasure_def blockShards_def nth_append block_shards_length)
qed

text \<open>Reconstruction of a block of the stream: exactly when there is enough parity, and exactly the
  missing records.\<close>

lemma tryRecoverLocked_ok:
  assumes "block_ok rs src b" "recent_ok src r"
  defines "missing \<equiv> missingShards r b"
    and "held \<equiv> length (filter (\<lambda>p. p \<noteq> None) (rb_parity b))"
  shows "tryRecoverLocked rs r b = (
     if missing = [] then (deleteBlock (rb_baseSeq b) r, [])
     else if held < length missing then (r, [])
     else (let r' = fold (\<lambda>i. cacheRecent (blockSeq b i) (src (blockSeq b i))) missing r
           in deleteBlock (rb_baseSeq b) (r'\<lparr>fr_loss := observeOutcome (fr_loss r') True\<rparr>),
        map (\<lambda>i. (blockSeq b i, src (blockSeq b i))) missing))"
proof -
  define k m n where "k = rb_dataShards b" and "m = rb_parityShards b" and "n = rb_shardSize b"
  obtain parity where parity: "rs_encode rs k m (block_shards src (rb_baseSeq b) k) = Some parity" "erasure (rb_parity b) parity"
    and n: "n = block_size src (rb_baseSeq b) k" "n \<le> UDPC_MAX_DATA" and mds: "mds rs k m"
    using assms(1) by (auto simp: block_ok_def k_def m_def n_def)
  have n2: "fecLengthPrefixSize \<le> n" "0 < n" using block_size_ge [of src "rb_baseSeq b" k] n(1) by (auto simp: fecLengthPrefixSize_def)
  obtain parity' where p': "rs_encode rs k m (block_shards src (rb_baseSeq b) k) = Some parity'" "length parity' = m"
    and rec: "\<And>shards. erasure shards (block_shards src (rb_baseSeq b) k @ parity') \<Longrightarrow>
        k \<le> length (filter (\<lambda>x. x \<noteq> None) shards) \<Longrightarrow> rs_reconstruct rs k m shards = Some (block_shards src (rb_baseSeq b) k)"
    using mds block_shards_length [where src = src and base = "rb_baseSeq b" and k = k] n2(2) n(1) unfolding mds_def by metis
  have pm: "length (rb_parity b) = m" "parity' = parity" using parity p' by (auto simp: erasure_def)
  have fits: "length (src (blockSeq b i)) \<le> n - fecLengthPrefixSize" if "i < k" for i
    using src_fits [OF that, of src "rb_baseSeq b"] n(1) by (simp add: blockSeq_def)
  have big: "\<not> list_ex (\<lambda>i. case map_of (fr_recent r) (blockSeq b i) of None \<Rightarrow> False
      | Some payload \<Rightarrow> length payload > rb_shardSize b - fecLengthPrefixSize) [0..<rb_dataShards b]"
    using fits by (auto simp: list_ex_iff k_def n_def not_less split: option.splits dest!: recent_okD [OF assms(2)])
  have miss: "length missing \<le> k" "set missing \<subseteq> {..<k}"
    unfolding missing_def missingShards_def k_def using length_filter_le [of _ "[0..<rb_dataShards b]"] by auto
  have held: "held \<le> m" unfolding held_def pm(1) [symmetric] by (rule length_filter_le)
  have reconstruct: "rs_reconstruct rs k m (blockShards r b) = Some (block_shards src (rb_baseSeq b) k)" if "length missing \<le> held"
  proof (rule rec)
    show "erasure (blockShards r b) (block_shards src (rb_baseSeq b) k @ parity')"
      using blockShards_erasure [OF assms(2)] n(1) parity(2) pm by (simp add: k_def n_def)
    show "k \<le> length (filter (\<lambda>x. x \<noteq> None) (blockShards r b))"
      using that miss
      unfolding blockShards_def filter_append length_append length_filter_map_option held_def missing_def
        missingShards_def k_def by simp
  qed
  have loop: "recoverLoop b (block_shards src (rb_baseSeq b) k) missing r
      = (fold (\<lambda>i. cacheRecent (blockSeq b i) (src (blockSeq b i))) missing r, Some (map (\<lambda>i. (blockSeq b i, src (blockSeq b i))) missing))"
    by (rule recoverLoop_genuine [where n = n])
      (use miss fits n n2 in \<open>auto simp: block_shards_nth blockSeq_def n_def\<close>)
  show ?thesis
  proof (cases "missing = []")
    case True
    then show ?thesis using big unfolding tryRecoverLocked_def missing_def [symmetric] Let_def by simp
  next
    case False
    show ?thesis
    proof (cases "held < length missing")
      case True
      then have "(rb_dataShards b - length missing) + held < rb_dataShards b"
        using miss by (simp add: k_def)
      then show ?thesis
        using big False True unfolding tryRecoverLocked_def missing_def [symmetric] held_def [symmetric] Let_def by simp
    next
      case enough: False
      then have "\<not> (rb_dataShards b - length missing) + held < rb_dataShards b" "\<not> length missing > rb_parityShards b"
        using miss held by (auto simp: k_def m_def)
      then show ?thesis
        using big False enough reconstruct loop
        unfolding tryRecoverLocked_def missing_def [symmetric] held_def [symmetric] Let_def k_def m_def by simp
    qed
  qed
qed

subsection \<open>Invariants\<close>

lemma recv_inv_new: "recv_inv rs src (newFECReceiverExt ext)"
  by (simp add: recv_inv_def recent_ok_def newFECReceiverExt_def)

lemma recv_invD:
  assumes "recv_inv rs src r"
  shows "recent_ok src r" "distinct (map fst (fr_blocks r))"
    and "(base, b) \<in> set (fr_blocks r) \<Longrightarrow> rb_baseSeq b = base \<and> block_ok rs src b"
  using assms by (auto simp: recv_inv_def)

lemma recv_inv_sub:
  assumes "recv_inv rs src r" "recent_ok src r'" "set (fr_blocks r') \<subseteq> set (fr_blocks r)" "distinct (map fst (fr_blocks r'))"
  shows "recv_inv rs src r'"
  using assms by (auto simp: recv_inv_def)

lemma recv_inv_delete: "recv_inv rs src r \<Longrightarrow> recv_inv rs src (deleteBlock base r)"
  by (rule recv_inv_sub [of rs src r]) (auto simp: recv_inv_def recent_ok_def deleteBlock_def AList.delete_eq distinct_map_filter)

lemma recv_inv_pruneBlocks: "recv_inv rs src r \<Longrightarrow> recv_inv rs src (pruneBlocksLocked now r)"
  by (rule recv_inv_sub [of rs src r])
    (use evictBlocks_sub [of "filter (\<lambda>(_, b). \<not> now - rb_updatedAt b > fecBlockTTL) (fr_blocks r)"] in
      \<open>auto simp: recv_inv_def recent_ok_def pruneBlocksLocked_def distinct_map_filter\<close>)

lemma tryRecoverLocked_inv:
  assumes "block_ok rs src b" "recv_inv rs src r" "tryRecoverLocked rs r b = (r', out)"
  shows "recv_inv rs src r' \<and> fr_extParity r' = fr_extParity r \<and> (\<forall>(seq, p) \<in> set out. p = src seq)"
proof -
  define r1 where "r1 = fold (\<lambda>i. cacheRecent (blockSeq b i) (src (blockSeq b i))) (missingShards r b) r"
  have "recent_ok src r1"
    using recv_invD(1) [OF assms(2)] by (auto simp: recent_ok_def r1_def map_of_fold_cacheRecent split: if_splits)
  then have "recent_ok src (r1\<lparr>fr_loss := l\<rparr>)" for l by (simp add: recent_ok_def)
  moreover have "fr_blocks r1 = fr_blocks r" by (simp add: r1_def)
  ultimately have i1: "recv_inv rs src (r1\<lparr>fr_loss := l\<rparr>)" for l
    using recv_inv_sub [OF assms(2)] recv_invD(2) [OF assms(2)] by simp
  have x1: "fr_extParity r1 = fr_extParity r" by (simp add: r1_def)
  note t = assms(3) [unfolded tryRecoverLocked_ok [OF assms(1) recv_invD(1) [OF assms(2)]] Let_def r1_def [symmetric]]
  consider "r' = deleteBlock (rb_baseSeq b) r" "out = []" | "r' = r" "out = []"
    | "r' = deleteBlock (rb_baseSeq b) (r1\<lparr>fr_loss := observeOutcome (fr_loss r1) True\<rparr>)"
      "out = map (\<lambda>i. (blockSeq b i, src (blockSeq b i))) (missingShards r b)"
    using t by (auto split: if_split_asm)
  then show ?thesis
  proof cases
    case 1
    then show ?thesis using recv_inv_delete [OF assms(2)] by (simp add: deleteBlock_def)
  next
    case 2
    then show ?thesis using assms(2) by simp
  next
    case 3
    then show ?thesis using recv_inv_delete [OF i1] x1 by (auto simp: deleteBlock_def)
  qed
qed

lemma tryBlock_inv:
  assumes "block_ok rs src b" "recv_inv rs src r" "\<forall>(seq, p) \<in> set out. p = src seq"
    and "tryBlock rs seq b (r, out) = (r', out')"
  shows "recv_inv rs src r' \<and> fr_extParity r' = fr_extParity r \<and> (\<forall>(seq, p) \<in> set out'. p = src seq)"
proof (cases "seq \<ge> rb_baseSeq b \<and> seq < rb_baseSeq b + of_nat (rb_dataShards b)")
  case True
  obtain r1 out1 where t: "tryRecoverLocked rs r b = (r1, out1)" by (cases "tryRecoverLocked rs r b")
  then have "r' = r1" "out' = out @ out1" using True assms(4) by (simp_all add: tryBlock_def)
  then show ?thesis using tryRecoverLocked_inv [OF assms(1,2) t] assms(3) by auto
next
  case False
  then have "r' = r" "out' = out" using assms(4) by (auto simp: tryBlock_def)
  then show ?thesis using assms(2,3) by simp
qed

lemma fold_tryBlock_inv:
  assumes "\<forall>(_, b) \<in> set bs. block_ok rs src b" "recv_inv rs src r" "\<forall>(seq, p) \<in> set out. p = src seq"
    and "fold (\<lambda>(_, b). tryBlock rs seq b) bs (r, out) = (r', out')"
  shows "recv_inv rs src r' \<and> fr_extParity r' = fr_extParity r \<and> (\<forall>(seq, p) \<in> set out'. p = src seq)"
  using assms
proof (induction bs arbitrary: r out)
  case (Cons x bs)
  obtain a b where x: "x = (a, b)" by (cases x)
  obtain r1 out1 where 1: "tryBlock rs seq b (r, out) = (r1, out1)" by (cases "tryBlock rs seq b (r, out)")
  have ok: "block_ok rs src b" "\<forall>(_, b) \<in> set bs. block_ok rs src b" using Cons.prems(1) x by auto
  have f: "fold (\<lambda>(_, b). tryBlock rs seq b) bs (r1, out1) = (r', out')" using Cons.prems(4) 1 x by simp
  note i = tryBlock_inv [OF ok(1) Cons.prems(2,3) 1]
  show ?case using Cons.IH [OF ok(2) _ _ f] i by simp
qed simp

lemma onData_inv:
  assumes "recv_inv rs src r" "onData rs r seq (src seq) now = (r', out)"
  shows "recv_inv rs src r' \<and> fr_extParity r' = fr_extParity r \<and> (\<forall>(seq, p) \<in> set out. p = src seq)"
proof (cases "seq = 0")
  case False
  define r1 where "r1 = (if map_of (fr_recent r) seq = None
      then (cacheRecent seq (src seq) r)\<lparr>fr_loss := observeOutcome (fr_loss r) False,
             fr_highest := (if seq > fr_highest r then seq else fr_highest r)\<rparr> else r)"
  have "recent_ok src r1"
  proof (cases "map_of (fr_recent r) seq = None")
    case True
    then have "fr_recent r1 = fr_recent (cacheRecent seq (src seq) r)" by (simp add: r1_def)
    then show ?thesis using recent_ok_cache [OF recv_invD(1) [OF assms(1)], of seq] recent_ok_cong by blast
  next
    case False
    then have "r1 = r" unfolding r1_def by (rule if_not_P)
    then show ?thesis using recv_invD(1) [OF assms(1)] by simp
  qed
  then have "recent_ok src (pruneRecentLocked r1)" by (rule recent_ok_prune)
  moreover have b: "fr_blocks (pruneRecentLocked r1) = fr_blocks r" "fr_extParity (pruneRecentLocked r1) = fr_extParity r"
    by (simp_all add: r1_def)
  ultimately have i2: "recv_inv rs src (pruneRecentLocked r1)"
    using recv_inv_sub [OF assms(1)] recv_invD(2) [OF assms(1)] by simp
  obtain r3 o3 where f: "fold (\<lambda>(_, b). tryBlock rs seq b) (fr_blocks (pruneRecentLocked r1)) (pruneRecentLocked r1, []) = (r3, o3)"
    by (cases "fold (\<lambda>(_, b). tryBlock rs seq b) (fr_blocks (pruneRecentLocked r1)) (pruneRecentLocked r1, [])")
  have "recv_inv rs src r3 \<and> fr_extParity r3 = fr_extParity r \<and> (\<forall>(seq, p) \<in> set o3. p = src seq)"
  proof -
    have "\<forall>(_, b) \<in> set (fr_blocks (pruneRecentLocked r1)). block_ok rs src b"
      using recv_invD(3) [OF assms(1)] unfolding b by blast
    then show ?thesis using fold_tryBlock_inv [OF _ i2 _ f] b by simp
  qed
  moreover have "r' = pruneBlocksLocked now r3" "out = sort_key fst o3"
    using assms(2) False unfolding onData_def Let_def r1_def [symmetric] f by simp_all
  ultimately show ?thesis using recv_inv_pruneBlocks by simp
qed (use assms in \<open>simp add: onData_def\<close>)

text \<open>The block that a parity frame creates or completes.\<close>

lemma addParity_ok:
  assumes "genuine rs src (p\<lparr>Ext := ext\<rparr>)" "mds rs (DataShards p) (ParityShards p)"
    and "b = newBlock p now \<or> rb_baseSeq b = BaseSeq p \<and> block_ok rs src b"
    and "rb_dataShards b = DataShards p" "rb_parityShards b = ParityShards p"
  shows "block_ok rs src (addParity p now b) \<and> rb_baseSeq (addParity p now b) = BaseSeq p"
proof -
  define k m where "k = DataShards p" and "m = ParityShards p"
  obtain parity where enc: "rs_encode rs k m (block_shards src (BaseSeq p) k) = Some parity"
      and i: "ShardData p = parity ! Index p" "Index p < m" and sz: "block_size src (BaseSeq p) k \<le> UDPC_MAX_DATA"
    using assms(1) by (auto simp: genuine_def k_def m_def)
  have "0 < block_size src (BaseSeq p) k" by (simp add: block_size_def fecLengthPrefixSize_def)
  then have len: "length parity = m" "\<forall>x \<in> set parity. length x = block_size src (BaseSeq p) k"
    using assms(2) enc block_shards_length [where src = src and base = "BaseSeq p" and k = k]
    unfolding mds_def k_def [symmetric] m_def [symmetric] by (metis option.inject)+
  have "rb_shardSize b = block_size src (BaseSeq p) k \<and> rb_baseSeq b = BaseSeq p \<and> erasure (rb_parity b) parity"
    if "b = newBlock p now"
    using that len i by (auto simp: newBlock_def erasure_def m_def)
  moreover have "rb_shardSize b = block_size src (BaseSeq p) k \<and> erasure (rb_parity b) parity"
    if "rb_baseSeq b = BaseSeq p" "block_ok rs src b"
    using that enc assms(4,5) by (auto simp: block_ok_def k_def m_def)
  ultimately have b: "rb_shardSize b = block_size src (BaseSeq p) k" "rb_baseSeq b = BaseSeq p" "erasure (rb_parity b) parity"
    using assms(3) by blast+
  have "erasure (rb_parity (addParity p now b)) parity"
    using b(3) i len by (auto simp: erasure_def addParity_def nth_list_update)
  then show ?thesis
    using b enc sz assms(2,4,5) by (auto simp: block_ok_def addParity_def k_def m_def)
qed

lemma genuine_parity_shape:
  assumes "genuine rs src (p\<lparr>Ext := ext\<rparr>)" "mds rs (DataShards p) (ParityShards p)"
  obtains parity where
    "rs_encode rs (DataShards p) (ParityShards p) (block_shards src (BaseSeq p) (DataShards p)) = Some parity"
    "length parity = ParityShards p" "length (ShardData p) = block_size src (BaseSeq p) (DataShards p)"
proof -
  obtain parity where enc: "rs_encode rs (DataShards p) (ParityShards p) (block_shards src (BaseSeq p) (DataShards p)) = Some parity"
      and i: "ShardData p = parity ! Index p" "Index p < ParityShards p"
    using assms(1) by (auto simp: genuine_def)
  have "0 < block_size src (BaseSeq p) (DataShards p)" by (simp add: block_size_def fecLengthPrefixSize_def)
  then have "length parity = ParityShards p" "\<forall>x \<in> set parity. length x = block_size src (BaseSeq p) (DataShards p)"
    using assms(2) enc block_shards_length [where src = src and base = "BaseSeq p" and k = "DataShards p"]
    unfolding mds_def by (metis option.inject)+
  then show thesis using that enc i by simp
qed

lemma known_block_shape:
  assumes "genuine rs src (p\<lparr>Ext := ext\<rparr>)" "mds rs (DataShards p) (ParityShards p)"
    and "b = newBlock p now \<or> rb_baseSeq b = BaseSeq p \<and> block_ok rs src b"
    and "rb_dataShards b = DataShards p" "rb_parityShards b = ParityShards p"
  shows genuine_size: "rb_shardSize b = length (ShardData p)" and parity_length: "length (rb_parity b) = ParityShards p"
proof -
  obtain parity where
    "rs_encode rs (DataShards p) (ParityShards p) (block_shards src (BaseSeq p) (DataShards p)) = Some parity"
    "length parity = ParityShards p" "length (ShardData p) = block_size src (BaseSeq p) (DataShards p)"
    by (rule genuine_parity_shape [OF assms(1,2)])
  then show "rb_shardSize b = length (ShardData p)" "length (rb_parity b) = ParityShards p"
    using assms(3-5) by (auto simp: newBlock_def block_ok_def erasure_def)
qed

lemma onParityFrame_inv:
  assumes "recv_inv rs src r" "genuine_arrival rs src (fr_extParity r) (ParityArrival frame now)"
    and "onParityFrame rs r frame now = (r', out)"
  shows "recv_inv rs src r' \<and> fr_extParity r' = fr_extParity r \<and> (\<forall>(seq, p) \<in> set out. p = src seq)"
proof (cases "parseFECParityFrameExt frame (fr_extParity r)")
  case (Inl e)
  then show ?thesis using assms by (simp add: onParityFrame_def)
next
  case (Inr p)
  define b where "b = (case map_of (fr_blocks r) (BaseSeq p) of None \<Rightarrow> newBlock p now | Some b \<Rightarrow> b)"
  define b' where "b' = addParity p now b"
  show ?thesis
  proof (cases "rb_dataShards b \<noteq> DataShards p \<or> rb_parityShards b \<noteq> ParityShards p \<or> rb_shardSize b \<noteq> length (ShardData p)")
    case True
    then show ?thesis using assms Inr by (auto simp: onParityFrame_def Let_def b_def)
  next
    case False
    have g: "genuine rs src (p\<lparr>Ext := fr_extParity r\<rparr>)" "mds rs (DataShards p) (ParityShards p)"
      using assms(2) Inr by auto
    have "b = newBlock p now \<or> rb_baseSeq b = BaseSeq p \<and> block_ok rs src b"
      using recv_invD(3) [OF assms(1)] by (auto simp: b_def split: option.splits dest: map_of_SomeD)
    then have ok: "block_ok rs src b'" "rb_baseSeq b' = BaseSeq p"
      using addParity_ok [OF g] False by (auto simp: b'_def)
    have i1: "recv_inv rs src (storeBlock b' r)"
      using assms(1) ok distinct_delete [of "fr_blocks r" "BaseSeq p"]
      by (auto simp: recv_inv_def storeBlock_def recent_ok_def AList.delete_eq image_iff)
    obtain r1 o1 where t: "tryRecoverLocked rs (storeBlock b' r) b' = (r1, o1)"
      by (cases "tryRecoverLocked rs (storeBlock b' r) b'")
    have "r' = pruneBlocksLocked now r1" "out = sort_key fst o1"
      using assms(3) Inr False t unfolding onParityFrame_def by (auto simp: Let_def b_def b'_def)
    then show ?thesis
      using tryRecoverLocked_inv [OF ok(1) i1 t] recv_inv_pruneBlocks by (simp add: storeBlock_def)
  qed
qed

lemma arrival_run_inv:
  assumes "recv_inv rs src r" "\<forall>e \<in> set es. genuine_arrival rs src (fr_extParity r) e" "arrival_run rs r es = (r', out)"
  shows "recv_inv rs src r' \<and> fr_extParity r' = fr_extParity r \<and> (\<forall>(seq, p) \<in> set out. p = src seq)"
  using assms
proof (induction es arbitrary: r out)
  case (Cons e es)
  obtain r1 out1 where 1: "arrival_step rs r e = (r1, out1)" by (cases "arrival_step rs r e")
  obtain r2 out2 where 2: "arrival_run rs r1 es = (r2, out2)" by (cases "arrival_run rs r1 es")
  have "recv_inv rs src r1 \<and> fr_extParity r1 = fr_extParity r \<and> (\<forall>(seq, p) \<in> set out1. p = src seq)"
  proof (cases e)
    case (DataArrival seq payload now)
    then show ?thesis using onData_inv [OF Cons.prems(1)] Cons.prems(2) 1 by simp
  next
    case (ParityArrival frame now)
    then have "genuine_arrival rs src (fr_extParity r) (ParityArrival frame now)" using Cons.prems(2) by simp
    then show ?thesis using onParityFrame_inv [OF Cons.prems(1)] 1 ParityArrival arrival_step.simps(2) by metis
  qed
  then show ?case using Cons.IH [of r1 out2] Cons.prems 1 2 by auto
qed simp

subsection \<open>Order of recovery\<close>

lemma sorted_block_seqs:
  fixes base :: uint64
  assumes "unat base + k \<le> 2 ^ 64"
  shows "sorted (map (\<lambda>i. base + of_nat i) (filter P [0..<k]))"
proof -
  have "unat (base + of_nat i) = unat base + i" if "i < k" for i
    using that assms by (simp add: unat_plus_if' unat_of_nat take_bit_eq_mod)
  then have "base + of_nat i \<le> base + of_nat j" if "i < j" "j < k" for i j
    using that by (simp add: word_le_nat_alt)
  then have "sorted_wrt (\<lambda>i j. base + of_nat i \<le> base + of_nat j) [0..<k]"
    by (auto simp: sorted_wrt_iff_nth_less)
  then show ?thesis by (simp add: sorted_map sorted_wrt_filter)
qed

lemma held_addParity:
  assumes "length (rb_parity b) = m" "Index p < m"
  shows "length (filter (\<lambda>x. x \<noteq> None) (rb_parity (addParity p now b)))
    = card (insert (Index p) {j. j < m \<and> rb_parity b ! j \<noteq> None})"
proof -
  have "{j. j < length (rb_parity (addParity p now b)) \<and> rb_parity (addParity p now b) ! j \<noteq> None}
      = insert (Index p) {j. j < m \<and> rb_parity b ! j \<noteq> None}"
    using assms by (auto simp: addParity_def nth_list_update split: if_splits)
  then show ?thesis by (simp add: length_filter_conv_card)
qed

subsection \<open>Memory\<close>

lemma recoverLoop_length:
  "recoverLoop b shards is r = (r', res) \<Longrightarrow>
     length (fr_recent r') \<le> length (fr_recent r) + length is \<and> fr_blocks r' = fr_blocks r \<and> fr_extParity r' = fr_extParity r"
proof (induction "is" arbitrary: r res)
  case (Cons i "is")
  have c: "length (fr_recent (cacheRecent q p r)) \<le> length (fr_recent r) + 1" for q p
    by (simp add: cacheRecent_def length_delete_le)
  show ?case
  proof (cases "r' = r")
    case False
    then obtain res' p where "recoverLoop b shards is (cacheRecent (blockSeq b i) p r) = (r', res')"
      using Cons.prems by (auto simp: Let_def split: if_splits prod.splits option.splits)
    then show ?thesis using Cons.IH c [of "blockSeq b i" p] by fastforce
  qed simp
qed simp

lemma tryRecoverLocked_length:
  assumes "tryRecoverLocked rs r b = (r', out)"
  shows "length (fr_recent r') \<le> length (fr_recent r) + rb_dataShards b \<and> set (fr_blocks r') \<subseteq> set (fr_blocks r)
    \<and> fr_extParity r' = fr_extParity r"
proof -
  have m: "length (missingShards r b) \<le> rb_dataShards b"
    using length_filter_le [of _ "[0..<rb_dataShards b]"] by (simp add: missingShards_def)
  consider "r' = r" | "r' = deleteBlock (rb_baseSeq b) r"
    | res r1 shards where "recoverLoop b shards (missingShards r b) r = (r1, res)"
      "r' = r1 \<or> r' = deleteBlock (rb_baseSeq b) (r1\<lparr>fr_loss := observeOutcome (fr_loss r1) True\<rparr>)"
    using assms unfolding tryRecoverLocked_def Let_def
    by (auto split: if_split_asm option.split_asm prod.split_asm)
  then show ?thesis
  proof cases
    case 3
    then show ?thesis
      using recoverLoop_length [OF 3(1)] m by (auto simp: deleteBlock_def AList.delete_eq)
  qed (auto simp: deleteBlock_def AList.delete_eq)
qed

lemma fold_tryBlock_length:
  assumes "small_blocks bs" "fold (\<lambda>(_, b). tryBlock rs seq b) bs (r, out) = (r', out')"
  shows "length (fr_recent r') \<le> length (fr_recent r) + fecDataShardsMax * length bs \<and> set (fr_blocks r') \<subseteq> set (fr_blocks r)
    \<and> fr_extParity r' = fr_extParity r"
  using assms
proof (induction bs arbitrary: r out)
  case (Cons x bs)
  obtain a b where x: "x = (a, b)" by (cases x)
  obtain r1 out1 where 1: "tryBlock rs seq b (r, out) = (r1, out1)" by (cases "tryBlock rs seq b (r, out)")
  have k: "rb_dataShards b \<le> fecDataShardsMax" "small_blocks bs" using Cons.prems(1) x by (auto simp: small_blocks_def)
  have "r1 = r \<or> (\<exists>o1. tryRecoverLocked rs r b = (r1, o1))"
    using 1 by (auto simp: tryBlock_def split: if_split_asm prod.split_asm)
  then have "length (fr_recent r1) \<le> length (fr_recent r) + fecDataShardsMax \<and> set (fr_blocks r1) \<subseteq> set (fr_blocks r)
      \<and> fr_extParity r1 = fr_extParity r"
    using tryRecoverLocked_length [of rs r b r1] k(1) by fastforce
  moreover have "fold (\<lambda>(_, b). tryBlock rs seq b) bs (r1, out1) = (r', out')" using Cons.prems(2) 1 x by simp
  ultimately show ?case using Cons.IH [OF k(2)] by fastforce
qed simp

lemma small_blocks_sub: "set bs' \<subseteq> set bs \<Longrightarrow> small_blocks bs \<Longrightarrow> small_blocks bs'"
  by (auto simp: small_blocks_def)

lemma pruneBlocks_sub: "set (fr_blocks (pruneBlocksLocked now r)) \<subseteq> set (fr_blocks r)"
  using evictBlocks_sub [of "filter (\<lambda>(_, b). \<not> now - rb_updatedAt b > fecBlockTTL) (fr_blocks r)"]
  by (auto simp: pruneBlocksLocked_def)

lemma parse_small: "parseFECParityFrameExt frame ext = Inr p \<Longrightarrow> DataShards p \<le> fecDataShardsMax"
  unfolding parseFECParityFrameExt_def Let_def by (auto split: if_split_asm)

text \<open>The state after any arrivals: few blocks, all small.\<close>

lemma onData_length:
  assumes "small_blocks (fr_blocks r)" "length (fr_blocks r) \<le> fecMaxPendingBlocks" "onData rs r seq payload now = (r', out)"
  shows "small_blocks (fr_blocks r') \<and> length (fr_blocks r') \<le> fecMaxPendingBlocks
    \<and> (if seq = 0 then r' = r else length (fr_recent r') \<le> fecRecentDataHardLimit + fecDataShardsMax * fecMaxPendingBlocks)"
proof (cases "seq = 0")
  case False
  define r1 where "r1 = (if map_of (fr_recent r) seq = None
      then (cacheRecent seq payload r)\<lparr>fr_loss := observeOutcome (fr_loss r) False,
             fr_highest := (if seq > fr_highest r then seq else fr_highest r)\<rparr> else r)"
  have b: "fr_blocks (pruneRecentLocked r1) = fr_blocks r" by (simp add: r1_def)
  obtain r3 o3 where f: "fold (\<lambda>(_, b). tryBlock rs seq b) (fr_blocks r) (pruneRecentLocked r1, []) = (r3, o3)"
    by (cases "fold (\<lambda>(_, b). tryBlock rs seq b) (fr_blocks r) (pruneRecentLocked r1, [])")
  have r': "r' = pruneBlocksLocked now r3"
    using assms(3) False unfolding onData_def Let_def r1_def [symmetric] b f by simp
  have l: "length (fr_recent r3) \<le> length (fr_recent (pruneRecentLocked r1)) + fecDataShardsMax * length (fr_blocks r)"
      "set (fr_blocks r3) \<subseteq> set (fr_blocks r)"
    using fold_tryBlock_length [OF assms(1) f] b by auto
  have "fecDataShardsMax * length (fr_blocks r) \<le> fecDataShardsMax * fecMaxPendingBlocks"
    using assms(2) by (rule mult_le_mono2)
  then have "length (fr_recent r3) \<le> fecRecentDataHardLimit + fecDataShardsMax * fecMaxPendingBlocks"
    using l(1) pruneRecentLocked_fields(3) [of r1] by linarith
  then show ?thesis
    using r' False l(2) pruneBlocks_sub [of now r3] small_blocks_sub [OF _ assms(1)] by auto
qed (use assms in \<open>simp add: onData_def\<close>)

lemma onParityFrame_length:
  assumes "small_blocks (fr_blocks r)" "length (fr_blocks r) \<le> fecMaxPendingBlocks" "onParityFrame rs r frame now = (r', out)"
  shows "small_blocks (fr_blocks r') \<and> length (fr_blocks r') \<le> fecMaxPendingBlocks
    \<and> length (fr_recent r') \<le> length (fr_recent r) + fecDataShardsMax"
proof (cases "parseFECParityFrameExt frame (fr_extParity r)")
  case (Inl e)
  then show ?thesis using assms by (simp add: onParityFrame_def)
next
  case (Inr p)
  define b where "b = (case map_of (fr_blocks r) (BaseSeq p) of None \<Rightarrow> newBlock p now | Some b \<Rightarrow> b)"
  define b' where "b' = addParity p now b"
  show ?thesis
  proof (cases "rb_dataShards b \<noteq> DataShards p \<or> rb_parityShards b \<noteq> ParityShards p \<or> rb_shardSize b \<noteq> length (ShardData p)")
    case True
    then show ?thesis using assms Inr by (auto simp: onParityFrame_def Let_def b_def)
  next
    case False
    have k: "rb_dataShards b' \<le> fecDataShardsMax" using parse_small [OF Inr] False by (simp add: b'_def addParity_def)
    obtain r1 o1 where t: "tryRecoverLocked rs (storeBlock b' r) b' = (r1, o1)"
      by (cases "tryRecoverLocked rs (storeBlock b' r) b'")
    have r': "r' = pruneBlocksLocked now r1"
      using assms(3) Inr False t unfolding onParityFrame_def by (auto simp: Let_def b_def b'_def)
    have "small_blocks (fr_blocks (storeBlock b' r))"
      using assms(1) k by (auto simp: small_blocks_def storeBlock_def AList.delete_eq)
    then have "small_blocks (fr_blocks r')"
      using r' tryRecoverLocked_length [OF t] pruneBlocks_sub [of now r1] small_blocks_sub by (metis subset_trans)
    then show ?thesis
      using r' tryRecoverLocked_length [OF t] k by (simp add: storeBlock_def)
  qed
qed

lemma arrival_run_blocks:
  assumes "small_blocks (fr_blocks r)" "length (fr_blocks r) \<le> fecMaxPendingBlocks" "arrival_run rs r es = (r', out)"
  shows "small_blocks (fr_blocks r') \<and> length (fr_blocks r') \<le> fecMaxPendingBlocks"
  using assms
proof (induction es arbitrary: r out)
  case (Cons e es)
  obtain r1 out1 where 1: "arrival_step rs r e = (r1, out1)" by (cases "arrival_step rs r e")
  obtain r2 out2 where 2: "arrival_run rs r1 es = (r2, out2)" by (cases "arrival_run rs r1 es")
  have "small_blocks (fr_blocks r1) \<and> length (fr_blocks r1) \<le> fecMaxPendingBlocks"
  proof (cases e)
    case (DataArrival seq payload now)
    then show ?thesis using 1 onData_length [OF Cons.prems(1,2), of rs seq payload now r1 out1] by simp
  next
    case (ParityArrival frame now)
    then show ?thesis using 1 onParityFrame_length [OF Cons.prems(1,2), of rs frame now r1 out1] by simp
  qed
  then show ?case using Cons.IH [of r1 out2] Cons.prems(3) 1 2 by simp
qed simp

subsection \<open>The exclusive-or code\<close>

lemma map2_xor_cancel:
  "length a = length b \<Longrightarrow> map2 (XOR) b (map2 (XOR) a b) = (a :: bytes)"
  "length a = length b \<Longrightarrow> map2 (XOR) a (map2 (XOR) a b) = (b :: bytes)"
  by (induction a b rule: list_induct2) (simp_all add: xor.left_commute)

lemma xor_reconstruct:
  assumes ab: "length a = length b" and e: "erasure shards [a, b, map2 (XOR) a b]"
    and two: "2 \<le> length (filter (\<lambda>x. x \<noteq> None) shards)"
  shows "rs_reconstruct xor_codec 2 1 shards = Some [a, b]"
proof -
  obtain x y z where s: "shards = [x, y, z]"
    using e by (auto simp: erasure_def length_Suc_conv)
  have i: "[x, y, z] ! i = None \<or> [x, y, z] ! i = Some ([a, b, map2 (XOR) a b] ! i)" if "i < 3" for i
    using e that by (simp add: erasure_def s)
  have "x = None \<or> x = Some a" "y = None \<or> y = Some b" "z = None \<or> z = Some (map2 (XOR) a b)"
    using i [of 0] i [of 1] i [of 2] by simp_all
  then show ?thesis
    using two map2_xor_cancel [OF ab] by (auto simp: s xor_codec_def)
qed

lemma mds_xor: "mds xor_codec 2 1"
  unfolding mds_def
proof (intro allI impI)
  fix data :: "bytes list" and n :: nat
  assume d: "length data = 2 \<and> 0 < n \<and> (\<forall>x \<in> set data. length x = n)"
  then obtain a b where ab: "data = [a, b]" by (auto simp: eval_nat_numeral length_Suc_conv)
  with d have "length a = n" "length b = n" by auto
  then show "\<exists>parity. rs_encode xor_codec 2 1 data = Some parity \<and> length parity = 1 \<and> (\<forall>x \<in> set parity. length x = n)
      \<and> (\<forall>shards. erasure shards (data @ parity) \<and> 2 \<le> length (filter (\<lambda>x. x \<noteq> None) shards)
           \<longrightarrow> rs_reconstruct xor_codec 2 1 shards = Some data)"
    using xor_reconstruct [of a b] by (intro exI [of _ "[map2 (XOR) a b]"]) (simp add: ab xor_codec_def)
qed

lemma sample_parity_genuine: "genuine xor_codec sample_src sample_parity"
  by (simp add: genuine_def sample_parity_def fecDataShardsMax_def fecParityShardsMax_def block_size_def
      block_payloads_def sample_src_def maxPayloadOf_def size_defs xor_codec_def block_shards_def fecShard_def
      put_be_numeral upt_rec)

lemma sample_parity_parses: "parseFECParityFrameExt sample_parity_frame False = Inr sample_parity"
  by (simp add: parseFECParityFrameExt_def sample_parity_frame_def sample_frame_def cmd_defs size_defs Let_def
      fecField_def fecDataMask_def fecParityMask_def fecIndexMask_def fecDataShift_def fecParityShift_def
      fecIndexShift_def fecDataShardsMax_def fecParityShardsMax_def sample_parity_def)

lemma sample_arrivals:
  "\<forall>e \<in> set [DataArrival 1 [1] 0, ParityArrival sample_parity_frame 0]. genuine_arrival xor_codec sample_src False e"
  using sample_parity_parses sample_parity_genuine mds_xor by (simp add: sample_src_def) (simp add: sample_parity_def)

subsection \<open>The cache is not capped on the parity path\<close>

lemma lone_parse:
  assumes "length d = 2" "base \<noteq> 0"
  shows "parseFECParityFrameExt (lone_parity d base) False
    = Inr \<lparr> BaseSeq = base, DataShards = 1, ParityShards = 1, Index = 0, ShardData = d, Ext = False \<rparr>"
proof -
  have "base \<le> - 1" by simp
  then have "\<not> - 1 < base" by (simp only: not_less)
  then show ?thesis
    using assms by (simp add: parseFECParityFrameExt_def lone_parity_def cmd_defs size_defs Let_def fecField_def
        fecDataShardsMax_def fecParityShardsMax_def)
qed

lemma lone_step:
  assumes "mds rs 1 1" "rs_encode rs 1 1 [[0, 0]] = Some [d]" "length d = 2"
    and "recent_ok (\<lambda>_. []) r" "fr_blocks r = []" "\<not> fr_extParity r" "base \<noteq> 0" "map_of (fr_recent r) base = None"
  shows "fst (onParityFrame rs r (lone_parity d base) now)
    = (cacheRecent base [] r)\<lparr>fr_loss := observeOutcome (fr_loss r) True\<rparr>"
proof -
  define p where "p = \<lparr> BaseSeq = base, DataShards = 1, ParityShards = 1, Index = 0, ShardData = d, Ext = False \<rparr>"
  define b where "b = addParity p now (newBlock p now)"
  have sz: "block_size (\<lambda>_. []) base 1 = 2" "block_shards (\<lambda>_. []) base 1 = [[0, 0]]"
    by (simp_all add: block_size_def block_payloads_def maxPayloadOf_def fecLengthPrefixSize_def block_shards_def
        fecShard_def put_be_numeral)
  have ok: "block_ok rs (\<lambda>_. []) b"
    using assms(1,2,3) sz
    by (auto simp: block_ok_def b_def addParity_def newBlock_def p_def size_defs erasure_def)
  have r1: "recent_ok (\<lambda>_. []) (storeBlock b r)"
    using assms(4) recent_ok_cong [of "storeBlock b r" r] by (simp add: storeBlock_def)
  have b: "rb_baseSeq b = base" "missingShards (storeBlock b r) b = [0]" "length (filter (\<lambda>x. x \<noteq> None) (rb_parity b)) = 1"
    using assms(8) by (simp_all add: b_def addParity_def newBlock_def p_def missingShards_def blockSeq_def storeBlock_def)
  have "fst (tryRecoverLocked rs (storeBlock b r) b)
      = deleteBlock base ((cacheRecent base [] (storeBlock b r))\<lparr>fr_loss := observeOutcome (fr_loss r) True\<rparr>)"
    unfolding tryRecoverLocked_ok [OF ok r1] b Let_def
    by (simp add: blockSeq_def b cacheRecent_def storeBlock_def)
  moreover have "fst (onParityFrame rs r (lone_parity d base) now) = pruneBlocksLocked now (fst (tryRecoverLocked rs (storeBlock b r) b))"
  proof -
    have "parseFECParityFrameExt (lone_parity d base) (fr_extParity r) = Inr p" "map_of (fr_blocks r) (BaseSeq p) = None"
      using lone_parse [OF assms(3,7)] assms(5,6) by (simp_all add: p_def)
    moreover have "rb_dataShards (newBlock p now) = DataShards p" "rb_parityShards (newBlock p now) = ParityShards p"
        "rb_shardSize (newBlock p now) = length (ShardData p)"
      by (simp_all add: newBlock_def)
    ultimately show ?thesis
      unfolding onParityFrame_def by (simp add: Let_def b_def [symmetric] split_beta)
  qed
  ultimately show ?thesis
    using assms(5) b(1)
    by (simp add: pruneBlocksLocked_def deleteBlock_def storeBlock_def cacheRecent_def evictBlocks.simps)
qed

theorem fec_recent_uncapped:
  assumes "mds rs 1 1" "rs_encode rs 1 1 [[0, 0]] = Some [d]" "length d = 2" "n < 2 ^ 64"
  shows "length (fr_recent (fst (arrival_run rs (newFECReceiverExt False)
     (map (\<lambda>i. ParityArrival (lone_parity d (of_nat (Suc i))) now) [0..<n])))) = n"
proof -
  have run_append: "fst (arrival_run rs r (xs @ [e])) = fst (arrival_step rs (fst (arrival_run rs r xs)) e)" for r xs e
    by (induction xs arbitrary: r) (simp_all add: split_beta)
  define st where "st m = fst (arrival_run rs (newFECReceiverExt False)
     (map (\<lambda>i. ParityArrival (lone_parity d (of_nat (Suc i))) now) [0..<m]))" for m
  have "length (fr_recent (st m)) = m \<and> recent_ok (\<lambda>_. []) (st m) \<and> fr_blocks (st m) = [] \<and> \<not> fr_extParity (st m)
      \<and> fst ` set (fr_recent (st m)) = (\<lambda>i. of_nat (Suc i)) ` {..<m}" if "m < 2 ^ 64" for m
    using that
  proof (induction m)
    case 0
    show ?case by (simp add: st_def newFECReceiverExt_def recent_ok_def)
  next
    case (Suc m)
    then have IH: "length (fr_recent (st m)) = m" "recent_ok (\<lambda>_. []) (st m)" "fr_blocks (st m) = []" "\<not> fr_extParity (st m)"
      "fst ` set (fr_recent (st m)) = (\<lambda>i. of_nat (Suc i)) ` {..<m}" by simp_all
    define base :: uint64 where "base = of_nat (Suc m)"
    have ub: "unat base = Suc m" using Suc.prems by (simp add: base_def unat_of_nat take_bit_eq_mod del: of_nat_Suc)
    then have nz: "base \<noteq> 0" by auto
    have "base \<noteq> of_nat (Suc i)" if "i < m" for i
      using that Suc.prems ub by (auto simp: unat_of_nat take_bit_eq_mod simp del: of_nat_Suc)
    then have fresh: "base \<notin> fst ` set (fr_recent (st m))" unfolding IH(5) by auto
    have st: "st (Suc m) = (cacheRecent base [] (st m))\<lparr>fr_loss := observeOutcome (fr_loss (st m)) True\<rparr>"
      using lone_step [OF assms(1-3) IH(2-4) nz] fresh
      by (simp add: st_def run_append base_def map_of_eq_None_iff del: of_nat_Suc)
    have "fr_recent (st (Suc m)) = (base, []) # fr_recent (st m)"
      using fresh by (simp add: st cacheRecent_def)
    moreover have "recent_ok (\<lambda>_. []) (st (Suc m))"
      using recent_ok_cache [OF IH(2), of base] recent_ok_cong [of "st (Suc m)" "cacheRecent base [] (st m)"] by (simp add: st)
    ultimately show ?case using IH by (simp add: st base_def lessThan_Suc del: of_nat_Suc)
  qed
  then show ?thesis using assms(4) by (simp add: st_def)
qed

section \<open>Properties\<close>

text \<open>C27. Reconstruction never invents data.  Whatever the order and the losses, from a peer that
  sends its stream and genuine parity of it every recovered record carries the payload that the
  peer sent under that sequence number, for any code that has the documented erasure property.\<close>

theorem fec_recovers_only_sent:
  assumes "\<forall>e \<in> set es. genuine_arrival rs src ext e"
    and "arrival_run rs (newFECReceiverExt ext) es = (r, out)"
  shows "\<forall>(seq, payload) \<in> set out. payload = src seq"
  using arrival_run_inv [OF recv_inv_new _ assms(2)] assms(1) by (simp add: newFECReceiverExt_def)

theorem fec_recovers_only_sent_witness:
  "snd (arrival_run xor_codec (newFECReceiverExt False) [DataArrival 1 [1] 0, ParityArrival sample_parity_frame 0]) = [(2, [2])]
   \<and> list_all (\<lambda>(seq, payload). payload = sample_src seq) (snd (arrival_run xor_codec (newFECReceiverExt False)
        [DataArrival 1 [1] 0, ParityArrival sample_parity_frame 0]))"
proof
  show "snd (arrival_run xor_codec (newFECReceiverExt False) [DataArrival 1 [1] 0, ParityArrival sample_parity_frame 0]) = [(2, [2])]"
    by code_simp
  show "list_all (\<lambda>(seq, payload). payload = sample_src seq) (snd (arrival_run xor_codec (newFECReceiverExt False)
        [DataArrival 1 [1] 0, ParityArrival sample_parity_frame 0]))"
    unfolding list_all_iff by (rule fec_recovers_only_sent [OF sample_arrivals prod.collapse [symmetric]])
qed

text \<open>C28. Reconstruction succeeds exactly when it can.  After any genuine arrivals, a parity frame of a
  block recovers all missing records of the block, in order and with the payloads the peer
  sent, as soon as the distinct parity shards held are at least as many as the missing records,
  and recovers nothing before.\<close>

theorem fec_recovers_exactly:
  assumes "\<forall>e \<in> set es. genuine_arrival rs src ext e"
    and "arrival_run rs (newFECReceiverExt ext) es = (r, earlier)"
    and "genuine_arrival rs src ext (ParityArrival frame now)" and "parseFECParityFrameExt frame ext = Inr p"
    and "\<forall>b. map_of (fr_blocks r) (BaseSeq p) = Some b \<longrightarrow> rb_dataShards b = DataShards p \<and> rb_parityShards b = ParityShards p"
  shows "let seq = (\<lambda>i. BaseSeq p + of_nat i);
             missing = filter (\<lambda>i. map_of (fr_recent r) (seq i) = None) [0..<DataShards p];
             old = (case map_of (fr_blocks r) (BaseSeq p) of None \<Rightarrow> replicate (ParityShards p) None | Some b \<Rightarrow> rb_parity b);
             held = card (insert (Index p) {j. j < ParityShards p \<and> old ! j \<noteq> None})
         in snd (onParityFrame rs r frame now) = (if length missing \<le> held then map (\<lambda>i. (seq i, src (seq i))) missing else [])"
proof -
  define b where "b = (case map_of (fr_blocks r) (BaseSeq p) of None \<Rightarrow> newBlock p now | Some b \<Rightarrow> b)"
  define b' where "b' = addParity p now b"
  have inv: "recv_inv rs src r" and ext: "fr_extParity r = ext"
    using arrival_run_inv [OF recv_inv_new _ assms(2)] assms(1) by (simp_all add: newFECReceiverExt_def)
  have g: "genuine rs src (p\<lparr>Ext := ext\<rparr>)" "mds rs (DataShards p) (ParityShards p)" using assms(3,4) by auto
  have old: "b = newBlock p now \<or> rb_baseSeq b = BaseSeq p \<and> block_ok rs src b"
    using recv_invD(3) [OF inv] by (auto simp: b_def split: option.splits dest: map_of_SomeD)
  have geo: "rb_dataShards b = DataShards p" "rb_parityShards b = ParityShards p"
    using assms(5) by (auto simp: b_def newBlock_def split: option.splits)
  have ok: "block_ok rs src b'" "rb_baseSeq b' = BaseSeq p"
    using addParity_ok [OF g old geo] by (simp_all add: b'_def)
  have sz: "rb_shardSize b = length (ShardData p)"
    using genuine_size [OF g old geo] .
  have len: "length (rb_parity b) = ParityShards p" using parity_length [OF g old geo] .
  have seq: "blockSeq b' i = BaseSeq p + of_nat i" for i by (simp add: blockSeq_def ok(2))
  have dk: "rb_dataShards b' = DataShards p" using geo by (simp add: b'_def addParity_def)
  have miss: "missingShards (storeBlock b' r) b' = filter (\<lambda>i. map_of (fr_recent r) (BaseSeq p + of_nat i) = None) [0..<DataShards p]"
    by (simp add: missingShards_def seq storeBlock_def dk)
  have "Index p < ParityShards p" using g(1) by (simp add: genuine_def)
  note held = held_addParity [OF len this, of now, folded b'_def]
  have par: "rb_parity b = (case map_of (fr_blocks r) (BaseSeq p) of None \<Rightarrow> replicate (ParityShards p) None | Some b \<Rightarrow> rb_parity b)"
    by (simp add: b_def newBlock_def split: option.split)
  have "recent_ok src (storeBlock b' r)"
    using recv_invD(1) [OF inv] recent_ok_cong [of "storeBlock b' r" r] by (simp add: storeBlock_def)
  note t = tryRecoverLocked_ok [OF ok(1) this, unfolded miss held par seq]
  have "unat (BaseSeq p) + DataShards p \<le> 2 ^ 64" using g(1) by (simp add: genuine_def)
  note srt = sorted_block_seqs [OF this]
  have "snd (onParityFrame rs r frame now) = sort_key fst (snd (tryRecoverLocked rs (storeBlock b' r) b'))"
    using assms(4) ext geo sz
    by (simp add: onParityFrame_def Let_def b_def [symmetric] b'_def [symmetric] split_beta)
  then show ?thesis
    using srt unfolding t Let_def
    by (auto simp: sort_key_id_if_sorted comp_def not_less)
qed

theorem fec_recovers_exactly_witness:
  "snd (onParityFrame xor_codec (fst (arrival_run xor_codec (newFECReceiverExt False) [DataArrival 1 [1] 0]))
     sample_parity_frame 0) = [(2, [2])]"
proof -
  define r where "r = fst (arrival_run xor_codec (newFECReceiverExt False) [DataArrival 1 [1] 0])"
  have run: "arrival_run xor_codec (newFECReceiverExt False) [DataArrival 1 [1] 0] = (r, snd (arrival_run xor_codec (newFECReceiverExt False) [DataArrival 1 [1] 0]))"
    by (simp add: r_def)
  have st: "fr_blocks r = []" "fr_recent r = [(1, [1])]" unfolding r_def by code_simp+
  have "\<forall>e \<in> set [DataArrival 1 [1] 0]. genuine_arrival xor_codec sample_src False e"
      "genuine_arrival xor_codec sample_src False (ParityArrival sample_parity_frame 0)"
    using sample_arrivals by simp_all
  from fec_recovers_exactly [OF this(1) run this(2) sample_parity_parses]
  show ?thesis
    unfolding r_def [symmetric]
    by (simp add: st sample_parity_def sample_src_def Let_def upt_rec card_insert_if)
qed

text \<open>The receiver's memory is bounded by construction, whatever a peer sends and whatever the code
  returns: at most 16 waiting blocks after any arrivals, at most 256 cached records after a data
  record, and at most eight more after each parity frame.\<close>

lemma fec_memory_bounds:
  fixes es :: "fec_arrival list"
  shows "let r = fst (arrival_run rs (newFECReceiverExt ext) es) in
     length (fr_blocks r) \<le> fecMaxPendingBlocks
     \<and> (if seq = 0 then fst (onData rs r seq payload now) = r
        else length (fr_recent (fst (onData rs r seq payload now))) \<le> 256)
     \<and> length (fr_recent (fst (onParityFrame rs r frame now))) \<le> length (fr_recent r) + 8"
proof -
  define r where "r = fst (arrival_run rs (newFECReceiverExt ext) es)"
  have b: "small_blocks (fr_blocks r)" "length (fr_blocks r) \<le> fecMaxPendingBlocks"
    using arrival_run_blocks [OF _ _ prod.collapse [symmetric], of "newFECReceiverExt ext" rs es]
    by (simp_all add: r_def newFECReceiverExt_def small_blocks_def)
  show ?thesis
    using b onData_length [OF b prod.collapse [symmetric], of rs seq payload now]
      onParityFrame_length [OF b prod.collapse [symmetric], of rs frame now]
    unfolding r_def [symmetric] Let_def
    by (auto simp: fecRecentDataHardLimit_def fecDataShardsMax_def fecMaxPendingBlocks_def split: if_splits)
qed

end
