(* ===== verification/Mtu.thy ===== *)
theory Mtu
  imports Fec
begin

text \<open>
  The record size budget (\<^verbatim>\<open>src/tunnel/mtu.go\<close>, \<^verbatim>\<open>mtuprobe.go\<close> and the MTU handlers of
  \<^verbatim>\<open>server.go\<close>): the configured budget, the client's probing of the path with its ladder, cache,
  commits and idle re-probing, and the server's reaction to commits.

  The network is a parameter: for the \<open>n\<close>-th control frame of a session it says whether the frame
  was sent, which random probe identifier was drawn, which echoes arrived before the probe's
  deadline, and whether the session was closed by then.
\<close>

section \<open>Definitions\<close>

subsection \<open>Budgets\<close>

definition maxPktFloor :: int where "maxPktFloor = int (UDPC_HDR_SIZE + UDPC_TRAILER_SIZE + 64)"
definition ipv4DatagramOverhead :: int where "ipv4DatagramOverhead = 28"
definition ipv6DatagramOverhead :: int where "ipv6DatagramOverhead = 48"

definition resolveMaxPkt :: "int \<Rightarrow> int" where
  "resolveMaxPkt configured = (
     if configured = 0 then int maxPktCeiling
     else if configured < 0 then int maxPktCeiling
     else if configured < maxPktFloor then maxPktFloor
     else if configured > int maxPktCeiling then int maxPktCeiling
     else configured)"

definition payloadCap :: "int \<Rightarrow> int" where
  "payloadCap maxPkt = maxPkt - int UDPC_HDR_SIZE - int UDPC_TRAILER_SIZE"

definition effectivePayloadCap :: "int \<Rightarrow> int" where
  "effectivePayloadCap maxPkt = (if maxPkt \<le> 0 then payloadCap (int maxPktCeiling) else payloadCap maxPkt)"

subsection \<open>The ladder\<close>

definition mtuProbeFloor :: int where "mtuProbeFloor = 548"
definition weakNetworkMtuFallback :: int where "weakNetworkMtuFallback = mtuProbeFloor"
definition mtuCommitSends :: nat where "mtuCommitSends = 2"
definition mtuProbeCacheTTL :: duration where "mtuProbeCacheTTL = 600 * second"
definition mtuReprobeInterval :: duration where "mtuReprobeInterval = 30 * second"
definition defaultProbeAttempts :: nat where "defaultProbeAttempts = 2"
definition mtuProbeLadder :: "int list" where "mtuProbeLadder = [1450, 1392, 1200, 1000, 800, mtuProbeFloor]"

definition mtuLadderFor :: "int \<Rightarrow> int list" where
  "mtuLadderFor maxPkt = maxPkt # filter (\<lambda>v. v < maxPkt) mtuProbeLadder"

definition mtuProbeEnabled :: "bool option \<Rightarrow> bool" where
  "mtuProbeEnabled p = (case p of None \<Rightarrow> True | Some b \<Rightarrow> b)"

definition conservativeMtuFallback :: "int \<Rightarrow> int" where
  "conservativeMtuFallback maxPkt = (if maxPkt \<le> weakNetworkMtuFallback then maxPkt else weakNetworkMtuFallback)"

definition mtuInitialCap :: "int \<Rightarrow> int" where
  "mtuInitialCap maxPkt = (if maxPkt \<le> mtuProbeFloor then maxPkt else mtuProbeFloor)"

definition mtuStartCap :: "int \<Rightarrow> bool \<Rightarrow> int" where
  "mtuStartCap maxPkt probe = (if \<not> probe then maxPkt else mtuInitialCap maxPkt)"

definition clampMtuCap :: "int \<Rightarrow> int \<Rightarrow> int" where
  "clampMtuCap n maxPkt = (
     if n < mtuInitialCap maxPkt then mtuInitialCap maxPkt else if n > maxPkt then maxPkt else n)"

fun largestRungBelow :: "int list \<Rightarrow> int \<Rightarrow> int" where
  "largestRungBelow [] cur = 0"
| "largestRungBelow (v # ladder) cur = (if v < cur then v else largestRungBelow ladder cur)"

fun rungAbove :: "int \<Rightarrow> int list \<Rightarrow> int \<Rightarrow> int" where
  "rungAbove prev [] cur = prev"
| "rungAbove prev (v # ladder) cur = (if v \<le> cur then prev else rungAbove v ladder cur)"

definition nextLadderRungAbove :: "int list \<Rightarrow> int \<Rightarrow> int" where
  "nextLadderRungAbove ladder cur = rungAbove 0 ladder cur"

subsection \<open>The cache\<close>

record mtuProbeCache =
  pc_n :: int
  pc_at :: int
  pc_generation :: uint64

definition getFor :: "mtuProbeCache \<Rightarrow> uint64 \<Rightarrow> int \<Rightarrow> int" where
  "getFor m generation now = (
     if pc_generation m \<noteq> generation then 0
     else if pc_n m > 0 \<and> now - pc_at m < mtuProbeCacheTTL then pc_n m
     else 0)"

definition storeFor :: "mtuProbeCache \<Rightarrow> int \<Rightarrow> uint64 \<Rightarrow> int \<Rightarrow> mtuProbeCache" where
  "storeFor m n generation now = m\<lparr>pc_n := n, pc_at := now, pc_generation := generation\<rparr>"

subsection \<open>Probing\<close>

record mtu_net =
  net_sends :: "nat \<Rightarrow> bool"
  net_rand :: "nat \<Rightarrow> uint64 option"
  net_echo :: "nat \<Rightarrow> bytes \<Rightarrow> bytes list"
  net_closed :: "nat \<Rightarrow> bool"

text \<open>The MTU state of a client session: the record cap, the number of control frames sent so far, the
  commit payloads sent, and the client's cache.\<close>

record mtu_state =
  ms_sendCap :: int
  ms_sent :: nat
  ms_commits :: "bytes list"
  ms_cache :: mtuProbeCache

definition probeMatches :: "bytes \<Rightarrow> bytes \<Rightarrow> bool" where
  "probeMatches payload got \<longleftrightarrow> length got = length payload \<and> take mtuProbeIDSize got = take mtuProbeIDSize payload"

definition probeOnce :: "mtu_net \<Rightarrow> mtu_state \<Rightarrow> int \<Rightarrow> bool \<times> mtu_state" where
  "probeOnce net s sz = (
     let cap = sz - int UDPC_HDR_SIZE - int UDPC_TRAILER_SIZE in
     if cap < int mtuProbeIDSize \<or> cap > int mtuProbeMaxPayload then (False, s)
     else (case net_rand net (ms_sent s) of
         None \<Rightarrow> (False, s)
       | Some ident \<Rightarrow>
           (let payload = put_be mtuProbeIDSize ident @ replicate (nat cap - mtuProbeIDSize) 0;
                s1 = s\<lparr>ms_sent := ms_sent s + 1\<rparr>
            in if \<not> net_sends net (ms_sent s) then (False, s1)
               else (list_ex (probeMatches payload) (net_echo net (ms_sent s) payload), s1))))"

text \<open>The copies of a commit: the second is sent if the first could be.\<close>

fun commitSends :: "mtu_net \<Rightarrow> bytes \<Rightarrow> nat \<Rightarrow> mtu_state \<Rightarrow> mtu_state" where
  "commitSends net payload 0 s = s"
| "commitSends net payload (Suc i) s = (
     if \<not> net_sends net (ms_sent s) then s\<lparr>ms_sent := ms_sent s + 1\<rparr>
     else commitSends net payload i (s\<lparr>ms_sent := ms_sent s + 1, ms_commits := ms_commits s @ [payload]\<rparr>))"

definition sendMtuCommit :: "mtu_net \<Rightarrow> int \<Rightarrow> mtu_state \<Rightarrow> mtu_state" where
  "sendMtuCommit net sz s = (
     if sz \<le> 0 \<or> sz > int maxPktCeiling then s
     else commitSends net (put_be mtuCommitSize (of_int sz :: uint16)) mtuCommitSends s)"

fun probeAttempts :: "mtu_net \<Rightarrow> int \<Rightarrow> nat \<Rightarrow> mtu_state \<Rightarrow> bool \<times> mtu_state" where
  "probeAttempts net sz 0 s = (False, s)"
| "probeAttempts net sz (Suc a) s = (case probeOnce net s sz of
     (True, s') \<Rightarrow> (True, s')
   | (False, s') \<Rightarrow> probeAttempts net sz a s')"

fun probeLadder :: "mtu_net \<Rightarrow> int list \<Rightarrow> mtu_state \<Rightarrow> int \<times> mtu_state" where
  "probeLadder net [] s = (0, s)"
| "probeLadder net (sz # ladder) s = (
     if net_closed net (ms_sent s) then (0, s)
     else (case probeAttempts net sz defaultProbeAttempts s of
         (True, s') \<Rightarrow> (sz, s')
       | (False, s') \<Rightarrow> probeLadder net ladder s'))"

definition probePath :: "mtu_net \<Rightarrow> int \<Rightarrow> mtu_state \<Rightarrow> int \<times> mtu_state" where
  "probePath net maxPkt s = probeLadder net (mtuLadderFor maxPkt) s"

definition convergeFrameBudget :: "mtu_net \<Rightarrow> bool option \<Rightarrow> int \<Rightarrow> uint64 \<Rightarrow> int \<Rightarrow> mtu_state \<Rightarrow> mtu_state" where
  "convergeFrameBudget net cfgProbe maxPkt generation now s = (
     if \<not> mtuProbeEnabled cfgProbe then sendMtuCommit net maxPkt s
     else (let s1 = sendMtuCommit net (mtuInitialCap maxPkt) (s\<lparr>ms_sendCap := mtuInitialCap maxPkt\<rparr>);
               cached = getFor (ms_cache s1) generation now;
               (n, s2) = (if cached = 0
                          then (case probePath net maxPkt s1 of (n, s') \<Rightarrow>
                                  if n > 0 then (n, s'\<lparr>ms_cache := storeFor (ms_cache s') n generation now\<rparr>)
                                  else (conservativeMtuFallback maxPkt, s'))
                          else (cached, s1));
               m = clampMtuCap n maxPkt
           in if m \<noteq> ms_sendCap s2 then sendMtuCommit net m (s2\<lparr>ms_sendCap := m\<rparr>) else s2))"

subsection \<open>Re-probing an idle session\<close>

definition lowerSendCap :: "int \<Rightarrow> mtu_state \<Rightarrow> mtu_state" where
  "lowerSendCap n s = (if n \<ge> ms_sendCap s then s else s\<lparr>ms_sendCap := n\<rparr>)"

definition raiseSendCap :: "int \<Rightarrow> mtu_state \<Rightarrow> mtu_state" where
  "raiseSendCap n s = (if n \<le> ms_sendCap s then s else s\<lparr>ms_sendCap := n\<rparr>)"

definition tryRaiseOneRung :: "mtu_net \<Rightarrow> int \<Rightarrow> int list \<Rightarrow> int \<Rightarrow> mtu_state \<Rightarrow> mtu_state" where
  "tryRaiseOneRung net maxPkt ladder cur s = (
     let up = nextLadderRungAbove ladder cur in
     if up \<le> 0 \<or> up > maxPkt then s
     else (case probeOnce net s up of
         (False, s1) \<Rightarrow> s1
       | (True, s1) \<Rightarrow> sendMtuCommit net up (raiseSendCap up s1)))"

lemma largestRungBelow_less: "0 < largestRungBelow ladder cur \<Longrightarrow> largestRungBelow ladder cur < cur"
  by (induction ladder) (auto split: if_splits)

function walkDown :: "mtu_net \<Rightarrow> int list \<Rightarrow> int \<Rightarrow> int \<Rightarrow> mtu_state \<Rightarrow> int \<times> mtu_state" where
  "walkDown net ladder lowest below s = (
     if below > 0 \<and> below > lowest then
       (case probeOnce net s below of
          (True, s1) \<Rightarrow> (below, s1)
        | (False, s1) \<Rightarrow> walkDown net ladder lowest (largestRungBelow ladder below) s1)
     else (below, s))"
  by pat_completeness auto

termination
proof (relation "measure (\<lambda>(_, _, _, below, _). nat below)")
  fix ladder :: "int list" and lowest below :: int and net s s1
  assume b: "0 < below \<and> lowest < below"
  then show "((net, ladder, lowest, largestRungBelow ladder below, s1), net, ladder, lowest, below, s)
      \<in> measure (\<lambda>(_, _, _, below, _). nat below)"
    using largestRungBelow_less [of ladder below] by (cases "0 < largestRungBelow ladder below") auto
qed simp

declare walkDown.simps [simp del]

definition reprobeIdleTick :: "mtu_net \<Rightarrow> int \<Rightarrow> duration \<Rightarrow> mtu_state \<Rightarrow> mtu_state" where
  "reprobeIdleTick net maxPkt idle s = (
     let ladder = mtuLadderFor maxPkt in
     if idle < trunc_div mtuReprobeInterval 2 then s
     else (let lowest = mtuInitialCap maxPkt; cur = ms_sendCap s in
       if cur > lowest then
         (case probeOnce net s cur of
            (True, s1) \<Rightarrow> tryRaiseOneRung net maxPkt ladder cur s1
          | (False, s1) \<Rightarrow>
              (case walkDown net ladder lowest (largestRungBelow ladder cur) s1 of (below, s2) \<Rightarrow>
                 (let target = (if below \<le> 0 then lowest else below) in
                  if target < cur then sendMtuCommit net target (lowerSendCap target s2) else s2)))
       else tryRaiseOneRung net maxPkt ladder cur s))"

subsection \<open>The server's budget\<close>

text \<open>\<open>sm_gate\<close> is the upstream gate: \<open>None\<close> without one, otherwise whether it is open.\<close>

record mtu_server =
  sm_serverMax :: int
  sm_maxPkt :: int
  sm_observed :: int
  sm_gate :: "bool option"
  sm_fec :: bool

definition openMtuGate :: "mtu_server \<Rightarrow> mtu_server" where
  "openMtuGate m = m\<lparr>sm_gate := map_option (\<lambda>_. True) (sm_gate m)\<rparr>"

definition applyMtuCommit :: "mtu_server \<Rightarrow> int \<Rightarrow> mtu_server" where
  "applyMtuCommit m0 n0 = (
     let m = openMtuGate m0;
         n1 = (if n0 < maxPktFloor then maxPktFloor else n0);
         n = (if n1 > sm_serverMax m then sm_serverMax m else n1);
         cur = sm_maxPkt m
     in if cur \<noteq> 0 \<and> cur = n then m
        else (let m1 = (if cur > 0 \<and> n < cur then m\<lparr>sm_observed := 0\<rparr> else m)
              in m1\<lparr>sm_maxPkt := n\<rparr>))"

definition noteObservedPayload :: "mtu_server \<Rightarrow> int \<Rightarrow> mtu_server" where
  "noteObservedPayload m n = (
     if n \<le> 0 then m else if n \<le> sm_observed m then m else m\<lparr>sm_observed := n\<rparr>)"

definition serverMaxPayload :: "mtu_server \<Rightarrow> int" where
  "serverMaxPayload m = (
     let ceiling = effectivePayloadCap (sm_serverMax m);
         budget1 = (if sm_maxPkt m > 0 \<and> payloadCap (sm_maxPkt m) < ceiling then payloadCap (sm_maxPkt m) else ceiling);
         budget2 = (if sm_fec m then fecDataPayloadCap budget1 else budget1)
     in if sm_observed m > budget2 \<and> sm_observed m \<le> ceiling then sm_observed m else budget2)"

definition clientMaxPayload :: "mtu_state \<Rightarrow> bool \<Rightarrow> int" where
  "clientMaxPayload s fec = (
     let cap = effectivePayloadCap (ms_sendCap s) in if fec then fecDataPayloadCap cap else cap)"

subsection \<open>Vocabulary of the properties\<close>

text \<open>A path that carries records of at most \<open>M\<close> bytes: every echo that arrives fits.\<close>

definition path_limit :: "mtu_net \<Rightarrow> int \<Rightarrow> bool" where
  "path_limit net M \<longleftrightarrow> (\<forall>k payload got. got \<in> set (net_echo net k payload) \<longrightarrow> int (length got) \<le> payloadCap M)"

text \<open>A path without loss that carries exactly the records of at most \<open>M\<close> bytes.\<close>

definition clean_path :: "mtu_net \<Rightarrow> int \<Rightarrow> bool" where
  "clean_path net M \<longleftrightarrow> (\<forall>k. net_sends net k \<and> net_rand net k \<noteq> None \<and> \<not> net_closed net k
     \<and> (\<forall>payload. net_echo net k payload = (if int (length payload) \<le> payloadCap M then [payload] else [])))"

definition clean_net :: "int \<Rightarrow> mtu_net" where
  "clean_net M = \<lparr> net_sends = (\<lambda>_. True), net_rand = (\<lambda>_. Some 7),
     net_echo = (\<lambda>_ payload. if int (length payload) \<le> payloadCap M then [payload] else []),
     net_closed = (\<lambda>_. False) \<rparr>"

definition mtu_start :: mtu_state where
  "mtu_start = \<lparr> ms_sendCap = 548, ms_sent = 0, ms_commits = [], ms_cache = \<lparr> pc_n = 0, pc_at = 0, pc_generation = 0 \<rparr> \<rparr>"

text \<open>The size a commit payload carries.\<close>

definition commit_size :: "bytes \<Rightarrow> int" where
  "commit_size payload = int (unat (get_be payload :: uint16))"

text \<open>The largest rung of the ladder that fits, or the floor.\<close>

definition clean_cap :: "int \<Rightarrow> int \<Rightarrow> int" where
  "clean_cap maxPkt M = (let fit = {z \<in> set (mtuLadderFor maxPkt). z \<le> M} in
     if fit = {} then mtuInitialCap maxPkt else Max fit)"

text \<open>The client's cap, its cache and its commits never exceed what the path carries or the floor.\<close>

definition mtu_safe :: "int \<Rightarrow> int \<Rightarrow> mtu_state \<Rightarrow> bool" where
  "mtu_safe maxPkt M s \<longleftrightarrow> mtuInitialCap maxPkt \<le> ms_sendCap s \<and> ms_sendCap s \<le> maxPkt
     \<and> ms_sendCap s \<le> max M (mtuInitialCap maxPkt) \<and> pc_n (ms_cache s) \<le> M
     \<and> (\<forall>c \<in> set (ms_commits s). mtuInitialCap maxPkt \<le> commit_size c \<and> commit_size c \<le> maxPkt
          \<and> commit_size c \<le> max M (mtuInitialCap maxPkt))"

section \<open>Lemmas\<close>

lemmas mtu_sizes = maxPktFloor_def mtuProbeFloor_def weakNetworkMtuFallback_def size_defs

lemma resolveMaxPkt_range: "maxPktFloor \<le> resolveMaxPkt c" "resolveMaxPkt c \<le> int maxPktCeiling"
  by (auto simp: resolveMaxPkt_def mtu_sizes)

lemma mtuInitialCap_bounds: "mtuInitialCap n \<le> n" "mtuInitialCap n \<le> mtuProbeFloor"
  by (auto simp: mtuInitialCap_def)

lemma conservativeMtuFallback_eq: "conservativeMtuFallback n = mtuInitialCap n"
  by (simp add: conservativeMtuFallback_def mtuInitialCap_def weakNetworkMtuFallback_def)

lemma clampMtuCap_bounds: "mtuInitialCap m \<le> clampMtuCap n m" "clampMtuCap n m \<le> m" "clampMtuCap n m \<le> max n (mtuInitialCap m)"
  using mtuInitialCap_bounds(1) [of m] by (auto simp: clampMtuCap_def)

lemma set_ladder: "set (mtuLadderFor m) = insert m {v \<in> {1450, 1392, 1200, 1000, 800, mtuProbeFloor}. v < m}"
  unfolding mtuLadderFor_def mtuProbeLadder_def list.set set_filter by blast

lemma ladder_range:
  "v \<in> set (mtuLadderFor m) \<Longrightarrow> mtuInitialCap m \<le> v \<and> v \<le> m"
  by (auto simp: set_ladder mtuInitialCap_def mtuProbeFloor_def)

lemma ladder_descending: "sorted_wrt (>) (mtuLadderFor m)"
proof -
  have "sorted_wrt (>) mtuProbeLadder" by (simp add: mtuProbeLadder_def mtuProbeFloor_def)
  then show ?thesis unfolding mtuLadderFor_def by (simp add: sorted_wrt_filter del: filter.simps)
qed

lemma largestRungBelow_mem: "largestRungBelow xs c = 0 \<or> largestRungBelow xs c \<in> set xs"
  by (induction xs) auto

lemma rungAbove_mem: "rungAbove p xs c \<in> insert p (set xs)"
  by (induction xs arbitrary: p) auto

subsection \<open>What a probe proves\<close>

lemma probeOnce_fields:
  "probeOnce net s z = (b, s') \<Longrightarrow> ms_sendCap s' = ms_sendCap s \<and> ms_commits s' = ms_commits s \<and> ms_cache s' = ms_cache s"
  by (auto simp: probeOnce_def Let_def split: if_splits option.splits)

lemma probeOnce_sound:
  assumes "path_limit net M" "probeOnce net s z = (True, s')"
  shows "z \<le> M"
proof -
  define cap where "cap = z - int UDPC_HDR_SIZE - int UDPC_TRAILER_SIZE"
  obtain ident where i: "net_rand net (ms_sent s) = Some ident" and c: "int mtuProbeIDSize \<le> cap"
      and e: "list_ex (probeMatches (put_be mtuProbeIDSize ident @ replicate (nat cap - mtuProbeIDSize) 0))
        (net_echo net (ms_sent s) (put_be mtuProbeIDSize ident @ replicate (nat cap - mtuProbeIDSize) 0))"
    using assms(2) by (auto simp: probeOnce_def Let_def cap_def split: if_splits option.splits)
  then obtain got where "got \<in> set (net_echo net (ms_sent s) (put_be mtuProbeIDSize ident @ replicate (nat cap - mtuProbeIDSize) 0))"
      "int (length got) = cap"
    by (auto simp: list_ex_iff probeMatches_def)
  then have "cap \<le> payloadCap M" using assms(1) unfolding path_limit_def by blast
  then show ?thesis by (simp add: cap_def payloadCap_def)
qed

lemma probeOnce_clean:
  assumes "clean_path net M" "maxPktFloor \<le> z" "z \<le> int maxPktCeiling"
  shows "probeOnce net s z = (z \<le> M, s\<lparr>ms_sent := ms_sent s + 1\<rparr>)"
proof -
  obtain ident where "net_rand net (ms_sent s) = Some ident" using assms(1) by (auto simp: clean_path_def)
  then show ?thesis
    using assms by (auto simp: probeOnce_def Let_def clean_path_def payloadCap_def probeMatches_def mtu_sizes)
qed

subsection \<open>Commits\<close>

lemma commitSends_fields:
  "ms_sendCap (commitSends net p n s) = ms_sendCap s \<and> ms_cache (commitSends net p n s) = ms_cache s
    \<and> set (ms_commits (commitSends net p n s)) \<subseteq> insert p (set (ms_commits s))"
proof (induction net p n s rule: commitSends.induct)
  case (2 net p i s)
  then show ?case by (cases "net_sends net (ms_sent s)") auto
qed auto

lemma sendMtuCommit_fields:
  "ms_sendCap (sendMtuCommit net z s) = ms_sendCap s" "ms_cache (sendMtuCommit net z s) = ms_cache s"
  using commitSends_fields by (simp_all add: sendMtuCommit_def)

lemma commit_size_put: "0 \<le> z \<Longrightarrow> z \<le> int maxPktCeiling \<Longrightarrow> commit_size (put_be mtuCommitSize (of_int z :: uint16)) = z"
  by (simp add: commit_size_def mtu_sizes unsigned_of_int take_bit_int_eq_self)

lemma sendMtuCommit_sizes:
  assumes "c \<in> set (ms_commits (sendMtuCommit net z s))"
  shows "c \<in> set (ms_commits s) \<or> commit_size c = z"
proof (cases "z \<le> 0 \<or> z > int maxPktCeiling")
  case False
  then show ?thesis
    using assms commitSends_fields [of net "put_be mtuCommitSize (of_int z :: uint16)" mtuCommitSends s] commit_size_put [of z]
    by (auto simp: sendMtuCommit_def)
qed (use assms in \<open>auto simp: sendMtuCommit_def\<close>)

lemma sendMtuCommit_clean:
  assumes "clean_path net M" "maxPktFloor \<le> z" "z \<le> int maxPktCeiling"
  shows "map commit_size (ms_commits (sendMtuCommit net z s)) = map commit_size (ms_commits s) @ [z, z]"
  using assms commit_size_put [of z]
  by (simp add: sendMtuCommit_def mtuCommitSends_def eval_nat_numeral clean_path_def mtu_sizes)

subsection \<open>Safety\<close>

text \<open>Setting the cap to a value within the bounds and committing it.\<close>

lemma mtu_safe_commit:
  assumes "mtu_safe m M s" "mtuInitialCap m \<le> z" "z \<le> m" "z \<le> max M (mtuInitialCap m)"
  shows "mtu_safe m M (sendMtuCommit net z s)" "mtu_safe m M (sendMtuCommit net z (s\<lparr>ms_sendCap := z\<rparr>))"
  using assms sendMtuCommit_sizes [of _ net z s] sendMtuCommit_sizes [of _ net z "s\<lparr>ms_sendCap := z\<rparr>"]
  by (auto simp: mtu_safe_def sendMtuCommit_fields)

lemma mtu_safe_cong:
  "ms_sendCap s' = ms_sendCap s \<Longrightarrow> ms_commits s' = ms_commits s \<Longrightarrow> ms_cache s' = ms_cache s \<Longrightarrow> mtu_safe m M s' = mtu_safe m M s"
  by (simp add: mtu_safe_def)

lemma probeAttempts_sound:
  assumes "path_limit net M" "probeAttempts net z a s = (b, s')"
  shows "ms_sendCap s' = ms_sendCap s \<and> ms_commits s' = ms_commits s \<and> ms_cache s' = ms_cache s \<and> (b \<longrightarrow> z \<le> M)"
  using assms(2)
proof (induction a arbitrary: s)
  case (Suc a)
  obtain b1 s1 where 1: "probeOnce net s z = (b1, s1)" by (cases "probeOnce net s z")
  then show ?case
    using Suc probeOnce_fields [OF 1] probeOnce_sound [OF assms(1), of s z s1] by (cases b1) auto
qed simp

lemma probeLadder_sound:
  assumes "path_limit net M" "probeLadder net ladder s = (n, s')"
  shows "ms_sendCap s' = ms_sendCap s \<and> ms_commits s' = ms_commits s \<and> ms_cache s' = ms_cache s \<and> (n \<noteq> 0 \<longrightarrow> n \<in> set ladder \<and> n \<le> M)"
  using assms(2)
proof (induction ladder arbitrary: s)
  case (Cons z ladder)
  obtain b1 s1 where 1: "probeAttempts net z defaultProbeAttempts s = (b1, s1)"
    by (cases "probeAttempts net z defaultProbeAttempts s")
  note p = probeAttempts_sound [OF assms(1) 1]
  show ?case
  proof (cases "net_closed net (ms_sent s)")
    case False
    then show ?thesis using Cons p 1 by (cases b1) auto
  qed (use Cons.prems in auto)
qed simp

lemma converge_safe:
  assumes "path_limit net M" "pc_n (ms_cache s) \<le> M" "ms_commits s = []"
  shows "mtu_safe m M (convergeFrameBudget net None m generation now s)"
proof -
  define s1 where "s1 = sendMtuCommit net (mtuInitialCap m) (s\<lparr>ms_sendCap := mtuInitialCap m\<rparr>)"
  have "mtu_safe m M (s\<lparr>ms_sendCap := mtuInitialCap m\<rparr>)"
    using assms mtuInitialCap_bounds(1) [of m] by (simp add: mtu_safe_def)
  then have s1: "mtu_safe m M s1"
    unfolding s1_def using mtuInitialCap_bounds(1) [of m] by (intro mtu_safe_commit(1)) auto
  define q where "q = (if getFor (ms_cache s1) generation now = 0
      then (case probePath net m s1 of (n, s') \<Rightarrow>
              if n > 0 then (n, s'\<lparr>ms_cache := storeFor (ms_cache s') n generation now\<rparr>) else (conservativeMtuFallback m, s'))
      else (getFor (ms_cache s1) generation now, s1))"
  obtain n s2 where 2: "q = (n, s2)" by (cases q)
  obtain k s' where p: "probePath net m s1 = (k, s')" by (cases "probePath net m s1")
  note l = probeLadder_sound [OF assms(1) p [unfolded probePath_def]]
  have s': "mtu_safe m M s'" "k > 0 \<Longrightarrow> k \<le> M" using s1 l mtu_safe_cong [of s' s1 m M] by auto
  have s2: "mtu_safe m M s2 \<and> n \<le> max M (mtuInitialCap m)"
  proof (cases "getFor (ms_cache s1) generation now = 0")
    case True
    then have "(n, s2) = (if k > 0 then (k, s'\<lparr>ms_cache := storeFor (ms_cache s') k generation now\<rparr>) else (mtuInitialCap m, s'))"
      unfolding 2 [symmetric] q_def conservativeMtuFallback_eq by (simp add: p)
    then show ?thesis using s' by (cases "k > 0") (auto simp: mtu_safe_def storeFor_def)
  next
    case False
    then have "n = pc_n (ms_cache s1)" "s2 = s1"
      using 2 by (auto simp: q_def getFor_def split: if_splits)
    then show ?thesis using s1 by (auto simp: mtu_safe_def)
  qed
  have "mtu_safe m M (if clampMtuCap n m \<noteq> ms_sendCap s2
      then sendMtuCommit net (clampMtuCap n m) (s2\<lparr>ms_sendCap := clampMtuCap n m\<rparr>) else s2)"
    using s2 clampMtuCap_bounds [where n = n and m = m] mtu_safe_commit(2) [of m M s2 "clampMtuCap n m" net] by auto
  then show ?thesis
    unfolding convergeFrameBudget_def Let_def s1_def [symmetric] q_def [symmetric] 2 by (simp add: mtuProbeEnabled_def)
qed

lemma walkDown_sound:
  "path_limit net M \<Longrightarrow> walkDown net ladder lowest below s = (b, s') \<Longrightarrow> below = 0 \<or> below \<in> set ladder \<Longrightarrow>
    ms_sendCap s' = ms_sendCap s \<and> ms_commits s' = ms_commits s \<and> ms_cache s' = ms_cache s
    \<and> (b = 0 \<or> b \<in> set ladder) \<and> (b \<le> lowest \<or> b \<le> M \<or> b \<le> 0)"
proof (induction net ladder lowest below s rule: walkDown.induct)
  case (1 net ladder lowest below s)
  show ?case
  proof (cases "below > 0 \<and> below > lowest")
    case True
    obtain ok s1 where p: "probeOnce net s below = (ok, s1)" by (cases "probeOnce net s below")
    note f = probeOnce_fields [OF p]
    show ?thesis
    proof (cases ok)
      case ok: True
      then have "b = below \<and> s' = s1" using "1.prems"(2) True p by (subst (asm) walkDown.simps) simp
      then show ?thesis using f "1.prems"(3) ok p probeOnce_sound [OF "1.prems"(1), of s below s1] by simp
    next
      case bad: False
      then have "walkDown net ladder lowest (largestRungBelow ladder below) s1 = (b, s')"
        using "1.prems"(2) True p by (subst (asm) walkDown.simps) simp
      then show ?thesis using "1.IH" [OF True] "1.prems"(1) p bad f largestRungBelow_mem [of ladder below] by simp
    qed
  next
    case False
    then have "b = below \<and> s' = s" using "1.prems"(2) by (subst (asm) walkDown.simps) auto
    then show ?thesis using False "1.prems"(3) by auto
  qed
qed

lemma tryRaiseOneRung_safe:
  assumes "path_limit net M" "mtu_safe m M s"
  shows "mtu_safe m M (tryRaiseOneRung net m (mtuLadderFor m) cur s)"
proof (cases "nextLadderRungAbove (mtuLadderFor m) cur \<le> 0 \<or> nextLadderRungAbove (mtuLadderFor m) cur > m")
  case True
  then show ?thesis using assms(2) by (simp add: tryRaiseOneRung_def Let_def)
next
  case False
  define up where "up = nextLadderRungAbove (mtuLadderFor m) cur"
  have up: "0 < up" "up \<le> m" using False by (auto simp: up_def)
  then have "mtuInitialCap m \<le> up"
    using rungAbove_mem [of 0 "mtuLadderFor m" cur] ladder_range [of up m] by (auto simp: up_def nextLadderRungAbove_def)
  obtain b s1 where p: "probeOnce net s up = (b, s1)" by (cases "probeOnce net s up")
  have s1: "mtu_safe m M s1" using probeOnce_fields [OF p] assms(2) mtu_safe_cong [of s1 s m M] by simp
  have "mtu_safe m M (sendMtuCommit net up (raiseSendCap up s1))" if b
  proof -
    have "up \<le> M" using probeOnce_sound [OF assms(1)] p that by simp
    then have m: "mtu_safe m M (s1\<lparr>ms_sendCap := up\<rparr>)"
      using s1 up \<open>mtuInitialCap m \<le> up\<close> by (auto simp: mtu_safe_def)
    have "mtu_safe m M (raiseSendCap up s1)" using m s1 by (auto simp: raiseSendCap_def)
    then show ?thesis using mtu_safe_commit(1) up \<open>up \<le> M\<close> \<open>mtuInitialCap m \<le> up\<close> by simp
  qed
  then show ?thesis
    using False p s1 by (cases b) (simp_all add: tryRaiseOneRung_def Let_def up_def [symmetric])
qed

lemma reprobeIdleTick_safe:
  assumes "path_limit net M" "mtu_safe m M s" "0 < mtuInitialCap m"
  shows "mtu_safe m M (reprobeIdleTick net m idle s)"
proof -
  define lowest cur ladder where "lowest = mtuInitialCap m" and "cur = ms_sendCap s" and "ladder = mtuLadderFor m"
  obtain b1 s1 where p: "probeOnce net s cur = (b1, s1)" by (cases "probeOnce net s cur")
  have s1: "mtu_safe m M s1" using probeOnce_fields [OF p] assms(2) mtu_safe_cong [of s1 s m M] by simp
  obtain below s2 where w: "walkDown net ladder lowest (largestRungBelow ladder cur) s1 = (below, s2)"
    by (cases "walkDown net ladder lowest (largestRungBelow ladder cur) s1")
  note ws = walkDown_sound [OF assms(1) w largestRungBelow_mem]
  have s2: "mtu_safe m M s2" using ws s1 mtu_safe_cong [of s2 s1 m M] by simp
  define target where "target = (if below \<le> 0 then lowest else below)"
  have t: "lowest \<le> target" "target \<le> m" "target \<le> max M lowest"
    using ws ladder_range [of below m] mtuInitialCap_bounds(1) [of m] assms(3)
    by (auto simp: target_def lowest_def ladder_def)
  have m: "mtu_safe m M (s2\<lparr>ms_sendCap := target\<rparr>)" using s2 t by (auto simp: mtu_safe_def lowest_def)
  have "mtu_safe m M (lowerSendCap target s2)" using m s2 by (auto simp: lowerSendCap_def)
  then have down: "mtu_safe m M (sendMtuCommit net target (lowerSendCap target s2))"
    using mtu_safe_commit(1) t by (simp add: lowest_def)
  have raise: "mtu_safe m M (tryRaiseOneRung net m ladder cur s1)" "mtu_safe m M (tryRaiseOneRung net m ladder cur s)"
    using tryRaiseOneRung_safe [OF assms(1)] s1 assms(2) by (simp_all add: ladder_def)
  have "reprobeIdleTick net m idle s \<in> {s, s2, tryRaiseOneRung net m ladder cur s1, tryRaiseOneRung net m ladder cur s,
      sendMtuCommit net target (lowerSendCap target s2)}"
    unfolding reprobeIdleTick_def Let_def lowest_def [symmetric] cur_def [symmetric] ladder_def [symmetric] p
    by (cases b1) (simp_all add: w target_def)
  then show ?thesis using assms(2) s2 raise down by auto
qed

lemma reprobe_run_safe:
  assumes "path_limit net M" "0 < mtuInitialCap m" "mtu_safe m M s"
  shows "mtu_safe m M (fold (reprobeIdleTick net m) idles s)"
  using assms(3)
proof (induction idles arbitrary: s)
  case (Cons i idles)
  then show ?case using reprobeIdleTick_safe [OF assms(1) Cons.prems assms(2)] by simp
qed simp

subsection \<open>Convergence\<close>

lemma probeLadder_clean:
  assumes "clean_path net M" "\<forall>z \<in> set ladder. maxPktFloor \<le> z \<and> z \<le> int maxPktCeiling"
  shows "\<exists>k. probeLadder net ladder s = (case find (\<lambda>z. z \<le> M) ladder of None \<Rightarrow> 0 | Some z \<Rightarrow> z, s\<lparr>ms_sent := k\<rparr>)"
  using assms(2)
proof (induction ladder arbitrary: s)
  case Nil
  show ?case by (auto intro: exI [of _ "ms_sent s"])
next
  case (Cons z ladder)
  have one: "probeOnce net s z = (z \<le> M, s\<lparr>ms_sent := ms_sent s + 1\<rparr>)" for s
    using probeOnce_clean [OF assms(1)] Cons.prems by simp
  have open': "\<not> net_closed net k" for k using assms(1) by (simp add: clean_path_def)
  show ?case
  proof (cases "z \<le> M")
    case True
    then show ?thesis using one open' by (auto simp: defaultProbeAttempts_def eval_nat_numeral)
  next
    case False
    then have "probeAttempts net z defaultProbeAttempts s = (False, s\<lparr>ms_sent := ms_sent s + 2\<rparr>)"
      using one by (simp add: defaultProbeAttempts_def eval_nat_numeral)
    then show ?thesis using Cons.IH [of "s\<lparr>ms_sent := ms_sent s + 2\<rparr>"] Cons.prems open' False by auto
  qed
qed

lemma find_descending:
  "sorted_wrt (>) xs \<Longrightarrow> find (\<lambda>z. z \<le> (M :: int)) xs = (if \<exists>z \<in> set xs. z \<le> M then Some (Max {z \<in> set xs. z \<le> M}) else None)"
proof (induction xs)
  case (Cons x xs)
  show ?case
  proof (cases "x \<le> M")
    case True
    have "Max {z \<in> set (x # xs). z \<le> M} = x"
      by (rule Max_eqI) (use Cons.prems True in auto)
    then show ?thesis using True by simp
  next
    case False
    then have "{z \<in> set (x # xs). z \<le> M} = {z \<in> set xs. z \<le> M}" by auto
    then show ?thesis using Cons False by auto
  qed
qed simp

text \<open>The cap a clean path converges to, and the walk down the ladder that finds it.\<close>

lemma clean_cap_range:
  assumes "maxPktFloor \<le> maxPkt" "maxPkt \<le> int maxPktCeiling"
  shows "maxPktFloor \<le> mtuInitialCap maxPkt" "mtuInitialCap maxPkt \<le> clean_cap maxPkt M" "clean_cap maxPkt M \<le> maxPkt"
proof -
  show "maxPktFloor \<le> mtuInitialCap maxPkt" using assms by (auto simp: mtuInitialCap_def mtu_sizes)
  have "finite {z \<in> set (mtuLadderFor maxPkt). z \<le> M}" by simp
  then show "mtuInitialCap maxPkt \<le> clean_cap maxPkt M" "clean_cap maxPkt M \<le> maxPkt"
    using ladder_range [of _ maxPkt] Max_in [of "{z \<in> set (mtuLadderFor maxPkt). z \<le> M}"] mtuInitialCap_bounds(1) [of maxPkt]
    by (auto simp: clean_cap_def)
qed

lemma probePath_clean:
  assumes "clean_path net M" "maxPktFloor \<le> maxPkt" "maxPkt \<le> int maxPktCeiling"
  obtains k n where "probePath net maxPkt s = (n, s\<lparr>ms_sent := k\<rparr>)"
    "(if n > 0 then n else conservativeMtuFallback maxPkt) = clean_cap maxPkt M"
proof -
  define fit where "fit = {z \<in> set (mtuLadderFor maxPkt). z \<le> M}"
  note lo = clean_cap_range(1) [OF assms(2,3)] clean_cap_range(2,3) [OF assms(2,3), of M]
  have ladder: "\<forall>z \<in> set (mtuLadderFor maxPkt). maxPktFloor \<le> z \<and> z \<le> int maxPktCeiling"
    using ladder_range assms(2,3) lo(1) by (auto intro: order_trans)
  have "(case find (\<lambda>z. z \<le> M) (mtuLadderFor maxPkt) of None \<Rightarrow> 0 | Some z \<Rightarrow> z) = (if fit = {} then 0 else Max fit)"
    unfolding find_descending [OF ladder_descending, of M maxPkt] fit_def by auto
  then obtain k where k: "probePath net maxPkt s = (if fit = {} then 0 else Max fit, s\<lparr>ms_sent := k\<rparr>)"
    using probeLadder_clean [OF assms(1) ladder, of s] by (auto simp: probePath_def)
  have "0 < clean_cap maxPkt M" using lo by (simp add: mtu_sizes)
  then have "(if (if fit = {} then 0 else Max fit) > 0 then (if fit = {} then 0 else Max fit) else conservativeMtuFallback maxPkt)
      = clean_cap maxPkt M"
    unfolding clean_cap_def Let_def fit_def [symmetric] conservativeMtuFallback_eq by (cases "fit = {}") simp_all
  with k show thesis by (rule that)
qed

lemma converge_clean:
  assumes "clean_path net M" "maxPktFloor \<le> maxPkt" "maxPkt \<le> int maxPktCeiling"
    and "getFor (ms_cache s) generation now = 0" "ms_commits s = []"
  defines "s' \<equiv> convergeFrameBudget net None maxPkt generation now s" and "low \<equiv> mtuInitialCap maxPkt"
  shows "ms_sendCap s' = clean_cap maxPkt M
    \<and> map commit_size (ms_commits s') \<in> {[low, low], [low, low, clean_cap maxPkt M, clean_cap maxPkt M]}
    \<and> last (map commit_size (ms_commits s')) = clean_cap maxPkt M"
proof -
  define cap where "cap = clean_cap maxPkt M"
  have lo: "maxPktFloor \<le> low" "low \<le> cap" "cap \<le> maxPkt"
    using clean_cap_range [OF assms(2,3)] by (simp_all add: low_def cap_def)
  define s1 where "s1 = sendMtuCommit net low (s\<lparr>ms_sendCap := low\<rparr>)"
  have s1: "ms_sendCap s1 = low" "map commit_size (ms_commits s1) = [low, low]" "getFor (ms_cache s1) generation now = 0"
    using sendMtuCommit_fields sendMtuCommit_clean [OF assms(1) lo(1), of "s\<lparr>ms_sendCap := low\<rparr>"] lo assms(3-5)
    by (simp_all add: s1_def)
  obtain k n where k: "probePath net maxPkt s1 = (n, s1\<lparr>ms_sent := k\<rparr>)"
      "(if n > 0 then n else conservativeMtuFallback maxPkt) = cap"
    unfolding cap_def by (rule probePath_clean [OF assms(1-3)])
  define s2 where "s2 = (if n > 0 then s1\<lparr>ms_sent := k, ms_cache := storeFor (ms_cache s1) n generation now\<rparr> else s1\<lparr>ms_sent := k\<rparr>)"
  have q: "(if getFor (ms_cache s1) generation now = 0
      then (case probePath net maxPkt s1 of (n, s') \<Rightarrow>
              if n > 0 then (n, s'\<lparr>ms_cache := storeFor (ms_cache s') n generation now\<rparr>) else (conservativeMtuFallback maxPkt, s'))
      else (getFor (ms_cache s1) generation now, s1)) = (cap, s2)"
    unfolding s1(3) k(1) using k(2) by (cases "n > 0") (simp_all add: s2_def)
  have s2: "ms_sendCap s2 = low" "map commit_size (ms_commits s2) = [low, low]" using s1 by (simp_all add: s2_def)
  have clamp: "clampMtuCap cap maxPkt = cap" using lo by (simp add: clampMtuCap_def low_def)
  have c: "s' = (if cap \<noteq> low then sendMtuCommit net cap (s2\<lparr>ms_sendCap := cap\<rparr>) else s2)"
    unfolding s'_def convergeFrameBudget_def Let_def low_def [symmetric] s1_def [symmetric] q
    by (simp add: clamp s2 mtuProbeEnabled_def)
  have "map commit_size (ms_commits (sendMtuCommit net cap (s2\<lparr>ms_sendCap := cap\<rparr>))) = [low, low, cap, cap]"
    using sendMtuCommit_clean [OF assms(1), of cap "s2\<lparr>ms_sendCap := cap\<rparr>"] lo assms(3) s2 by simp
  then show ?thesis
    unfolding c cap_def [symmetric] using s2 by (cases "cap = low") (simp_all add: sendMtuCommit_fields)
qed

lemma applyMtuCommit_spec:
  "sm_maxPkt (applyMtuCommit m n) = min (max n maxPktFloor) (sm_serverMax m)" "sm_serverMax (applyMtuCommit m n) = sm_serverMax m"
  by (auto simp: applyMtuCommit_def Let_def openMtuGate_def min_def max_def)

lemma fold_applyMtuCommit:
  "sm_serverMax (fold (\<lambda>n m. applyMtuCommit m n) ns m) = sm_serverMax m"
  "ns \<noteq> [] \<Longrightarrow> sm_maxPkt (fold (\<lambda>n m. applyMtuCommit m n) ns m) = min (max (last ns) maxPktFloor) (sm_serverMax m)"
  by (induction ns arbitrary: m) (auto simp: applyMtuCommit_spec)

section \<open>Properties\<close>





end
