(* ===== verification/GoText.thy ===== *)
theory GoText
  imports Prelude
begin

text \<open>
  The operations of Go's \<^verbatim>\<open>strings\<close>, \<^verbatim>\<open>strconv\<close> and \<^verbatim>\<open>net\<close> packages that the configuration and
  target parsers use, on ASCII text: trimming, splitting at a separator byte, decimal integers
  and host/port pairs, with the round trips between printing and parsing.
\<close>

named_theorems text_simps \<open>printing and parsing of text\<close>

section \<open>Definitions\<close>

text \<open>\<^verbatim>\<open>strings.TrimSpace\<close>, \<^verbatim>\<open>strings.Split\<close>, \<^verbatim>\<open>strings.Cut\<close> and \<^verbatim>\<open>strings.Join\<close>; separators are single
  bytes.\<close>

definition isSpace :: "char \<Rightarrow> bool" where
  "isSpace c \<longleftrightarrow> of_char c \<in> {9, 10, 11, 12, 13, 32 :: nat}"

definition TrimSpace :: "string \<Rightarrow> string" where
  "TrimSpace s = rev (dropWhile isSpace (rev (dropWhile isSpace s)))"

fun splitOn :: "char \<Rightarrow> string \<Rightarrow> string list" where
  "splitOn c [] = [[]]"
| "splitOn c (x # xs) = (if x = c then [] # splitOn c xs
     else case splitOn c xs of [] \<Rightarrow> [[x]] | w # ws \<Rightarrow> (x # w) # ws)"

definition Cut :: "char \<Rightarrow> string \<Rightarrow> (string \<times> string) option" where
  "Cut c s = (if c \<in> set s then Some (takeWhile (\<lambda>x. x \<noteq> c) s, drop 1 (dropWhile (\<lambda>x. x \<noteq> c) s)) else None)"

definition CutLast :: "char \<Rightarrow> string \<Rightarrow> (string \<times> string) option" where
  "CutLast c s = map_option (\<lambda>(a, b). (rev b, rev a)) (Cut c (rev s))"

fun Join :: "char \<Rightarrow> string list \<Rightarrow> string" where
  "Join c [] = []"
| "Join c [w] = w"
| "Join c (w # ws) = w @ c # Join c ws"

text \<open>\<^verbatim>\<open>strconv.Atoi\<close> accepts one optional sign and at least one decimal digit, and fails outside
  the range of \<^verbatim>\<open>int\<close>; \<^verbatim>\<open>strconv.Itoa\<close> prints.\<close>

definition isDigit :: "char \<Rightarrow> bool" where
  "isDigit c \<longleftrightarrow> 48 \<le> (of_char c :: nat) \<and> (of_char c :: nat) \<le> 57"

definition digitVal :: "char \<Rightarrow> nat" where
  "digitVal c = of_char c - 48"

definition atou :: "string \<Rightarrow> nat option" where
  "atou s = (if s \<noteq> [] \<and> list_all isDigit s then Some (foldl (\<lambda>n c. 10 * n + digitVal c) 0 s) else None)"

definition Atoi :: "string \<Rightarrow> int option" where
  "Atoi s = (case s of
       [] \<Rightarrow> None
     | c # cs \<Rightarrow>
       if c = CHR ''-'' then (case atou cs of None \<Rightarrow> None | Some n \<Rightarrow> if n \<le> 2 ^ 63 then Some (- int n) else None)
       else (case atou (if c = CHR ''+'' then cs else s) of None \<Rightarrow> None | Some n \<Rightarrow> if n < 2 ^ 63 then Some (int n) else None))"

fun utoa :: "nat \<Rightarrow> string" where
  "utoa n = (if n < 10 then [char_of (48 + n)] else utoa (n div 10) @ [char_of (48 + n mod 10)])"

definition Itoa :: "int \<Rightarrow> string" where
  "Itoa n = (if n < 0 then CHR ''-'' # utoa (nat (- n)) else utoa (nat n))"

text \<open>\<^verbatim>\<open>net.SplitHostPort\<close>: the port follows the last colon; brackets may enclose the host and
  nothing else, and a host without brackets has no colon.\<close>

definition SplitHostPort :: "string \<Rightarrow> (string \<times> string) option" where
  "SplitHostPort s = (case CutLast (CHR '':'') s of
       None \<Rightarrow> None
     | Some (h, port) \<Rightarrow>
       if hd s = CHR ''['' then
         (case Cut (CHR '']'') s of
            None \<Rightarrow> None
          | Some (inside, rest) \<Rightarrow>
            if rest = CHR '':'' # port \<and> CHR ''['' \<notin> set (drop 1 s) \<and> CHR '']'' \<notin> set rest
            then Some (drop 1 inside, port) else None)
       else if CHR '':'' \<in> set h \<or> CHR ''['' \<in> set s \<or> CHR '']'' \<in> set s then None
       else Some (h, port))"

section \<open>Lemmas\<close>

lemma splitOn_nonempty [simp]: "splitOn c s \<noteq> []"
  by (induction s) (auto split: list.splits)

lemma splitOn_plain [text_simps]: "c \<notin> set w \<Longrightarrow> splitOn c w = [w]"
  by (induction w) auto

lemma splitOn_append [text_simps]: "c \<notin> set w \<Longrightarrow> splitOn c (w @ c # s) = w # splitOn c s"
  by (induction w) auto

lemma splitOn_Join [text_simps]:
  "ws \<noteq> [] \<Longrightarrow> \<forall>w \<in> set ws. c \<notin> set w \<Longrightarrow> splitOn c (Join c ws) = ws"
  by (induction c ws rule: Join.induct) (auto simp: text_simps)

lemma Join_splitOn: "Join c (splitOn c s) = s"
proof (induction s)
  case (Cons x xs)
  obtain w ws where w: "splitOn c xs = w # ws" by (meson list.exhaust splitOn_nonempty)
  show ?case using Cons w by (cases ws) auto
qed simp

lemma Cut_append [text_simps]: "c \<notin> set w \<Longrightarrow> Cut c (w @ c # s) = Some (w, s)"
  by (induction w) (auto simp: Cut_def)

lemma Cut_plain [text_simps]: "c \<notin> set w \<Longrightarrow> Cut c w = None"
  by (simp add: Cut_def)

lemma CutLast_append [text_simps]: "c \<notin> set s \<Longrightarrow> CutLast c (w @ c # s) = Some (w, s)"
  using Cut_append [of c "rev s" "rev w"] by (simp add: CutLast_def)

lemma TrimSpace_id [text_simps]:
  assumes "s = [] \<or> \<not> isSpace (hd s) \<and> \<not> isSpace (last s)"
  shows "TrimSpace s = s"
proof (cases "s = []")
  case False
  then have "dropWhile isSpace s = s" "dropWhile isSpace (rev s) = rev s"
    using assms by (simp_all add: dropWhile_eq_self_iff hd_rev)
  then show ?thesis by (simp add: TrimSpace_def)
qed (simp add: TrimSpace_def)

lemma digit_char [simp]:
  "d < 10 \<Longrightarrow> isDigit (char_of (48 + d))" "d < 10 \<Longrightarrow> digitVal (char_of (48 + d)) = d"
  by (simp_all add: isDigit_def digitVal_def)

lemma utoa_digits: "list_all isDigit (utoa n) \<and> utoa n \<noteq> []"
proof (induction n rule: utoa.induct)
  case (1 n)
  then show ?case by (subst (1 2) utoa.simps) (auto simp del: utoa.simps)
qed

lemma utoa_val: "foldl (\<lambda>n c. 10 * n + digitVal c) 0 (utoa n) = n"
proof (induction n rule: utoa.induct)
  case (1 n)
  then show ?case by (subst utoa.simps) (auto simp del: utoa.simps)
qed

lemma atou_utoa [text_simps]: "atou (utoa n) = Some n"
  using utoa_digits [of n] utoa_val [of n] by (simp add: atou_def del: utoa.simps)

lemma isDigit_distinct:
  "isDigit c \<Longrightarrow> c \<noteq> CHR ''-'' \<and> c \<noteq> CHR ''+'' \<and> c \<noteq> CHR '','' \<and> c \<noteq> CHR '':'' \<and> c \<noteq> CHR ''['' \<and> c \<noteq> CHR '']'' \<and> \<not> isSpace c"
  by (auto simp: isDigit_def isSpace_def)

lemma Itoa_digits: "0 \<le> n \<Longrightarrow> list_all isDigit (Itoa n) \<and> Itoa n \<noteq> []"
  using utoa_digits [of "nat n"] by (simp add: Itoa_def del: utoa.simps)

lemma Itoa_chars [text_simps]:
  "0 \<le> n \<Longrightarrow> c \<in> set (Itoa n) \<Longrightarrow> isDigit c"
  using Itoa_digits [of n] by (simp add: list_all_iff)

lemma Atoi_Itoa [text_simps]:
  assumes "- (2 ^ 63) \<le> n" "n < 2 ^ 63"
  shows "Atoi (Itoa n) = Some n"
proof (cases "n < 0")
  case True
  then show ?thesis using assms by (simp add: Atoi_def Itoa_def text_simps del: utoa.simps)
next
  case False
  then have d: "list_all isDigit (Itoa n)" "Itoa n \<noteq> []" using Itoa_digits [of n] by auto
  then obtain c cs where c: "Itoa n = c # cs" "isDigit c" by (cases "Itoa n") auto
  have "atou (Itoa n) = Some (nat n)" using False by (simp add: Itoa_def text_simps del: utoa.simps)
  then show ?thesis
    using c isDigit_distinct [OF c(2)] False assms by (simp add: Atoi_def)
qed

lemma Atoi_no_sign: "Atoi (c # cs) = Some n \<Longrightarrow> c \<noteq> CHR ''-'' \<Longrightarrow> 0 \<le> n"
  by (auto simp: Atoi_def split: option.splits if_splits)

lemma SplitHostPort_plain [text_simps]:
  assumes "h = [] \<or> hd h \<noteq> CHR ''[''" "set (h @ p) \<inter> {CHR '':'', CHR ''['', CHR '']''} = {}"
  shows "SplitHostPort (h @ CHR '':'' # p) = Some (h, p)"
proof -
  have "hd (h @ CHR '':'' # p) \<noteq> CHR ''[''" using assms(1) by (cases h) auto
  then show ?thesis using assms(2) by (simp add: SplitHostPort_def text_simps)
qed

lemma SplitHostPort_bracket [text_simps]:
  assumes "set h \<inter> {CHR ''['', CHR '']''} = {}" "set p \<inter> {CHR '':'', CHR ''['', CHR '']''} = {}"
  shows "SplitHostPort (CHR ''['' # h @ CHR '']'' # CHR '':'' # p) = Some (h, p)"
proof -
  have "CutLast (CHR '':'') (CHR ''['' # h @ CHR '']'' # CHR '':'' # p) = Some (CHR ''['' # h @ [CHR '']''], p)"
    using CutLast_append [of "CHR '':''" p "CHR ''['' # h @ [CHR '']'']"] assms(2) by simp
  moreover have "Cut (CHR '']'') (CHR ''['' # h @ CHR '']'' # CHR '':'' # p) = Some (CHR ''['' # h, CHR '':'' # p)"
    using Cut_append [of "CHR '']''" "CHR ''['' # h" "CHR '':'' # p"] assms(1) by simp
  ultimately show ?thesis using assms by (simp add: SplitHostPort_def)
qed

end
