(* ===== verification/PortRange.thy ===== *)
theory PortRange
  imports GoText
begin

text \<open>
  Destination port ranges (\<^verbatim>\<open>tunnel/portrange.go\<close>, lines 17--262 and 401--423): parsing a port
  specification, the merged interval representation with its binary search and indexing, and
  printing it back.  The text operations are those of \<open>GoText\<close>.
\<close>

section \<open>Definitions\<close>

datatype port_error = EmptyAddress | InvalidAddress | EmptySpec | EmptySegment | InvalidRange | PortOutOfRange
  | RangeReversed | InvalidPort | NoPorts

subsection \<open>Parsing a specification\<close>

definition addPort :: "int \<Rightarrow> int list \<Rightarrow> int list" where
  "addPort p ports = (if p \<in> set ports then ports else ports @ [p])"

definition parseSegment :: "string \<Rightarrow> int list \<Rightarrow> port_error + int list" where
  "parseSegment raw ports = (let seg = TrimSpace raw in
     if seg = [] then Inl EmptySegment
     else case Cut (CHR ''-'') seg of
       Some (a, b) \<Rightarrow>
         (case (Atoi (TrimSpace a), Atoi (TrimSpace b)) of
            (Some lo, Some hi) \<Rightarrow>
              if lo < 1 \<or> 65535 < hi then Inl PortOutOfRange
              else if hi < lo then Inl RangeReversed
              else Inr (fold addPort [lo..hi] ports)
          | _ \<Rightarrow> Inl InvalidRange)
     | None \<Rightarrow>
         (case Atoi seg of
            None \<Rightarrow> Inl InvalidPort
          | Some p \<Rightarrow> if p < 1 \<or> 65535 < p then Inl PortOutOfRange else Inr (addPort p ports)))"

fun parseSegments :: "string list \<Rightarrow> int list \<Rightarrow> port_error + int list" where
  "parseSegments [] ports = Inr ports"
| "parseSegments (seg # segs) ports = (case parseSegment seg ports of
     Inl e \<Rightarrow> Inl e | Inr ports' \<Rightarrow> parseSegments segs ports')"

definition ParsePortRangeSpec :: "string \<Rightarrow> port_error + int list" where
  "ParsePortRangeSpec raw = (let spec = TrimSpace raw in
     if spec = [] then Inl EmptySpec
     else case parseSegments (splitOn (CHR '','') spec) [] of
       Inl e \<Rightarrow> Inl e
     | Inr ports \<Rightarrow> if ports = [] then Inl NoPorts else Inr (sort ports))"

definition ParseServerAddrWithRange :: "string \<Rightarrow> port_error + string \<times> int list" where
  "ParseServerAddrWithRange raw = (let addr = TrimSpace raw in
     if addr = [] then Inl EmptyAddress
     else case SplitHostPort addr of
       None \<Rightarrow> Inl InvalidAddress
     | Some (h, portSpec) \<Rightarrow>
         (case ParsePortRangeSpec portSpec of Inl e \<Rightarrow> Inl e | Inr ports \<Rightarrow> Inr (h, ports)))"

subsection \<open>The interval representation\<close>

record portInterval =
  iv_lo :: int
  iv_hi :: int

record PortRange =
  pr_intervals :: "portInterval list"
  pr_total :: int

fun mergePorts :: "int \<Rightarrow> int \<Rightarrow> int list \<Rightarrow> portInterval list" where
  "mergePorts lo hi [] = [\<lparr> iv_lo = lo, iv_hi = hi \<rparr>]"
| "mergePorts lo hi (p # ps) =
     (if p = hi then mergePorts lo hi ps
      else if p = hi + 1 then mergePorts lo p ps
      else \<lparr> iv_lo = lo, iv_hi = hi \<rparr> # mergePorts p p ps)"

definition NewPortRange :: "int list \<Rightarrow> port_error + PortRange" where
  "NewPortRange ports =
     (if ports = [] then Inl NoPorts
      else let sorted = sort ports in
        if hd sorted < 1 \<or> 65535 < last sorted then Inl PortOutOfRange
        else let ivs = mergePorts (hd sorted) (hd sorted) (tl sorted)
             in Inr \<lparr> pr_intervals = ivs, pr_total = sum_list (map (\<lambda>iv. iv_hi iv - iv_lo iv + 1) ivs) \<rparr>)"

definition Total :: "PortRange \<Rightarrow> int" where
  "Total pr = pr_total pr"

definition Intervals :: "PortRange \<Rightarrow> (int \<times> int) list" where
  "Intervals pr = map (\<lambda>iv. (iv_lo iv, iv_hi iv)) (pr_intervals pr)"

function searchPort :: "portInterval list \<Rightarrow> int \<Rightarrow> int \<Rightarrow> int \<Rightarrow> bool" where
  "searchPort ivs port lo hi =
     (if hi < lo then False
      else let mid = (lo + hi) div 2; iv = ivs ! nat mid in
        if port < iv_lo iv then searchPort ivs port lo (mid - 1)
        else if iv_hi iv < port then searchPort ivs port (mid + 1) hi
        else True)"
  by pat_completeness auto

termination
  by (relation "measure (\<lambda>(ivs, port, lo, hi). nat (hi - lo + 1))") auto

declare searchPort.simps [simp del]

definition Contains :: "PortRange \<Rightarrow> int \<Rightarrow> bool" where
  "Contains pr port = searchPort (pr_intervals pr) port 0 (int (length (pr_intervals pr)) - 1)"

fun portAt :: "int \<Rightarrow> portInterval list \<Rightarrow> int \<Rightarrow> int" where
  "portAt end_port [] i = end_port"
| "portAt end_port (iv # ivs) i = (let n = iv_hi iv - iv_lo iv + 1 in
     if i < n then iv_lo iv + i else portAt end_port ivs (i - n))"

definition PortAt :: "PortRange \<Rightarrow> int \<Rightarrow> int" where
  "PortAt pr i =
     (if pr_total pr = 0 then 0
      else let a = (if i < 0 then 0 else i);
               b = (if pr_total pr \<le> a then pr_total pr - 1 else a)
           in portAt (iv_hi (last (pr_intervals pr))) (pr_intervals pr) b)"

definition intervalString :: "portInterval \<Rightarrow> string" where
  "intervalString iv = (if iv_lo iv = iv_hi iv then Itoa (iv_lo iv) else Itoa (iv_lo iv) @ CHR ''-'' # Itoa (iv_hi iv))"

definition String :: "PortRange \<Rightarrow> string" where
  "String pr = (if pr_intervals pr = [] then [] else Join (CHR '','') (map intervalString (pr_intervals pr)))"

definition FormatPortList :: "int list \<Rightarrow> string" where
  "FormatPortList ports = (case NewPortRange ports of Inl _ \<Rightarrow> [] | Inr pr \<Rightarrow> String pr)"

definition PortRangeOf :: "string \<Rightarrow> PortRange option" where
  "PortRangeOf raw = (let spec = TrimSpace raw in
     if spec = [] then None
     else case (case ParsePortRangeSpec spec of
                  Inr ports \<Rightarrow> Some ports
                | Inl _ \<Rightarrow> (case ParseServerAddrWithRange spec of Inr (_, ports) \<Rightarrow> Some ports | Inl _ \<Rightarrow> None)) of
       None \<Rightarrow> None
     | Some ports \<Rightarrow> (case NewPortRange ports of Inl _ \<Rightarrow> None | Inr pr \<Rightarrow> Some pr))"

subsection \<open>Contract\<close>

text \<open>The ports that an interval list stands for, in ascending order, and the shape that
  \<open>NewPortRange\<close> establishes: valid ports, sorted, with gaps between the intervals.\<close>

definition iv_ports :: "portInterval \<Rightarrow> int list" where
  "iv_ports iv = [iv_lo iv..iv_hi iv]"

definition ports_of :: "PortRange \<Rightarrow> int list" where
  "ports_of pr = concat (map iv_ports (pr_intervals pr))"

fun merged :: "int \<Rightarrow> portInterval list \<Rightarrow> bool" where
  "merged b [] = True"
| "merged b (iv # ivs) = (b < iv_lo iv \<and> iv_lo iv \<le> iv_hi iv \<and> merged (iv_hi iv + 1) ivs)"

definition range_ok :: "PortRange \<Rightarrow> bool" where
  "range_ok pr \<longleftrightarrow> pr_intervals pr \<noteq> [] \<and> merged 0 (pr_intervals pr) \<and> iv_hi (last (pr_intervals pr)) \<le> 65535
     \<and> pr_total pr = int (length (ports_of pr))"

section \<open>Lemmas\<close>

lemma merged_weaken: "merged b ivs \<Longrightarrow> a \<le> b \<Longrightarrow> merged a ivs"
  by (cases ivs) auto

lemma merged_bound: "merged b ivs \<Longrightarrow> p \<in> set (concat (map iv_ports ivs)) \<Longrightarrow> b < p"
proof (induction ivs arbitrary: b)
  case (Cons iv ivs)
  then show ?case using Cons.IH [of "iv_hi iv + 1"] by (fastforce simp: iv_ports_def)
qed simp

lemma merged_sorted: "merged b ivs \<Longrightarrow> sorted_wrt (<) (concat (map iv_ports ivs))"
proof (induction ivs arbitrary: b)
  case (Cons iv ivs)
  have "sorted_wrt (<) (iv_ports iv)"
    by (simp add: iv_ports_def strict_sorted_iff)
  moreover have "sorted_wrt (<) (concat (map iv_ports ivs))" using Cons by auto
  moreover have "x < y" if "x \<in> set (iv_ports iv)" "y \<in> set (concat (map iv_ports ivs))" for x y
    using that merged_bound [OF _ that(2), of "iv_hi iv + 1"] Cons.prems by (simp add: iv_ports_def)
  ultimately show ?case by (simp add: sorted_wrt_append)
qed simp

lemma mergePorts_merged:
  "sorted (hi # ps) \<Longrightarrow> b < lo \<Longrightarrow> lo \<le> hi \<Longrightarrow> merged b (mergePorts lo hi ps)"
proof (induction lo hi ps arbitrary: b rule: mergePorts.induct)
  case (2 lo hi p ps)
  then show ?case by (auto simp: order.strict_iff_order)
qed simp

lemma mergePorts_set:
  "sorted (hi # ps) \<Longrightarrow> lo \<le> hi \<Longrightarrow> set (concat (map iv_ports (mergePorts lo hi ps))) = {lo..hi} \<union> set ps"
proof (induction lo hi ps rule: mergePorts.induct)
  case (1 lo hi)
  then show ?case by (simp add: iv_ports_def)
next
  case (2 lo hi p ps)
  consider "p = hi" | "p = hi + 1" | "hi + 1 < p" using 2(4) by fastforce
  then show ?case
  proof cases
    case 1
    then show ?thesis using 2 by auto
  next
    case 2
    then have "{lo..p} = insert p {lo..hi}" using \<open>lo \<le> hi\<close> by auto
    then show ?thesis using 2 "2.IH" "2.prems" by auto
  next
    case 3
    then show ?thesis using "2.IH" "2.prems" by (auto simp: iv_ports_def)
  qed
qed

lemma mergePorts_nonempty [simp]: "mergePorts lo hi ps \<noteq> []"
  by (induction lo hi ps rule: mergePorts.induct) auto

lemma mergePorts_last: "iv_hi (last (mergePorts lo hi ps)) = last (hi # ps)"
  by (induction lo hi ps rule: mergePorts.induct) (auto split: if_splits)

lemma length_sum_iv: "merged b ivs \<Longrightarrow>
  sum_list (map (\<lambda>iv. iv_hi iv - iv_lo iv + 1) ivs) = int (length (concat (map iv_ports ivs)))"
  by (induction ivs arbitrary: b) (auto simp: iv_ports_def)

lemma NewPortRange_ok:
  assumes "NewPortRange ports = Inr pr"
  shows "range_ok pr" "set (ports_of pr) = set ports"
proof -
  define xs where "xs = sort ports"
  have ne: "ports \<noteq> []" "\<not> (hd xs < 1 \<or> 65535 < last xs)"
      and pr: "pr = \<lparr> pr_intervals = mergePorts (hd xs) (hd xs) (tl xs), pr_total = sum_list (map (\<lambda>iv. iv_hi iv - iv_lo iv + 1) (mergePorts (hd xs) (hd xs) (tl xs))) \<rparr>"
    using assms by (auto simp: NewPortRange_def Let_def xs_def split: if_splits)
  have x: "xs \<noteq> []" "set xs = set ports" using ne(1) by (auto simp: xs_def dest: arg_cong [where f = set])
  have "sorted xs" by (simp add: xs_def)
  then have srt: "sorted (hd xs # tl xs)" using x(1) by simp
  note m = mergePorts_merged [OF srt, of 0 "hd xs"] mergePorts_set [OF srt, of "hd xs"]
  show "set (ports_of pr) = set ports"
    using m(2) x by (cases xs) (auto simp: ports_of_def pr)
  show "range_ok pr"
    using m(1) ne(2) x(1) length_sum_iv [OF m(1)] mergePorts_last [of "hd xs" "hd xs" "tl xs"]
    by (simp add: range_ok_def pr ports_of_def)
qed

lemma NewPortRange_error:
  "NewPortRange ports = Inl e \<Longrightarrow> ports = [] \<or> (\<exists>p \<in> set ports. p < 1 \<or> 65535 < p)"
  using hd_in_set [of "sort ports"] last_in_set [of "sort ports"] set_empty [of "sort ports"]
  by (auto simp: NewPortRange_def Let_def split: if_splits dest: arg_cong [where f = set])

lemma ports_of_sorted_list:
  assumes "range_ok pr"
  shows "ports_of pr = sorted_list_of_set (set (ports_of pr))"
proof -
  have "sorted_wrt (<) (ports_of pr)" using merged_sorted assms by (auto simp: range_ok_def ports_of_def)
  then show ?thesis
    using sorted_list_of_set.idem_if_sorted_distinct [of "ports_of pr"] by (simp add: strict_sorted_iff)
qed

lemma mergePorts_run: "h \<le> hi \<Longrightarrow> mergePorts lo h ([h + 1..hi] @ ps) = mergePorts lo hi ps"
proof (induction "nat (hi - h)" arbitrary: h)
  case (Suc k)
  then have "[h + 1..hi] = (h + 1) # [(h + 1) + 1..hi]" by (simp add: upto_rec1)
  then show ?case using Suc(1) [of "h + 1"] Suc(2-) by simp
qed simp

lemma mergePorts_flat:
  "merged (hi + 1) ivs \<Longrightarrow> mergePorts lo hi (concat (map iv_ports ivs)) = \<lparr> iv_lo = lo, iv_hi = hi \<rparr> # ivs"
proof (induction ivs arbitrary: lo hi)
  case (Cons iv ivs)
  then have "iv_ports iv = iv_lo iv # [iv_lo iv + 1..iv_hi iv]" by (simp add: iv_ports_def upto_rec1)
  then show ?case using Cons by (simp add: mergePorts_run)
qed simp

lemma NewPortRange_ports_of:
  assumes "range_ok pr"
  shows "NewPortRange (ports_of pr) = Inr pr"
proof -
  obtain iv ivs where ivs: "pr_intervals pr = iv # ivs" using assms by (cases "pr_intervals pr") (auto simp: range_ok_def)
  have m: "0 < iv_lo iv" "iv_lo iv \<le> iv_hi iv" "merged (iv_hi iv + 1) ivs" "merged 0 (iv # ivs)"
    using assms by (auto simp: range_ok_def ivs)
  have f: "ports_of pr = iv_lo iv # [iv_lo iv + 1..iv_hi iv] @ concat (map iv_ports ivs)"
    using m by (simp add: ports_of_def ivs iv_ports_def upto_rec1)
  have mg: "mergePorts (iv_lo iv) (iv_lo iv) (tl (ports_of pr)) = iv # ivs"
    using m(2) by (simp add: f mergePorts_run mergePorts_flat [OF m(3)])
  have "sorted (ports_of pr)"
    using merged_sorted [OF m(4)] by (simp add: ports_of_def ivs strict_sorted_iff)
  then have "sort (ports_of pr) = ports_of pr" by (simp add: sorted_sort_id)
  moreover have "last (ports_of pr) \<le> 65535"
    using assms mergePorts_last [of "iv_lo iv" "iv_lo iv" "tl (ports_of pr)"] mg by (simp add: f range_ok_def ivs)
  moreover have "hd (ports_of pr) = iv_lo iv" "ports_of pr \<noteq> []" by (simp_all add: f)
  moreover have "pr = \<lparr> pr_intervals = iv # ivs, pr_total = sum_list (map (\<lambda>iv. iv_hi iv - iv_lo iv + 1) (iv # ivs)) \<rparr>"
    using length_sum_iv [OF m(4)] assms ivs by (cases pr) (simp add: range_ok_def ports_of_def)
  ultimately show ?thesis
    using m(1) mg by (simp add: NewPortRange_def Let_def)
qed

lemma merged_nth:
  "merged b ivs \<Longrightarrow> i < length ivs \<Longrightarrow> iv_lo (ivs ! i) \<le> iv_hi (ivs ! i) \<and> b < iv_lo (ivs ! i)"
proof (induction ivs arbitrary: b i)
  case (Cons iv ivs)
  then show ?case using Cons.IH [of "iv_hi iv + 1"] by (fastforce simp: nth_Cons split: nat.split)
qed simp

lemma merged_less:
  "merged b ivs \<Longrightarrow> i < j \<Longrightarrow> j < length ivs \<Longrightarrow> iv_hi (ivs ! i) < iv_lo (ivs ! j)"
proof (induction ivs arbitrary: b i j)
  case (Cons iv ivs)
  then show ?case
    using merged_nth [of "iv_hi iv + 1" ivs "j - 1"] Cons.IH [of "iv_hi iv + 1" "i - 1" "j - 1"]
    by (cases j; cases i) auto
qed simp

lemma searchPort_iff:
  "merged b ivs \<Longrightarrow> 0 \<le> lo \<Longrightarrow> hi < int (length ivs) \<Longrightarrow>
    searchPort ivs port lo hi \<longleftrightarrow> (\<exists>i. lo \<le> int i \<and> int i \<le> hi \<and> iv_lo (ivs ! i) \<le> port \<and> port \<le> iv_hi (ivs ! i))"
proof (induction ivs port lo hi rule: searchPort.induct)
  case (1 ivs port lo hi)
  define mid where "mid = (lo + hi) div 2"
  show ?case
  proof (cases "hi < lo")
    case False
    then have mid: "lo \<le> mid" "mid \<le> hi" by (auto simp: mid_def)
    define m where "m = nat mid"
    have m: "int m = mid" "m < length ivs" using mid 1(4,5) by (auto simp: m_def)
    note step = searchPort.simps [of ivs port lo hi, unfolded Let_def, folded mid_def, folded m_def]
    consider (below) "port < iv_lo (ivs ! m)" | (above) "iv_hi (ivs ! m) < port" "\<not> port < iv_lo (ivs ! m)"
      | (hit) "iv_lo (ivs ! m) \<le> port" "port \<le> iv_hi (ivs ! m)" by linarith
    then show ?thesis
    proof cases
      case below
      have left: "int i \<le> mid - 1 \<longleftrightarrow> int i \<le> hi" if "iv_lo (ivs ! i) \<le> port" for i
      proof -
        have "\<not> m \<le> i" if "int i \<le> hi"
          using that \<open>iv_lo (ivs ! i) \<le> port\<close> below merged_less [OF 1(3), of m i] merged_nth [OF 1(3) m(2)] 1(5)
          by (cases "m = i") auto
        then show ?thesis using m(1) mid(2) by linarith
      qed
      have "searchPort ivs port lo hi = searchPort ivs port lo (mid - 1)" using below False step by simp
      then show ?thesis
        using 1(1) [OF False mid_def refl] below m_def 1(3-5) mid(2) left by auto
    next
      case above
      have right: "mid + 1 \<le> int i \<longleftrightarrow> lo \<le> int i" if "port \<le> iv_hi (ivs ! i)" for i
      proof -
        have "\<not> i \<le> m" using that above merged_less [OF 1(3), of i m] merged_nth [OF 1(3) m(2)] m(2)
          by (cases "m = i") auto
        then show ?thesis using m(1) mid(1) by linarith
      qed
      have "searchPort ivs port lo hi = searchPort ivs port (mid + 1) hi" using above False step by simp
      then show ?thesis
        using 1(2) [OF False mid_def refl] above m_def 1(3-5) mid(1) right by auto
    next
      case hit
      then show ?thesis using False m mid step by auto
    qed
  qed (simp add: searchPort.simps)
qed

lemma Contains_iff:
  assumes "range_ok pr"
  shows "Contains pr port \<longleftrightarrow> port \<in> set (ports_of pr)"
proof -
  have "merged 0 (pr_intervals pr)" using assms by (simp add: range_ok_def)
  from searchPort_iff [OF this, of 0 "int (length (pr_intervals pr)) - 1" port]
  show ?thesis
    by (simp add: Contains_def ports_of_def iv_ports_def) (metis in_set_conv_nth nth_mem)
qed

lemma portAt_nth:
  "merged b ivs \<Longrightarrow> 0 \<le> i \<Longrightarrow> i < int (length (concat (map iv_ports ivs))) \<Longrightarrow>
     portAt e ivs i = concat (map iv_ports ivs) ! nat i"
proof (induction ivs arbitrary: b i)
  case (Cons iv ivs)
  define n where "n = iv_hi iv - iv_lo iv + 1"
  have n: "int (length (iv_ports iv)) = n" using Cons.prems by (simp add: iv_ports_def n_def)
  show ?case
  proof (cases "i < n")
    case True
    then show ?thesis using Cons.prems n by (simp add: n_def nth_append) (simp add: iv_ports_def n_def nth_upto)
  next
    case False
    have n': "length (iv_ports iv) = nat n" "0 \<le> n" using n by auto
    show ?thesis using False Cons.prems n' Cons.IH [of "iv_hi iv + 1" "i - n"]
      by (simp add: n_def [symmetric] nth_append nat_diff_distrib Let_def)
  qed
qed simp

lemma PortAt_nth:
  assumes "range_ok pr" "0 \<le> i" "i < Total pr"
  shows "PortAt pr i = ports_of pr ! nat i"
proof -
  have "pr_total pr \<noteq> 0" using assms by (simp add: Total_def)
  then show ?thesis
    using assms portAt_nth [of 0 "pr_intervals pr" i "iv_hi (last (pr_intervals pr))"]
    unfolding PortAt_def by (auto simp: range_ok_def Total_def ports_of_def)
qed

lemma fold_addPort: "distinct (acc @ xs) \<Longrightarrow> fold addPort xs acc = acc @ xs"
  by (induction xs arbitrary: acc) (auto simp: addPort_def)

lemma intervalString_chars:
  assumes "0 < iv_lo iv" "iv_lo iv \<le> iv_hi iv" "c \<in> set (intervalString iv)"
  shows "isDigit c \<or> c = CHR ''-''"
  using assms Itoa_chars [of "iv_lo iv" c] Itoa_chars [of "iv_hi iv" c] by (auto simp: intervalString_def split: if_splits)

lemma intervalString_ends:
  assumes "0 < iv_lo iv" "iv_lo iv \<le> iv_hi iv"
  shows "intervalString iv \<noteq> []" "isDigit (hd (intervalString iv))" "isDigit (last (intervalString iv))"
  using Itoa_digits [of "iv_lo iv"] Itoa_digits [of "iv_hi iv"] assms
  by (auto simp: intervalString_def list_all_iff)

lemma TrimSpace_digits:
  "s \<noteq> [] \<Longrightarrow> isDigit (hd s) \<Longrightarrow> isDigit (last s) \<Longrightarrow> TrimSpace s = s"
  by (rule TrimSpace_id) (simp add: isDigit_distinct)

lemma TrimSpace_Itoa [text_simps]: "0 \<le> n \<Longrightarrow> TrimSpace (Itoa n) = Itoa n"
  using Itoa_digits [of n] by (intro TrimSpace_digits) (auto simp: list_all_iff)

lemma Itoa_no_dash [text_simps]: "0 \<le> n \<Longrightarrow> CHR ''-'' \<notin> set (Itoa n)"
  using Itoa_chars [of n "CHR ''-''"] isDigit_distinct by blast

lemma parseSegment_intervalString:
  assumes "0 < iv_lo iv" "iv_lo iv \<le> iv_hi iv" "iv_hi iv \<le> 65535"
  shows "parseSegment (intervalString iv) ports = Inr (fold addPort (iv_ports iv) ports)"
proof -
  have t: "TrimSpace (intervalString iv) = intervalString iv" "intervalString iv \<noteq> []"
    using intervalString_ends [OF assms(1,2)] TrimSpace_digits by auto
  have a: "Atoi (Itoa (iv_lo iv)) = Some (iv_lo iv)" "Atoi (Itoa (iv_hi iv)) = Some (iv_hi iv)"
    using assms by (simp_all add: text_simps)
  show ?thesis
  proof (cases "iv_lo iv = iv_hi iv")
    case True
    then have s: "intervalString iv = Itoa (iv_lo iv)" by (simp add: intervalString_def)
    have "Cut (CHR ''-'') (Itoa (iv_lo iv)) = None" using assms by (simp add: text_simps)
    then show ?thesis using t a assms True by (simp add: parseSegment_def s iv_ports_def)
  next
    case False
    then have s: "intervalString iv = Itoa (iv_lo iv) @ CHR ''-'' # Itoa (iv_hi iv)" by (simp add: intervalString_def)
    have "Cut (CHR ''-'') (intervalString iv) = Some (Itoa (iv_lo iv), Itoa (iv_hi iv))"
      using assms by (simp add: s text_simps)
    then show ?thesis using t a assms by (simp add: parseSegment_def iv_ports_def text_simps)
  qed
qed

lemma parseSegments_intervals:
  "merged b ivs \<Longrightarrow> 0 \<le> b \<Longrightarrow> \<forall>iv \<in> set ivs. iv_hi iv \<le> 65535 \<Longrightarrow>
   parseSegments (map intervalString ivs) ports = Inr (fold addPort (concat (map iv_ports ivs)) ports)"
  by (induction ivs arbitrary: b ports) (auto simp: parseSegment_intervalString)

lemma merged_last: "merged b ivs \<Longrightarrow> iv \<in> set ivs \<Longrightarrow> iv_hi iv \<le> iv_hi (last ivs)"
proof (induction ivs arbitrary: b)
  case (Cons a ivs)
  then show ?case
    using merged_nth [of "iv_hi a + 1" ivs "length ivs - 1"] by (cases "ivs = []") (auto simp: last_conv_nth)
qed simp

lemma Join_ends:
  "ws \<noteq> [] \<Longrightarrow> \<forall>w \<in> set ws. w \<noteq> [] \<Longrightarrow> Join c ws \<noteq> [] \<and> hd (Join c ws) = hd (hd ws) \<and> last (Join c ws) = last (last ws)"
  by (induction c ws rule: Join.induct) auto

lemma set_Join: "set (Join c ws) \<subseteq> insert c (\<Union> (set ` set ws))"
  by (induction c ws rule: Join.induct) auto

lemma intervals_valid:
  assumes "range_ok pr" "iv \<in> set (pr_intervals pr)"
  shows "0 < iv_lo iv" "iv_lo iv \<le> iv_hi iv" "iv_hi iv \<le> 65535"
proof -
  have m: "merged 0 (pr_intervals pr)" "iv_hi (last (pr_intervals pr)) \<le> 65535" using assms(1) by (simp_all add: range_ok_def)
  obtain i where "i < length (pr_intervals pr)" "iv = pr_intervals pr ! i" using assms(2) by (auto simp: in_set_conv_nth)
  then show "0 < iv_lo iv" "iv_lo iv \<le> iv_hi iv" using merged_nth [OF m(1)] by auto
  show "iv_hi iv \<le> 65535" using merged_last [OF m(1) assms(2)] m(2) by simp
qed

lemma String_shape:
  assumes "range_ok pr"
  shows "String pr \<noteq> []" "isDigit (hd (String pr))" "isDigit (last (String pr))"
    and "c \<in> set (String pr) \<Longrightarrow> isDigit c \<or> c = CHR ''-'' \<or> c = CHR '',''"
proof -
  define ws where "ws = map intervalString (pr_intervals pr)"
  have ne: "pr_intervals pr \<noteq> []" "ws \<noteq> []" using assms by (auto simp: range_ok_def ws_def)
  have st: "String pr = Join (CHR '','') ws" using ne by (simp add: String_def ws_def)
  have w: "w \<noteq> [] \<and> isDigit (hd w) \<and> isDigit (last w) \<and> (\<forall>c \<in> set w. isDigit c \<or> c = CHR ''-'')" if "w \<in> set ws" for w
  proof -
    from that obtain iv where iv: "iv \<in> set (pr_intervals pr)" "w = intervalString iv" by (auto simp: ws_def)
    note v = intervals_valid(1,2) [OF assms iv(1)]
    show ?thesis unfolding iv(2) using intervalString_ends [OF v] intervalString_chars [OF v] by simp
  qed
  have "\<forall>w \<in> set ws. w \<noteq> []" using w by blast
  from Join_ends [OF ne(2) this, of "CHR '',''"] w ne(2)
  show "String pr \<noteq> []" "isDigit (hd (String pr))" "isDigit (last (String pr))"
    by (simp_all add: st)
  show "isDigit c \<or> c = CHR ''-'' \<or> c = CHR '',''" if "c \<in> set (String pr)"
    using that set_Join [of "CHR '',''" ws] w by (auto simp: st)
qed

lemma ParsePortRangeSpec_String:
  assumes "range_ok pr"
  shows "ParsePortRangeSpec (String pr) = Inr (ports_of pr)"
proof -
  have m: "merged 0 (pr_intervals pr)" "pr_intervals pr \<noteq> []" using assms by (simp_all add: range_ok_def)
  have "CHR '','' \<notin> set (intervalString iv)" if "iv \<in> set (pr_intervals pr)" for iv
    using intervalString_chars [OF intervals_valid(1,2) [OF assms that], of "CHR '',''"] by (auto simp: isDigit_def)
  then have split: "splitOn (CHR '','') (String pr) = map intervalString (pr_intervals pr)"
    using m(2) by (simp add: String_def splitOn_Join)
  have parse: "parseSegments (map intervalString (pr_intervals pr)) [] = Inr (fold addPort (ports_of pr) [])"
    using parseSegments_intervals [OF m(1)] intervals_valid(3) [OF assms] by (simp add: ports_of_def)
  have "sorted_wrt (<) (ports_of pr)" using merged_sorted [OF m(1)] by (simp add: ports_of_def)
  then have srt: "fold addPort (ports_of pr) [] = ports_of pr" "sort (ports_of pr) = ports_of pr"
    by (simp_all add: strict_sorted_iff fold_addPort sorted_sort_id)
  have "ports_of pr \<noteq> []" using m by (cases "pr_intervals pr") (auto simp: ports_of_def iv_ports_def)
  then show ?thesis
    using String_shape [OF assms] by (simp add: ParsePortRangeSpec_def TrimSpace_digits split parse srt)
qed

section \<open>Properties\<close>

text \<open>C31. A port range represents exactly the ports it is built from: membership by binary search,
  the count and the port at each index agree with the sorted set of ports, the intervals are
  valid and separated by gaps, and construction fails only for no port or an invalid one.\<close>

theorem port_range_exact:
  "case NewPortRange ports of
     Inl e \<Rightarrow> ports = [] \<or> (\<exists>p \<in> set ports. p < 1 \<or> 65535 < p)
   | Inr pr \<Rightarrow> Contains pr = (\<lambda>p. p \<in> set ports)
       \<and> Total pr = int (card (set ports))
       \<and> map (PortAt pr) [0..Total pr - 1] = sorted_list_of_set (set ports)
       \<and> merged 0 (pr_intervals pr)"
proof (cases "NewPortRange ports")
  case (Inl e)
  then show ?thesis using NewPortRange_error [OF Inl] by simp
next
  case (Inr pr)
  note ok = NewPortRange_ok [OF Inr]
  have l: "ports_of pr = sorted_list_of_set (set ports)" using ports_of_sorted_list [OF ok(1)] ok(2) by simp
  have t: "Total pr = int (length (ports_of pr))" using ok(1) by (simp add: Total_def range_ok_def)
  have "map (PortAt pr) [0..Total pr - 1] = ports_of pr"
    by (rule nth_equalityI) (simp_all add: t nth_upto PortAt_nth [OF ok(1)])
  then show ?thesis
    using Inr ok Contains_iff [OF ok(1)] l t by (auto simp: range_ok_def)
qed

text \<open>C32. Port specifications round-trip: printing a range and parsing the text gives back the sorted,
  duplicate-free ports and the identical range, bare or after a host name.\<close>

theorem port_spec_roundtrip:
  assumes "NewPortRange ports = Inr pr"
    and "h \<noteq> []" "\<not> isSpace (hd h)" "set h \<inter> {CHR '':'', CHR ''['', CHR '']''} = {}"
  shows "ParsePortRangeSpec (String pr) = Inr (sorted_list_of_set (set ports))
    \<and> PortRangeOf (String pr) = Some pr
    \<and> ParseServerAddrWithRange (h @ CHR '':'' # String pr) = Inr (h, sorted_list_of_set (set ports))
    \<and> FormatPortList ports = String pr"
proof -
  note ok = NewPortRange_ok [OF assms(1)]
  note st = String_shape [OF ok(1)]
  have l: "ports_of pr = sorted_list_of_set (set ports)" using ports_of_sorted_list [OF ok(1)] ok(2) by simp
  have parse: "ParsePortRangeSpec (String pr) = Inr (ports_of pr)" by (rule ParsePortRangeSpec_String [OF ok(1)])
  have trim: "TrimSpace (String pr) = String pr" using st by (simp add: TrimSpace_digits)
  have addr: "TrimSpace (h @ CHR '':'' # String pr) = h @ CHR '':'' # String pr"
    using assms(2,3) st isDigit_distinct by (intro TrimSpace_id) auto
  have "set (h @ String pr) \<inter> {CHR '':'', CHR ''['', CHR '']''} = {}"
    using assms(4) st(4) isDigit_distinct by auto
  moreover have "hd h \<noteq> CHR ''[''" using assms(2,4) hd_in_set by fastforce
  ultimately have "SplitHostPort (h @ CHR '':'' # String pr) = Some (h, String pr)"
    using SplitHostPort_plain [of h "String pr"] by simp
  then have "ParseServerAddrWithRange (h @ CHR '':'' # String pr) = Inr (h, ports_of pr)"
    by (simp add: ParseServerAddrWithRange_def addr parse)
  moreover have "PortRangeOf (String pr) = Some pr"
    using NewPortRange_ports_of [OF ok(1)] st(1) by (simp add: PortRangeOf_def trim parse)
  ultimately show ?thesis using parse assms(1) by (simp add: l FormatPortList_def)
qed

theorem port_spec_roundtrip_witness:
  "ParsePortRangeSpec ''20-22,443'' = Inr [20, 21, 22, 443]
   \<and> ParseServerAddrWithRange ''h:20-22,443'' = Inr (''h'', [20, 21, 22, 443])"
proof -
  define pr where "pr = \<lparr> pr_intervals = [\<lparr> iv_lo = 20, iv_hi = 22 \<rparr>, \<lparr> iv_lo = 443, iv_hi = 443 \<rparr>], pr_total = 4 \<rparr>"
  have "NewPortRange [443, 20, 22, 21, 22] = Inr pr" unfolding pr_def by code_simp
  moreover have "String pr = ''20-22,443''" unfolding pr_def by code_simp
  moreover have "sorted_list_of_set (set [443, 20, 22, 21, 22 :: int]) = [20, 21, 22, 443]" by code_simp
  ultimately show ?thesis
    using port_spec_roundtrip [of "[443, 20, 22, 21, 22]" pr "''h''"] by (simp add: isSpace_def)
qed

end
