(* ===== verification/PathQuality.thy ===== *)
theory PathQuality
  imports Prelude
begin

text \<open>
  The receive-driven path scorer (\<^verbatim>\<open>tunnel/pathquality.go\<close>): one fixed-point loss average per
  remote port, and the selection weight derived from it.  The \<^verbatim>\<open>sync.Map\<close> is a finite map, the
  compare-and-swap loop one atomic update, \<^verbatim>\<open>float64\<close> an exact rational; \<open>now\<close> is the clock.
\<close>

section \<open>Definitions\<close>

definition pathQualityFracBits :: nat where "pathQualityFracBits = 20"
definition pathQualityAlphaShift :: nat where "pathQualityAlphaShift = 5"
definition pathQualityFloor :: rat where "pathQualityFloor = 2 / 100"
definition pathQualityRecovery :: duration where "pathQualityRecovery = 30 * second"

record portScore =
  sc_loss :: int
  sc_at :: int

type_synonym pathQuality = "int \<Rightarrow> portScore option"

definition newPathQuality :: pathQuality where
  "newPathQuality = (\<lambda>_. None)"

definition lossSample :: "bool \<Rightarrow> int" where
  "lossSample lost = (if lost then 2 ^ pathQualityFracBits else 0)"

definition Observe :: "pathQuality \<Rightarrow> int \<Rightarrow> bool \<Rightarrow> int \<Rightarrow> pathQuality" where
  "Observe q port lost now =
     (if port \<le> 0 then q
      else let old = (case q port of None \<Rightarrow> 0 | Some ps \<Rightarrow> sc_loss ps)
           in q(port := Some \<lparr> sc_loss = old + drop_bit pathQualityAlphaShift (lossSample lost - old), sc_at = now \<rparr>))"

definition decayedLoss :: "portScore \<Rightarrow> int \<Rightarrow> rat" where
  "decayedLoss ps now = (let loss = of_int (sc_loss ps) / 2 ^ pathQualityFracBits; age = now - sc_at ps in
     if pathQualityRecovery < age then loss * (1 / 2) ^ nat (age div pathQualityRecovery) else loss)"

definition Weight :: "pathQuality \<Rightarrow> int \<Rightarrow> int \<Rightarrow> rat" where
  "Weight q port now = (case q port of
       None \<Rightarrow> 1
     | Some ps \<Rightarrow> let loss = decayedLoss ps now in
         if loss \<le> 0 then 1
         else if 1 \<le> loss then pathQualityFloor
         else pathQualityFloor + (1 - pathQualityFloor) * (1 - loss))"

definition pq_snapshot :: "pathQuality \<Rightarrow> int \<Rightarrow> rat option" where
  "pq_snapshot q = map_option (\<lambda>ps. of_int (sc_loss ps) / 2 ^ pathQualityFracBits) \<circ> q"

text \<open>Observations in sequence: port, loss indicator and time of each.\<close>

definition observeAll :: "(int \<times> bool \<times> int) list \<Rightarrow> pathQuality \<Rightarrow> pathQuality" where
  "observeAll obs q = fold (\<lambda>(port, lost, now) q. Observe q port lost now) obs q"

definition score_ok :: "pathQuality \<Rightarrow> bool" where
  "score_ok q \<longleftrightarrow> (\<forall>port ps. q port = Some ps \<longrightarrow> 0 < port \<and> 0 \<le> sc_loss ps \<and> sc_loss ps < 2 ^ 20)"

text \<open>No decay has set in: the last observation of the port is recent.\<close>

definition fresh_score :: "pathQuality \<Rightarrow> int \<Rightarrow> int \<Rightarrow> bool" where
  "fresh_score q port t \<longleftrightarrow> (case q port of None \<Rightarrow> True | Some ps \<Rightarrow> t - sc_at ps \<le> pathQualityRecovery)"

section \<open>Lemmas\<close>

lemma ewma_step:
  fixes old :: int
  assumes "0 \<le> old" "old < 2 ^ 20"
  shows "0 \<le> old + drop_bit pathQualityAlphaShift (lossSample lost - old)"
    and "old + drop_bit pathQualityAlphaShift (lossSample lost - old) < 2 ^ 20"
    and "lost \<Longrightarrow> old \<le> old + drop_bit pathQualityAlphaShift (lossSample lost - old)"
    and "\<not> lost \<Longrightarrow> 0 < old \<Longrightarrow> old + drop_bit pathQualityAlphaShift (lossSample lost - old) < old"
    and "\<not> lost \<Longrightarrow> old + drop_bit pathQualityAlphaShift (lossSample lost - old) \<le> old"
    and "\<not> lost \<Longrightarrow> old = 0 \<Longrightarrow> old + drop_bit pathQualityAlphaShift (lossSample lost - old) = 0"
  using assms by (auto simp: drop_bit_eq_div lossSample_def pathQualityAlphaShift_def pathQualityFracBits_def)

lemma score_ok_new [simp]: "score_ok newPathQuality"
  by (simp add: score_ok_def newPathQuality_def)

lemma score_ok_Observe [intro]: "score_ok q \<Longrightarrow> score_ok (Observe q port lost now)"
  using ewma_step(1,2) by (auto simp: score_ok_def Observe_def Let_def split: option.split)

lemma score_ok_observeAll: "score_ok q \<Longrightarrow> score_ok (observeAll obs q)"
  by (induction obs arbitrary: q) (auto simp: observeAll_def)

lemma decayedLoss_bounds:
  assumes "0 \<le> sc_loss ps" "sc_loss ps < 2 ^ 20"
  shows "0 \<le> decayedLoss ps now" "decayedLoss ps now < 1"
    and "decayedLoss ps now \<le> of_int (sc_loss ps) / 2 ^ 20"
proof -
  define l :: rat where "l = of_int (sc_loss ps) / 2 ^ 20"
  define d :: rat where "d = (1 / 2) ^ nat ((now - sc_at ps) div pathQualityRecovery)"
  have "(of_int (sc_loss ps) :: rat) < of_int (2 ^ 20)" using assms(2) by (subst of_int_less_iff)
  then have l: "0 \<le> l" "l < 1" using assms(1) by (auto simp: l_def)
  have d: "0 \<le> d" "d \<le> 1" by (auto simp: d_def power_le_one)
  have "0 \<le> l * d" "l * d \<le> l" using l d by (auto simp: mult_left_le)
  moreover have "decayedLoss ps now = (if pathQualityRecovery < now - sc_at ps then l * d else l)"
    by (simp add: decayedLoss_def Let_def l_def d_def pathQualityFracBits_def)
  ultimately show "0 \<le> decayedLoss ps now" "decayedLoss ps now < 1" "decayedLoss ps now \<le> of_int (sc_loss ps) / 2 ^ 20"
    using l by (auto simp: l_def)
qed

lemma Weight_eq:
  assumes "score_ok q"
  shows "Weight q port now = (case q port of None \<Rightarrow> 1 | Some ps \<Rightarrow> 1 - (1 - pathQualityFloor) * decayedLoss ps now)"
proof (cases "q port")
  case (Some ps)
  then have "0 \<le> decayedLoss ps now" "decayedLoss ps now < 1" using decayedLoss_bounds assms by (auto simp: score_ok_def)
  then show ?thesis
    using Some by (cases "decayedLoss ps now = 0") (auto simp: Weight_def Let_def algebra_simps)
qed (simp add: Weight_def)

lemma Weight_bounds:
  assumes "score_ok q"
  shows "pathQualityFloor \<le> Weight q port now" "Weight q port now \<le> 1"
proof -
  have "pathQualityFloor \<le> Weight q port now \<and> Weight q port now \<le> 1"
  proof (cases "q port")
    case (Some ps)
    then have "0 \<le> decayedLoss ps now" "decayedLoss ps now < 1" using decayedLoss_bounds assms by (auto simp: score_ok_def)
    then show ?thesis using assms Some by (simp add: Weight_eq pathQualityFloor_def)
  qed (use assms in \<open>simp add: Weight_eq pathQualityFloor_def\<close>)
  then show "pathQualityFloor \<le> Weight q port now" "Weight q port now \<le> 1" by auto
qed

text \<open>The stored loss of a port, zero when it was never observed.\<close>

lemma Observe_loss:
  assumes "0 < port"
  shows "\<exists>ps. Observe q port lost t port = Some ps \<and> sc_at ps = t
    \<and> sc_loss ps = (case q port of None \<Rightarrow> 0 | Some ps \<Rightarrow> sc_loss ps)
        + drop_bit pathQualityAlphaShift (lossSample lost - (case q port of None \<Rightarrow> 0 | Some ps \<Rightarrow> sc_loss ps))"
  using assms by (simp add: Observe_def Let_def)

lemma decayedLoss_now: "sc_at ps = t \<Longrightarrow> decayedLoss ps t = of_int (sc_loss ps) / 2 ^ 20"
  by (simp add: decayedLoss_def pathQualityRecovery_def pathQualityFracBits_def)

lemma Weight_mono:
  assumes "score_ok q" "score_ok q'" "q' port = Some ps'"
    and "(case q port of None \<Rightarrow> 0 | Some ps \<Rightarrow> decayedLoss ps t) \<le> decayedLoss ps' t"
  shows "Weight q' port t \<le> Weight q port t"
proof -
  have "0 \<le> decayedLoss ps' t" using decayedLoss_bounds assms(2,3) by (auto simp: score_ok_def)
  then show ?thesis
    using assms(3,4) by (cases "q port") (simp_all add: Weight_eq [OF assms(1)] Weight_eq [OF assms(2)] pathQualityFloor_def)
qed

lemma Weight_loss_lowers:
  assumes "score_ok q" "0 < port"
  shows "Weight (Observe q port True t) port t \<le> Weight q port t"
proof -
  obtain ps where ps: "Observe q port True t port = Some ps" "sc_at ps = t"
    "sc_loss ps = (case q port of None \<Rightarrow> 0 | Some ps \<Rightarrow> sc_loss ps)
        + drop_bit pathQualityAlphaShift (lossSample True - (case q port of None \<Rightarrow> 0 | Some ps \<Rightarrow> sc_loss ps))"
    using Observe_loss [OF assms(2)] by blast
  show ?thesis
  proof (rule Weight_mono [OF assms(1) score_ok_Observe [OF assms(1)] ps(1)], cases "q port")
    case (Some old)
    then have o: "0 \<le> sc_loss old" "sc_loss old < 2 ^ 20" using assms(1) by (auto simp: score_ok_def)
    have "sc_loss old \<le> sc_loss ps" using ewma_step(3) [OF o] ps(3) Some by simp
    then have "of_int (sc_loss old) / 2 ^ 20 \<le> (of_int (sc_loss ps) / 2 ^ 20 :: rat)" by (simp add: divide_right_mono)
    then show "(case q port of None \<Rightarrow> 0 | Some ps \<Rightarrow> decayedLoss ps t) \<le> decayedLoss ps t"
      using decayedLoss_bounds(3) [OF o, of t] Some by (simp add: decayedLoss_now [OF ps(2)])
  next
    case None
    have "0 \<le> sc_loss ps" using score_ok_Observe [OF assms(1)] ps(1) by (auto simp: score_ok_def)
    then show "(case q port of None \<Rightarrow> 0 | Some ps \<Rightarrow> decayedLoss ps t) \<le> decayedLoss ps t"
      using None by (simp add: decayedLoss_now [OF ps(2)])
  qed
qed

lemma Weight_success_raises:
  assumes "score_ok q" "0 < port" "fresh_score q port t"
  shows "Weight q port t \<le> Weight (Observe q port False t) port t"
proof -
  obtain ps where ps: "Observe q port False t port = Some ps" "sc_at ps = t"
    "sc_loss ps = (case q port of None \<Rightarrow> 0 | Some ps \<Rightarrow> sc_loss ps)
        + drop_bit pathQualityAlphaShift (lossSample False - (case q port of None \<Rightarrow> 0 | Some ps \<Rightarrow> sc_loss ps))"
    using Observe_loss [OF assms(2)] by blast
  have ok: "score_ok (Observe q port False t)" using assms(1) by blast
  show ?thesis
  proof (cases "q port")
    case (Some old)
    then have o: "0 \<le> sc_loss old" "sc_loss old < 2 ^ 20" using assms(1) by (auto simp: score_ok_def)
    have "sc_loss ps \<le> sc_loss old" using ewma_step(5) [OF o, of False] ps(3) Some by simp
    then have "of_int (sc_loss ps) / 2 ^ 20 \<le> (of_int (sc_loss old) / 2 ^ 20 :: rat)" by (simp add: divide_right_mono)
    moreover have "decayedLoss old t = of_int (sc_loss old) / 2 ^ 20"
      using assms(3) Some by (simp add: fresh_score_def decayedLoss_def pathQualityFracBits_def)
    ultimately show ?thesis
      using Weight_mono [OF ok assms(1) Some, of t] ps(1,2) by (simp add: decayedLoss_now)
  next
    case None
    then have "sc_loss ps = 0" using ps(3) by (simp add: lossSample_def)
    then have "Weight (Observe q port False t) port t = 1"
      using ps(1,2) by (simp add: Weight_eq [OF ok] decayedLoss_now)
    then show ?thesis using Weight_bounds(2) [OF assms(1)] by simp
  qed
qed

lemma successes_heal:
  assumes "0 < port"
  shows "score_ok q \<Longrightarrow> (case q port of None \<Rightarrow> 0 | Some ps \<Rightarrow> sc_loss ps) \<le> int n \<Longrightarrow>
    Weight (((\<lambda>q. Observe q port False t) ^^ Suc n) q) port t = 1"
proof (induction n arbitrary: q)
  case 0
  then have z: "(case q port of None \<Rightarrow> 0 | Some ps \<Rightarrow> sc_loss ps) = 0"
    by (cases "q port") (auto simp: score_ok_def intro: order_antisym)
  obtain ps where ps: "Observe q port False t port = Some ps" "sc_at ps = t" "sc_loss ps = 0"
    using Observe_loss [OF assms, of q False t] unfolding z by (auto simp: lossSample_def)
  then show ?case using score_ok_Observe [OF 0(1)] by (simp add: Weight_eq decayedLoss_now)
next
  case (Suc n)
  define old where "old = (case q port of None \<Rightarrow> 0 | Some ps \<Rightarrow> sc_loss ps)"
  have o: "0 \<le> old" "old < 2 ^ 20" using Suc.prems(1) by (auto simp: old_def score_ok_def split: option.splits)
  obtain ps where ps: "Observe q port False t port = Some ps"
      "sc_loss ps = old + drop_bit pathQualityAlphaShift (lossSample False - old)"
    using Observe_loss [OF assms, of q False t] by (auto simp: old_def)
  have "sc_loss ps \<le> int n"
    using ewma_step(4,6) [OF o, of False, folded ps(2)] Suc.prems(2) [folded old_def] o(1) by (cases "old = 0") auto
  then have "Weight (((\<lambda>q. Observe q port False t) ^^ Suc n) (Observe q port False t)) port t = 1"
    using Suc.IH [OF score_ok_Observe [OF Suc.prems(1)], of port False t] ps(1) by simp
  then show ?case by (simp only: funpow_Suc_right comp_def)
qed

lemma observeAll_unseen: "port \<notin> fst ` set obs \<Longrightarrow> observeAll obs q port = q port"
proof (induction obs arbitrary: q)
  case (Cons ob obs)
  obtain p l t where ob: "ob = (p, l, t)" by (cases ob)
  have "Observe q p l t port = q port" using Cons.prems by (auto simp: ob Observe_def Let_def)
  then show ?case using Cons by (simp add: ob observeAll_def)
qed (simp add: observeAll_def)

text \<open>The decay is applied when a weight is read and not when an observation is recorded.  The
  first frame after a silence therefore brings the old estimate back, even a frame that
  arrived: the weight of the port drops on a success.\<close>

lemma stale_success_lowers_weight:
  "Weight (Observe (Observe newPathQuality 443 True 0) 443 False (300 * second)) 443 (300 * second)
     < Weight (Observe newPathQuality 443 True 0) 443 (300 * second)"
  by (simp add: Weight_def Observe_def newPathQuality_def decayedLoss_def lossSample_def drop_bit_eq_div
      pathQualityAlphaShift_def pathQualityFracBits_def pathQualityRecovery_def pathQualityFloor_def Let_def power_divide)

section \<open>Properties\<close>

text \<open>The selection weight follows the observed loss.  After any observations each weight lies
  between the floor and 1 and an unobserved port has weight 1; a lost frame never raises the
  weight of its port, an arrived frame never lowers it while no decay has set in, and enough
  arrived frames restore weight 1 whatever happened before.\<close>

lemma path_weight_tracks_loss:
  assumes "q = observeAll obs newPathQuality" "0 < port"
  shows "pathQualityFloor \<le> Weight q port t \<and> Weight q port t \<le> 1
    \<and> (port \<notin> fst ` set obs \<longrightarrow> Weight q port t = 1)
    \<and> Weight (Observe q port True t) port t \<le> Weight q port t
    \<and> (fresh_score q port t \<longrightarrow> Weight q port t \<le> Weight (Observe q port False t) port t)
    \<and> (\<exists>n. Weight (((\<lambda>q. Observe q port False t) ^^ n) q) port t = 1)"
proof -
  have ok: "score_ok q" using assms(1) score_ok_observeAll by simp
  have "\<exists>n. Weight (((\<lambda>q. Observe q port False t) ^^ n) q) port t = 1"
    using successes_heal [OF assms(2) ok, of "nat (case q port of None \<Rightarrow> 0 | Some ps \<Rightarrow> sc_loss ps)"]
    by (meson int_nat_eq order_refl nat_le_iff)
  then show ?thesis
    using Weight_bounds [OF ok] Weight_loss_lowers [OF ok assms(2)] Weight_success_raises [OF ok assms(2)]
      observeAll_unseen [of port obs newPathQuality] assms(1)
    by (auto simp: Weight_def newPathQuality_def)
qed

lemma path_weight_tracks_loss_witness:
  "Weight (Observe (observeAll [(443, True, 0)] newPathQuality) 443 True 5) 443 5
     \<le> Weight (observeAll [(443, True, 0)] newPathQuality) 443 5
   \<and> Weight (observeAll [(443, True, 0)] newPathQuality) 80 5 = 1"
  using path_weight_tracks_loss [OF refl, of 443 "[(443, True, 0)]" 5]
    path_weight_tracks_loss [OF refl, of 80 "[(443, True, 0)]" 5] by simp

end
