(* ===== verification/PortSelector.thy ===== *)
theory PortSelector
  imports PortRange PathQuality "HOL-Library.Multiset"
begin

text \<open>
  Choosing the destination port of each datagram (\<^verbatim>\<open>tunnel/portrange.go\<close>, lines 264--399, and
  \<^verbatim>\<open>pickPortsFromRange\<close> of \<^verbatim>\<open>tunnel/spread.go\<close>): the shuffle bag, the round-robin cursor, the
  rejection sampling by path weight, and the sparse partial shuffle that fixes a subset of
  ports.  A \<^verbatim>\<open>math/rand\<close> generator is an arbitrary sequence of draws; its integer draws are reduced
  to the requested range, as the package documents, and \<^verbatim>\<open>Shuffle\<close> is the Fisher-Yates loop.
\<close>

section \<open>Definitions\<close>

subsection \<open>Random draws\<close>

record rng =
  rng_int :: "nat \<Rightarrow> nat"
  rng_float :: "nat \<Rightarrow> rat"
  rng_pos :: nat

definition Intn :: "rng \<Rightarrow> nat \<Rightarrow> nat \<times> rng" where
  "Intn g n = (rng_int g (rng_pos g) mod n, g\<lparr>rng_pos := Suc (rng_pos g)\<rparr>)"

definition Float64 :: "rng \<Rightarrow> rat \<times> rng" where
  "Float64 g = (rng_float g (rng_pos g), g\<lparr>rng_pos := Suc (rng_pos g)\<rparr>)"

definition swap_at :: "nat \<Rightarrow> nat \<Rightarrow> 'a list \<Rightarrow> 'a list" where
  "swap_at i j xs = xs[i := xs ! j, j := xs ! i]"

fun shuffleFrom :: "nat \<Rightarrow> rng \<Rightarrow> 'a list \<Rightarrow> 'a list \<times> rng" where
  "shuffleFrom 0 g xs = (xs, g)"
| "shuffleFrom (Suc i) g xs = (case Intn g (i + 2) of (j, g') \<Rightarrow> shuffleFrom i g' (swap_at (Suc i) j xs))"

definition Shuffle :: "rng \<Rightarrow> 'a list \<Rightarrow> 'a list \<times> rng" where
  "Shuffle g xs = shuffleFrom (length xs - 1) g xs"

subsection \<open>The selector\<close>

datatype SelectorMode = SelectorRandom | SelectorRoundRobin

definition shuffleBagMaxPorts :: int where "shuffleBagMaxPorts = 4096"

record PortSelector =
  sel_pr :: "PortRange option"
  sel_mode :: SelectorMode
  sel_rr :: uint64
  sel_rng :: rng
  sel_bag :: "uint16 list option"
  sel_bagPos :: nat

definition fillBag :: "PortRange \<Rightarrow> PortSelector \<Rightarrow> PortSelector" where
  "fillBag pr s = (case Shuffle (sel_rng s) (concat (map (\<lambda>iv. map of_int [iv_lo iv..iv_hi iv]) (pr_intervals pr))) of
     (bag, g) \<Rightarrow> s\<lparr>sel_bag := Some bag, sel_rng := g\<rparr>)"

definition NewPortSelector :: "PortRange option \<Rightarrow> SelectorMode \<Rightarrow> rng \<Rightarrow> PortSelector" where
  "NewPortSelector pr mode g =
     (let s = \<lparr> sel_pr = pr, sel_mode = mode, sel_rr = 0, sel_rng = g, sel_bag = None, sel_bagPos = 0 \<rparr> in
      case pr of
        None \<Rightarrow> s
      | Some r \<Rightarrow> if mode = SelectorRandom \<and> 0 < pr_total r \<and> pr_total r \<le> shuffleBagMaxPorts then fillBag r s else s)"

definition nextUniform :: "PortRange \<Rightarrow> PortSelector \<Rightarrow> int \<times> PortSelector" where
  "nextUniform pr s = (case sel_bag s of
       None \<Rightarrow> (case Intn (sel_rng s) (nat (pr_total pr)) of (i, g) \<Rightarrow> (PortAt pr (int i), s\<lparr>sel_rng := g\<rparr>))
     | Some bag \<Rightarrow>
         let s1 = (if length bag \<le> sel_bagPos s
                   then (case Shuffle (sel_rng s) bag of (bag', g) \<Rightarrow> s\<lparr>sel_bag := Some bag', sel_rng := g, sel_bagPos := 0\<rparr>)
                   else s)
         in (uint (the (sel_bag s1) ! sel_bagPos s1), s1\<lparr>sel_bagPos := Suc (sel_bagPos s1)\<rparr>))"

definition Next :: "PortSelector \<Rightarrow> int \<times> PortSelector" where
  "Next s = (case sel_pr s of
       None \<Rightarrow> (0, s)
     | Some pr \<Rightarrow>
         if pr_total pr = 0 then (0, s)
         else if sel_mode s = SelectorRoundRobin
         then (PortAt pr (uint (sel_rr s) mod pr_total pr), s\<lparr>sel_rr := sel_rr s + 1\<rparr>)
         else nextUniform pr s)"

fun weightedLoop :: "nat \<Rightarrow> (int \<Rightarrow> rat) \<Rightarrow> PortRange \<Rightarrow> int \<Rightarrow> PortSelector \<Rightarrow> int \<times> PortSelector" where
  "weightedLoop 0 w pr port s = (port, s)"
| "weightedLoop (Suc k) w pr port s = (case Float64 (sel_rng s) of
     (f, g) \<Rightarrow> if f < w port then (port, s\<lparr>sel_rng := g\<rparr>)
               else case nextUniform pr (s\<lparr>sel_rng := g\<rparr>) of (port', s') \<Rightarrow> weightedLoop k w pr port' s')"

definition NextWeighted :: "(int \<Rightarrow> rat) option \<Rightarrow> PortSelector \<Rightarrow> int \<times> PortSelector" where
  "NextWeighted scorer s = (case sel_pr s of
       None \<Rightarrow> (0, s)
     | Some pr \<Rightarrow>
         if pr_total pr = 0 then (0, s)
         else case scorer of
           None \<Rightarrow> Next s
         | Some w \<Rightarrow> (case nextUniform pr s of (port, s') \<Rightarrow>
             if 1 \<le> w port then (port, s') else weightedLoop 15 w pr port s'))"

subsection \<open>A fixed subset of ports\<close>

definition swapped :: "(nat \<Rightarrow> nat option) \<Rightarrow> nat \<Rightarrow> nat" where
  "swapped swaps i = (case swaps i of Some v \<Rightarrow> v | None \<Rightarrow> i)"

fun pickLoop :: "PortRange \<Rightarrow> nat \<Rightarrow> nat \<Rightarrow> nat \<Rightarrow> rng \<Rightarrow> (nat \<Rightarrow> nat option) \<Rightarrow> int list" where
  "pickLoop pr n i 0 g swaps = []"
| "pickLoop pr n i (Suc k) g swaps = (case Intn g (n - i) of
     (d, g') \<Rightarrow> let j = i + d; vi = swapped swaps i; vj = swapped swaps j
                in PortAt pr (int vj) # pickLoop pr n (Suc i) k g' (swaps(i \<mapsto> vj, j \<mapsto> vi)))"

definition pickPortsFromRange :: "PortRange \<Rightarrow> int \<Rightarrow> rng \<Rightarrow> int list" where
  "pickPortsFromRange pr n g =
     (if n \<le> 0 \<or> Total pr = 0 then []
      else if Total pr \<le> n then map (PortAt pr) [0..Total pr - 1]
      else pickLoop pr (nat (Total pr)) 0 (nat n) g (\<lambda>_. None))"

subsection \<open>Contract\<close>

fun draws :: "('s \<Rightarrow> 'a \<times> 's) \<Rightarrow> nat \<Rightarrow> 's \<Rightarrow> 'a list \<times> 's" where
  "draws f 0 s = ([], s)"
| "draws f (Suc n) s = (case f s of (x, s') \<Rightarrow> (case draws f n s' of (xs, s'') \<Rightarrow> (x # xs, s'')))"

lemma draws_append:
  "draws f (m + n) s = (case draws f m s of (xs, s') \<Rightarrow> (case draws f n s' of (ys, s'') \<Rightarrow> (xs @ ys, s'')))"
  by (induction m arbitrary: s) (simp_all add: split_beta)

text \<open>A dealer deals a fixed multiset of items in every round, for as many rounds as its state
  allows.\<close>

locale dealer =
  fixes deal :: "'s \<Rightarrow> 'a \<times> 's" and n :: nat and items :: "'a multiset" and ready :: "nat \<Rightarrow> 's \<Rightarrow> bool"
  assumes round: "ready (Suc k) s \<Longrightarrow> draws deal n s = (xs, s') \<Longrightarrow> mset xs = items \<and> ready k s'"
begin

lemma rounds:
  "ready k s \<Longrightarrow> \<exists>rs. fst (draws deal (k * n) s) = concat rs \<and> length rs = k \<and> (\<forall>r \<in> set rs. mset r = items)"
proof (induction k arbitrary: s)
  case (Suc k)
  obtain xs s' where xs: "draws deal n s = (xs, s')" by (cases "draws deal n s")
  note r = round [OF Suc.prems xs]
  then obtain rs where "fst (draws deal (k * n) s') = concat rs" "length rs = k" "\<forall>r \<in> set rs. mset r = items"
    using Suc.IH [of s'] by blast
  then show ?case
    using r xs draws_append [of deal n "k * n" s] by (intro exI [of _ "xs # rs"]) (simp add: split_beta)
qed simp

end

text \<open>A selector of a range: its bag, when it has one, is a permutation of the range.\<close>

definition sel_ok :: "PortRange \<Rightarrow> PortSelector \<Rightarrow> bool" where
  "sel_ok pr s \<longleftrightarrow> range_ok pr \<and> sel_pr s = Some pr
     \<and> (case sel_bag s of None \<Rightarrow> True
        | Some bag \<Rightarrow> mset (map uint bag) = mset (ports_of pr) \<and> sel_bagPos s \<le> length bag)"

text \<open>The selector is at the boundary of a round; a round-robin selector has \<open>k\<close> rounds left before
  its 64-bit cursor wraps.\<close>

definition bag_ready :: "PortRange \<Rightarrow> nat \<Rightarrow> PortSelector \<Rightarrow> bool" where
  "bag_ready pr k s \<longleftrightarrow> sel_ok pr s \<and> sel_mode s = SelectorRandom
     \<and> (\<exists>bag. sel_bag s = Some bag \<and> (sel_bagPos s = 0 \<or> sel_bagPos s = length bag))"

definition rr_ready :: "PortRange \<Rightarrow> nat \<Rightarrow> PortSelector \<Rightarrow> bool" where
  "rr_ready pr k s \<longleftrightarrow> range_ok pr \<and> sel_pr s = Some pr \<and> sel_mode s = SelectorRoundRobin
     \<and> uint (sel_rr s) mod pr_total pr = 0 \<and> uint (sel_rr s) + int k * pr_total pr \<le> 2 ^ 64"

section \<open>Lemmas\<close>

lemma mset_swap_at: "i < length xs \<Longrightarrow> j < length xs \<Longrightarrow> mset (swap_at i j xs) = mset xs"
  by (simp add: swap_at_def mset_swap)

lemma mset_shuffleFrom: "i < length xs \<or> xs = [] \<and> i = 0 \<Longrightarrow> mset (fst (shuffleFrom i g xs)) = mset xs"
proof (induction i g xs rule: shuffleFrom.induct)
  case (2 i g xs)
  define j where "j = fst (Intn g (i + 2))"
  have "j < i + 2" by (simp add: j_def Intn_def)
  then have "Suc i < length xs" "j < length xs" using 2(2) by auto
  then have "mset (swap_at (Suc i) j xs) = mset xs" "length (swap_at (Suc i) j xs) = length xs"
    by (rule mset_swap_at) (simp add: swap_at_def)
  then show ?case
    using 2(1) [of j "snd (Intn g (i + 2))"] 2(2) by (simp add: split_beta j_def)
qed simp

lemma mset_Shuffle: "mset (fst (Shuffle g xs)) = mset xs"
  by (cases xs) (simp_all add: Shuffle_def mset_shuffleFrom del: shuffleFrom.simps(2))

lemma length_Shuffle: "length (fst (Shuffle g xs)) = length xs"
  using mset_Shuffle mset_eq_length by blast

lemma sel_ok_updates [simp]:
  "sel_ok pr (s\<lparr>sel_rng := g\<rparr>) = sel_ok pr s" "sel_ok pr (s\<lparr>sel_rr := w\<rparr>) = sel_ok pr s"
  by (simp_all add: sel_ok_def split: option.split)

lemma ports_of_word:
  assumes "range_ok pr"
  shows "map uint (concat (map (\<lambda>iv. map of_int [iv_lo iv..iv_hi iv]) (pr_intervals pr)) :: uint16 list) = ports_of pr"
proof -
  have "map uint (map of_int [iv_lo iv..iv_hi iv] :: uint16 list) = iv_ports iv" if "iv \<in> set (pr_intervals pr)" for iv
    using intervals_valid [OF assms that] by (auto simp: iv_ports_def comp_def intro!: map_idI)
      (simp add: uint_word_of_int_eq take_bit_int_eq_self)
  then show ?thesis by (auto simp: ports_of_def map_concat comp_def intro!: arg_cong [where f = concat])
qed

lemma total_pos: "range_ok pr \<Longrightarrow> 0 < pr_total pr"
  by (cases "pr_intervals pr") (auto simp: range_ok_def ports_of_def iv_ports_def)

lemma sel_ok_new:
  assumes "range_ok pr"
  shows "sel_ok pr (NewPortSelector (Some pr) mode g)"
proof -
  define bag0 :: "uint16 list" where "bag0 = concat (map (\<lambda>iv. map of_int [iv_lo iv..iv_hi iv]) (pr_intervals pr))"
  have "mset (map uint (fst (Shuffle g bag0))) = mset (map uint bag0)" by (simp add: mset_Shuffle)
  also have "map uint bag0 = ports_of pr" unfolding bag0_def by (rule ports_of_word [OF assms])
  finally have bag: "mset (map uint (fst (Shuffle g bag0))) = mset (ports_of pr)" .
  then show ?thesis
    using assms by (simp add: sel_ok_def NewPortSelector_def fillBag_def bag0_def Let_def split_beta)
qed

text \<open>One candidate: a port of the range, dealt from the bag when there is one.\<close>

lemma nextUniform_ok:
  assumes "sel_ok pr s" "nextUniform pr s = (port, s')"
  shows "port \<in> set (ports_of pr)" "sel_ok pr s'" "sel_mode s' = sel_mode s" "sel_bag s' = None \<longleftrightarrow> sel_bag s = None"
proof -
  have ok: "range_ok pr" and tot: "pr_total pr = int (length (ports_of pr))" "0 < pr_total pr"
    using assms(1) total_pos by (auto simp: sel_ok_def range_ok_def)
  have "port \<in> set (ports_of pr) \<and> sel_ok pr s' \<and> sel_mode s' = sel_mode s \<and> (sel_bag s' = None \<longleftrightarrow> sel_bag s = None)"
  proof (cases "sel_bag s")
    case None
    define i where "i = rng_int (sel_rng s) (rng_pos (sel_rng s)) mod nat (pr_total pr)"
    have "i < nat (pr_total pr)" using tot by (simp add: i_def)
    then have "PortAt pr (int i) = ports_of pr ! i" "i < length (ports_of pr)"
      using PortAt_nth [OF ok, of "int i"] tot by (auto simp: Total_def)
    then have "PortAt pr (int i) \<in> set (ports_of pr)" by (metis nth_mem)
    then show ?thesis using assms None by (auto simp: nextUniform_def Intn_def sel_ok_def i_def [symmetric])
  next
    case (Some bag)
    then have b: "mset (map uint bag) = mset (ports_of pr)" "sel_bagPos s \<le> length bag" using assms(1) by (auto simp: sel_ok_def)
    define bag' where "bag' = (if length bag \<le> sel_bagPos s then fst (Shuffle (sel_rng s) bag) else bag)"
    define pos where "pos = (if length bag \<le> sel_bagPos s then 0 else sel_bagPos s)"
    have m: "mset (map uint bag') = mset (ports_of pr)" using b(1) by (simp add: bag'_def mset_Shuffle)
    then have len: "length bag' = length (ports_of pr)" "set (map uint bag') = set (ports_of pr)"
      using mset_eq_length [OF m] mset_eq_setD [OF m] by auto
    have len0: "length bag = length (ports_of pr)" using mset_eq_length [OF b(1)] by simp
    have "0 < length bag'" using tot len(1) by linarith
    then have pos: "pos < length bag'" by (cases "length bag \<le> sel_bagPos s") (simp_all add: pos_def len0 len)
    have "port = uint (bag' ! pos)" "sel_bag s' = Some bag'" "sel_bagPos s' = Suc pos" "sel_pr s' = sel_pr s" "sel_mode s' = sel_mode s"
      using assms(2) Some by (auto simp: nextUniform_def Let_def bag'_def pos_def split_beta split: if_splits)
    then show ?thesis
      using m pos len(2) assms(1) Some by (auto simp: sel_ok_def)
  qed
  then show "port \<in> set (ports_of pr)" "sel_ok pr s'" "sel_mode s' = sel_mode s" "sel_bag s' = None \<longleftrightarrow> sel_bag s = None" by auto
qed

lemma nextUniform_deals:
  assumes "sel_bag s = Some bag" "sel_bagPos s < length bag"
  shows "nextUniform pr s = (uint (bag ! sel_bagPos s), s\<lparr>sel_bagPos := Suc (sel_bagPos s)\<rparr>)"
  using assms by (simp add: nextUniform_def Let_def)

lemma deal_rest:
  "sel_bag s = Some bag \<Longrightarrow> sel_bagPos s + k \<le> length bag \<Longrightarrow>
   draws (nextUniform pr) k s = (map uint (take k (drop (sel_bagPos s) bag)), s\<lparr>sel_bagPos := sel_bagPos s + k\<rparr>)"
proof (induction k arbitrary: s)
  case (Suc k)
  then have "take (Suc k) (drop (sel_bagPos s) bag) = bag ! sel_bagPos s # take k (drop (Suc (sel_bagPos s)) bag)"
    by (simp add: take_Suc_conv_app_nth Cons_nth_drop_Suc [symmetric])
  then show ?case using Suc nextUniform_deals [of s bag pr] by simp
qed simp

lemma bag_round:
  assumes "sel_ok pr s" "sel_bag s = Some bag" "sel_bagPos s = 0 \<or> sel_bagPos s = length bag"
    and "draws (nextUniform pr) (length (ports_of pr)) s = (xs, s')"
  shows "mset xs = mset (ports_of pr)" "sel_ok pr s'" "sel_mode s' = sel_mode s"
    "\<exists>bag'. sel_bag s' = Some bag' \<and> sel_bagPos s' = length bag'"
proof -
  define s1 where "s1 = (if sel_bagPos s = 0 then s
     else (case Shuffle (sel_rng s) bag of (bag', g) \<Rightarrow> s\<lparr>sel_bag := Some bag', sel_rng := g, sel_bagPos := 0\<rparr>))"
  have ok: "mset (map uint bag) = mset (ports_of pr)" and "0 < pr_total pr" "pr_total pr = int (length (ports_of pr))"
    using assms(1,2) total_pos by (auto simp: sel_ok_def range_ok_def)
  then have n: "length bag = length (ports_of pr)" "length bag \<noteq> 0" using mset_eq_length [OF ok] by auto
  define bag1 where "bag1 = the (sel_bag s1)"
  have s1: "sel_bag s1 = Some bag1" "sel_bagPos s1 = 0" "mset bag1 = mset bag" "sel_pr s1 = sel_pr s" "sel_mode s1 = sel_mode s"
    using assms(2) mset_Shuffle [of "sel_rng s" bag] by (auto simp: s1_def bag1_def split_beta)
  have len: "length bag1 = length (ports_of pr)" using mset_eq_length [OF s1(3)] n by simp
  have "nextUniform pr s = nextUniform pr s1"
    using assms(2,3) n(2) len s1(1,2) n(1) by (auto simp: s1_def nextUniform_def Let_def split_beta)
  then have "draws (nextUniform pr) (length (ports_of pr)) s = draws (nextUniform pr) (length (ports_of pr)) s1"
    using n by (cases "length (ports_of pr)") auto
  then have r: "xs = map uint bag1" "s' = s1\<lparr>sel_bagPos := length bag1\<rparr>"
    using assms(4) deal_rest [OF s1(1), of "length bag1" pr] s1(2) len by auto
  show "mset xs = mset (ports_of pr)" using ok s1(3) r(1) by (metis mset_map)
  then show "sel_ok pr s'" using assms(1) r s1 by (auto simp: sel_ok_def)
  show "sel_mode s' = sel_mode s" "\<exists>bag'. sel_bag s' = Some bag' \<and> sel_bagPos s' = length bag'" using r s1 by auto
qed

lemma Next_random:
  "sel_ok pr s \<Longrightarrow> sel_mode s = SelectorRandom \<Longrightarrow> Next s = nextUniform pr s"
  using total_pos [of pr] by (simp add: Next_def sel_ok_def)

lemma draws_Next_random:
  "sel_ok pr s \<Longrightarrow> sel_mode s = SelectorRandom \<Longrightarrow> draws Next k s = draws (nextUniform pr) k s"
proof (induction k arbitrary: s)
  case (Suc k)
  obtain p s' where p: "nextUniform pr s = (p, s')" by (cases "nextUniform pr s")
  show ?case using Suc.IH [of s'] nextUniform_ok [OF Suc.prems(1) p] Suc.prems Next_random p by simp
qed simp

lemma draws_Next_rr:
  assumes "range_ok pr"
  shows "sel_pr s = Some pr \<Longrightarrow> sel_mode s = SelectorRoundRobin \<Longrightarrow> uint (sel_rr s) + int k \<le> 2 ^ 64 \<Longrightarrow>
    draws Next k s = (map (\<lambda>i. PortAt pr ((uint (sel_rr s) + int i) mod pr_total pr)) [0..<k], s\<lparr>sel_rr := sel_rr s + of_nat k\<rparr>)"
proof (induction k arbitrary: s)
  case (Suc k)
  define s' where "s' = s\<lparr>sel_rr := sel_rr s + 1\<rparr>"
  have nx: "Next s = (PortAt pr (uint (sel_rr s) mod pr_total pr), s')"
    using Suc.prems total_pos [OF assms] by (simp add: Next_def s'_def)
  show ?case
  proof (cases k)
    case (Suc m)
    then have "uint (sel_rr s) + 1 < 2 ^ 64" using Suc.prems by simp
    then have rr: "uint (sel_rr s') = uint (sel_rr s) + 1" by (simp add: s'_def uint_plus_if')
    have "draws Next k s' = (map (\<lambda>i. PortAt pr ((uint (sel_rr s) + 1 + int i) mod pr_total pr)) [0..<k], s'\<lparr>sel_rr := sel_rr s' + of_nat k\<rparr>)"
      using Suc.IH [of s'] Suc.prems rr by (simp add: s'_def)
    moreover have "[0..<Suc k] = 0 # map Suc [0..<k]" by (metis map_Suc_upt upt_conv_Cons zero_less_Suc)
    ultimately show ?thesis by (simp add: nx s'_def add.assoc del: upt_Suc)
  qed (simp add: nx s'_def)
qed simp

interpretation bag: dealer Next "length (ports_of pr)" "mset (ports_of pr)" "bag_ready pr" for pr
proof
  fix k s xs s'
  assume r: "bag_ready pr (Suc k) s" and d: "draws Next (length (ports_of pr)) s = (xs, s')"
  then obtain bag where "sel_ok pr s" "sel_bag s = Some bag" "sel_bagPos s = 0 \<or> sel_bagPos s = length bag"
      "draws (nextUniform pr) (length (ports_of pr)) s = (xs, s')" "sel_mode s = SelectorRandom"
    using draws_Next_random by (auto simp: bag_ready_def)
  from bag_round [OF this(1-4)] this(5) show "mset xs = mset (ports_of pr) \<and> bag_ready pr k s'"
    by (auto simp: bag_ready_def)
qed

lemma rr_round_advance:
  fixes w :: uint64
  assumes "0 < n" "uint w mod n = 0" "uint w + (1 + int k) * n \<le> 2 ^ 64"
  shows "uint (w + of_int n) mod n = 0 \<and> uint (w + of_int n) + int k * n \<le> 2 ^ 64"
proof (cases "uint w + n < 2 ^ 64")
  case True
  then have "uint (w + of_int n) = uint w + n"
    using assms(1) by (simp add: uint_word_ariths uint_word_of_int_eq take_bit_eq_mod mod_simps)
  then show ?thesis using assms by (simp add: algebra_simps mod_add_right_eq)
next
  case False
  have "0 \<le> int k * n" "(1 + int k) * n = n + int k * n" using assms(1) by (simp_all add: algebra_simps)
  then have "uint w + n = 2 ^ 64" "int k * n = 0" using False assms(3) by linarith+
  moreover have "uint (w + of_int n) = (uint w + n) mod 2 ^ 64"
    by (simp add: uint_word_ariths uint_word_of_int_eq take_bit_eq_mod mod_simps)
  ultimately show ?thesis by auto
qed

interpretation rr: dealer Next "length (ports_of pr)" "mset (ports_of pr)" "rr_ready pr" for pr
proof
  fix k s xs s'
  assume r: "rr_ready pr (Suc k) s" and d: "draws Next (length (ports_of pr)) s = (xs, s')"
  define n where "n = length (ports_of pr)"
  have ok: "range_ok pr" "pr_total pr = int n" "0 < n" using r total_pos [of pr] by (auto simp: rr_ready_def range_ok_def n_def)
  have w: "uint (sel_rr s) mod int n = 0" "uint (sel_rr s) + (1 + int k) * int n \<le> 2 ^ 64"
    using r ok by (auto simp: rr_ready_def algebra_simps)
  have "uint (sel_rr s) + int n \<le> 2 ^ 64"
    using w(2) ok(3) by (simp add: algebra_simps) (smt (verit, best) mult_nonneg_nonneg of_nat_0_le_iff)
  then have x: "xs = map (\<lambda>i. PortAt pr ((uint (sel_rr s) + int i) mod int n)) [0..<n]" and s': "s' = s\<lparr>sel_rr := sel_rr s + of_nat n\<rparr>"
    using draws_Next_rr [OF ok(1), of s n] r d ok(2) by (auto simp: rr_ready_def n_def)
  have "(uint (sel_rr s) + int i) mod int n = int i" if "i < n" for i
    using w(1) that by (metis add_0 mod_add_left_eq mod_pos_pos_trivial of_nat_0_le_iff of_nat_less_iff)
  then have "xs = ports_of pr"
    using x PortAt_nth [OF ok(1)] ok(2) by (auto intro!: nth_equalityI simp: n_def Total_def)
  then show "mset xs = mset (ports_of pr) \<and> rr_ready pr k s'"
    using r s' rr_round_advance [of "int n" "sel_rr s" k] w ok by (auto simp: rr_ready_def)
qed

lemma NewPortSelector_ready:
  assumes "range_ok pr"
  shows "pr_total pr \<le> shuffleBagMaxPorts \<Longrightarrow> bag_ready pr k (NewPortSelector (Some pr) SelectorRandom g)"
    and "int k * pr_total pr \<le> 2 ^ 64 \<Longrightarrow> rr_ready pr k (NewPortSelector (Some pr) SelectorRoundRobin g)"
proof -
  assume "pr_total pr \<le> shuffleBagMaxPorts"
  then show "bag_ready pr k (NewPortSelector (Some pr) SelectorRandom g)"
    using sel_ok_new [OF assms, of SelectorRandom g] total_pos [OF assms] unfolding bag_ready_def
    by (simp add: NewPortSelector_def fillBag_def Let_def split_beta)
next
  assume "int k * pr_total pr \<le> 2 ^ 64"
  then show "rr_ready pr k (NewPortSelector (Some pr) SelectorRoundRobin g)"
    using assms by (simp add: rr_ready_def NewPortSelector_def)
qed

lemma weightedLoop_ok:
  "sel_ok pr s \<Longrightarrow> port \<in> set (ports_of pr) \<Longrightarrow> weightedLoop k w pr port s = (p, s') \<Longrightarrow> p \<in> set (ports_of pr) \<and> sel_ok pr s'"
proof (induction k w pr port s rule: weightedLoop.induct)
  case (2 k w pr port s)
  define g where "g = snd (Float64 (sel_rng s))"
  have ok: "sel_ok pr (s\<lparr>sel_rng := g\<rparr>)" using 2(2) by simp
  obtain q s1 where q: "nextUniform pr (s\<lparr>sel_rng := g\<rparr>) = (q, s1)" by (cases "nextUniform pr (s\<lparr>sel_rng := g\<rparr>)")
  show ?case
  proof (cases "fst (Float64 (sel_rng s)) < w port")
    case True
    then show ?thesis using 2(3,4) ok by (auto simp: split_beta g_def)
  next
    case False
    then have "weightedLoop k w pr q s1 = (p, s')" using 2(4) q by (simp add: split_beta g_def)
    then show ?thesis
      using 2(1) [OF prod.collapse False, of q s1] q nextUniform_ok [OF ok q] by (simp add: g_def)
  qed
qed simp

lemma Next_ok:
  assumes "sel_ok pr s" "Next s = (p, s')"
  shows "p \<in> set (ports_of pr) \<and> sel_ok pr s'"
proof (cases "sel_mode s")
  case SelectorRandom
  then show ?thesis using assms Next_random [OF assms(1)] nextUniform_ok [OF assms(1)] by simp
next
  case SelectorRoundRobin
  have r: "range_ok pr" "sel_pr s = Some pr" "0 < pr_total pr" "pr_total pr = int (length (ports_of pr))"
    using assms(1) total_pos by (auto simp: sel_ok_def range_ok_def)
  define i where "i = uint (sel_rr s) mod pr_total pr"
  have i: "0 \<le> i" "i < pr_total pr" using r(3) by (simp_all add: i_def)
  then have "PortAt pr i = ports_of pr ! nat i" "nat i < length (ports_of pr)"
    using PortAt_nth [OF r(1), of i] r(4) by (auto simp: Total_def)
  then have "PortAt pr i \<in> set (ports_of pr)" by (metis nth_mem)
  moreover have "(p, s') = (PortAt pr i, s\<lparr>sel_rr := sel_rr s + 1\<rparr>)"
    using assms(2) r SelectorRoundRobin by (simp add: Next_def i_def)
  ultimately show ?thesis using assms(1) by simp
qed

lemma NextWeighted_ok:
  assumes "sel_ok pr s" "NextWeighted scorer s = (p, s')"
  shows "p \<in> set (ports_of pr) \<and> sel_ok pr s'"
proof (cases scorer)
  case None
  then show ?thesis
    using assms Next_ok [OF assms(1)] total_pos [of pr] by (auto simp: NextWeighted_def sel_ok_def)
next
  case (Some w)
  obtain q s1 where q: "nextUniform pr s = (q, s1)" by (cases "nextUniform pr s")
  note n = nextUniform_ok [OF assms(1) q]
  have "(if 1 \<le> w q then (q, s1) else weightedLoop 15 w pr q s1) = (p, s')"
    using assms total_pos [of pr] Some q by (simp add: NextWeighted_def sel_ok_def)
  then show ?thesis using n weightedLoop_ok [OF n(2,1)] by (cases "1 \<le> w q") auto
qed

text \<open>A port of weight 1 is never passed over: it is returned as it is dealt.\<close>

lemma NextWeighted_healthy:
  assumes "sel_ok pr s" "sel_mode s = SelectorRandom" "1 \<le> w (fst (Next s))"
  shows "NextWeighted (Some w) s = Next s"
  using assms total_pos [of pr] Next_random [OF assms(1,2)]
  by (simp add: NextWeighted_def sel_ok_def split_beta)

lemma pickLoop_spec:
  "inj_on (swapped swaps) {i..<n} \<Longrightarrow> i + k \<le> n \<Longrightarrow>
   \<exists>vs. pickLoop pr n i k g swaps = map (\<lambda>v. PortAt pr (int v)) vs \<and> distinct vs \<and> length vs = k
      \<and> set vs \<subseteq> swapped swaps ` {i..<n}"
proof (induction k arbitrary: i g swaps)
  case (Suc k)
  define f where "f = swapped swaps"
  define j where "j = i + fst (Intn g (n - i))"
  define swaps' where "swaps' = swaps(i \<mapsto> f j, j \<mapsto> f i)"
  have "fst (Intn g (n - i)) < n - i" using Suc.prems(2) by (simp add: Intn_def)
  then have j: "i \<le> j" "j < n" by (simp_all add: j_def)
  have f': "swapped swaps' m = (if m = j then f i else f m)" if "m \<in> {Suc i..<n}" for m
    using that by (auto simp: swaps'_def swapped_def f_def)
  have inj: "inj_on f {i..<n}" using Suc.prems(1) by (simp add: f_def)
  have i: "i \<in> {i..<n}" "j \<in> {i..<n}" using j by auto
  have img: "swapped swaps' ` {Suc i..<n} \<subseteq> f ` ({i..<n} - {j})" using f' i by (auto simp: image_iff)
  have ne: "f y \<noteq> f i" if "y \<in> {Suc i..<n}" for y using inj_onD [OF inj, of y i] that by auto
  have "inj_on (swapped swaps') {Suc i..<n}"
  proof (rule inj_onI)
    fix x y assume xy: "x \<in> {Suc i..<n}" "y \<in> {Suc i..<n}" "swapped swaps' x = swapped swaps' y"
    then show "x = y"
      using f' [OF xy(1)] f' [OF xy(2)] ne [OF xy(1)] ne [OF xy(2)] inj_onD [OF inj, of x y] by (auto split: if_splits)
  qed
  from Suc.IH [OF this, of "snd (Intn g (n - i))"] Suc.prems(2)
  obtain vs where vs: "pickLoop pr n (Suc i) k (snd (Intn g (n - i))) swaps' = map (\<lambda>v. PortAt pr (int v)) vs"
      "distinct vs" "length vs = k" "set vs \<subseteq> swapped swaps' ` {Suc i..<n}" by auto
  have "f j \<notin> f ` ({i..<n} - {j})" using inj i by (auto simp: inj_on_def)
  then have "f j \<notin> set vs" using vs(4) img by blast
  moreover have "set vs \<subseteq> f ` {i..<n}" using vs(4) img by blast
  then have "set (f j # vs) \<subseteq> f ` {i..<n}" using i(2) by simp
  moreover have "pickLoop pr n i (Suc k) g swaps = map (\<lambda>v. PortAt pr (int v)) (f j # vs)"
    using vs(1) by (simp add: split_beta Let_def f_def j_def swaps'_def)
  ultimately show ?case using vs(2,3) by (intro exI [of _ "f j # vs"]) (simp add: f_def)
qed simp

lemma pickPortsFromRange_ok:
  assumes "range_ok pr"
  shows "distinct (pickPortsFromRange pr n g)" "set (pickPortsFromRange pr n g) \<subseteq> set (ports_of pr)"
    "int (length (pickPortsFromRange pr n g)) = max 0 (min n (Total pr))"
proof -
  have tot: "Total pr = int (length (ports_of pr))" "0 < Total pr"
    using assms total_pos by (auto simp: Total_def range_ok_def)
  have dist: "distinct (ports_of pr)"
    using assms merged_sorted by (auto simp: range_ok_def ports_of_def strict_sorted_iff)
  have nth: "PortAt pr (int v) = ports_of pr ! v" if "v < length (ports_of pr)" for v
    using PortAt_nth [OF assms, of "int v"] that tot by simp
  have all: "map (PortAt pr) [0..Total pr - 1] = ports_of pr"
    by (rule nth_equalityI) (simp_all add: tot nth_upto nth)
  have "inj_on (swapped (\<lambda>_. None)) {0..<nat (Total pr)}" by (simp add: swapped_def inj_on_def)
  from pickLoop_spec [OF this, of "nat n" pr g]
  obtain vs where vs: "n < Total pr \<Longrightarrow> pickLoop pr (nat (Total pr)) 0 (nat n) g (\<lambda>_. None) = map (\<lambda>v. PortAt pr (int v)) vs"
      "n < Total pr \<Longrightarrow> distinct vs \<and> length vs = nat n \<and> set vs \<subseteq> {0..<length (ports_of pr)}"
    using tot(1) by (cases "n < Total pr") (auto simp: swapped_def nat_le_iff)
  have sub: "distinct (map (\<lambda>v. PortAt pr (int v)) vs) \<and> set (map (\<lambda>v. PortAt pr (int v)) vs) \<subseteq> set (ports_of pr)" if "n < Total pr"
  proof -
    have eq: "map (\<lambda>v. PortAt pr (int v)) vs = map ((!) (ports_of pr)) vs" using vs(2) [OF that] nth by auto
    have "inj_on ((!) (ports_of pr)) (set vs)" using vs(2) [OF that] by (intro inj_on_nth [OF dist]) auto
    then show ?thesis unfolding eq using vs(2) [OF that] by (auto simp: distinct_map)
  qed
  show "distinct (pickPortsFromRange pr n g)" "set (pickPortsFromRange pr n g) \<subseteq> set (ports_of pr)"
    using sub vs(1) dist all tot(2) by (auto simp: pickPortsFromRange_def)
  show "int (length (pickPortsFromRange pr n g)) = max 0 (min n (Total pr))"
    using vs tot by (auto simp: pickPortsFromRange_def)
qed

section \<open>Properties\<close>

text \<open>C33. Every round covers every port exactly once.  Dealing from the shuffle bag, whatever the
  random draws, or stepping round-robin until the 64-bit cursor wraps, the ports handed out
  fall into consecutive rounds, each a permutation of the range.\<close>

theorem selector_rounds:
  assumes "NewPortRange ports = Inr pr"
    and "case mode of SelectorRandom \<Rightarrow> Total pr \<le> shuffleBagMaxPorts | SelectorRoundRobin \<Rightarrow> int k * Total pr \<le> 2 ^ 64"
  shows "\<exists>rounds. fst (draws Next (k * nat (Total pr)) (NewPortSelector (Some pr) mode g)) = concat rounds
    \<and> length rounds = k \<and> (\<forall>r \<in> set rounds. mset r = mset_set (set ports))"
proof -
  note ok = NewPortRange_ok [OF assms(1)]
  have l: "ports_of pr = sorted_list_of_set (set ports)" using ports_of_sorted_list [OF ok(1)] ok(2) by simp
  have "distinct (ports_of pr)" by (simp add: l)
  then have m: "mset (ports_of pr) = mset_set (set ports)" using mset_set_set ok(2) by metis
  have n: "length (ports_of pr) = nat (Total pr)" using ok(1) by (simp add: Total_def range_ok_def)
  show ?thesis
  proof (cases mode)
    case SelectorRandom
    then have "bag_ready pr k (NewPortSelector (Some pr) mode g)"
      using NewPortSelector_ready(1) [OF ok(1)] assms(2) by (simp add: Total_def)
    from bag.rounds [OF this] show ?thesis by (simp add: m n)
  next
    case SelectorRoundRobin
    then have "rr_ready pr k (NewPortSelector (Some pr) mode g)"
      using NewPortSelector_ready(2) [OF ok(1)] assms(2) by (simp add: Total_def)
    from rr.rounds [OF this] show ?thesis by (simp add: m n)
  qed
qed

theorem selector_rounds_witness:
  "\<exists>rounds. fst (draws Next 6 (NewPortSelector (Some \<lparr> pr_intervals = [\<lparr> iv_lo = 80, iv_hi = 82 \<rparr>], pr_total = 3 \<rparr>)
      SelectorRandom \<lparr> rng_int = (\<lambda>i. i), rng_float = (\<lambda>_. 0), rng_pos = 0 \<rparr>)) = concat rounds
    \<and> length rounds = 2 \<and> list_all (\<lambda>r. mset r = mset_set {80, 81, 82}) rounds"
proof -
  have "NewPortRange [80, 81, 82] = Inr \<lparr> pr_intervals = [\<lparr> iv_lo = 80, iv_hi = 82 \<rparr>], pr_total = 3 \<rparr>" by code_simp
  from selector_rounds [OF this, where mode = SelectorRandom and k = 2] show ?thesis
    by (simp add: Total_def shuffleBagMaxPorts_def list_all_iff)
qed

text \<open>Fixing a subset of paths picks distinct ports of the range, exactly as many as asked for or
  the whole range, whatever the random draws.\<close>

lemma pick_ports_distinct:
  assumes "NewPortRange ports = Inr pr"
  shows "distinct (pickPortsFromRange pr n g) \<and> set (pickPortsFromRange pr n g) \<subseteq> set ports
    \<and> int (length (pickPortsFromRange pr n g)) = max 0 (min n (int (card (set ports))))"
proof -
  note ok = NewPortRange_ok [OF assms]
  have "length (ports_of pr) = card (set (ports_of pr))"
    using ports_of_sorted_list [OF ok(1)] by (metis List.finite_set length_sorted_list_of_set)
  then have "Total pr = int (card (set ports))" using ok by (simp add: Total_def range_ok_def)
  then show ?thesis using pickPortsFromRange_ok [OF ok(1)] ok(2) by simp
qed

lemma pick_ports_distinct_witness:
  "distinct (pickPortsFromRange \<lparr> pr_intervals = [\<lparr> iv_lo = 80, iv_hi = 82 \<rparr>], pr_total = 3 \<rparr> 2
     \<lparr> rng_int = (\<lambda>i. i), rng_float = (\<lambda>_. 0), rng_pos = 0 \<rparr>)"
proof -
  have "NewPortRange [80, 81, 82] = Inr \<lparr> pr_intervals = [\<lparr> iv_lo = 80, iv_hi = 82 \<rparr>], pr_total = 3 \<rparr>" by code_simp
  from pick_ports_distinct [OF this] show ?thesis by simp
qed

end
