(* ===== verification/Targets.thy ===== *)
theory Targets
  imports GoText Protocol
begin

text \<open>
  Which endpoints a client may ask the server to forward to (\<^verbatim>\<open>tunnel/server.go\<close>, lines 598--687):
  the network prefix of a target, the wildcard patterns of \<^verbatim>\<open>allowed_targets\<close> and the decision.
  The matching loop keeps the two cursors of the code; it is a partial function, whose value
  \<open>None\<close> would mean that the loop never ends.  Text is ASCII.
\<close>

section \<open>Definitions\<close>

definition toLowerChar :: "char \<Rightarrow> char" where
  "toLowerChar c = (if 65 \<le> (of_char c :: nat) \<and> (of_char c :: nat) \<le> 90 then char_of (of_char c + 32 :: nat) else c)"

definition ToLower :: "string \<Rightarrow> string" where
  "ToLower s = map toLowerChar s"

definition HasPrefix :: "string \<Rightarrow> string \<Rightarrow> bool" where
  "HasPrefix s p \<longleftrightarrow> take (length p) s = p"

datatype target_network = UDP | TCP

definition parseTargetNetworkAndAddr :: "string \<Rightarrow> target_network \<times> string" where
  "parseTargetNetworkAndAddr s = (let raw = TrimSpace s; lower = ToLower raw in
     if HasPrefix lower ''udp://'' then (UDP, drop (length ''udp://'') raw)
     else if HasPrefix lower ''tcp://'' then (TCP, drop (length ''tcp://'') raw)
     else (TCP, raw))"

definition requestedTargetTLV :: "string \<Rightarrow> bytes" where
  "requestedTargetTLV target = (if target = [] then []
     else put_be 2 (of_nat (length target) :: uint16) @ bytes_of_string target)"

text \<open>The state of the matching loop: positions in the text and in the pattern, and the last star
  seen with the text position up to which it absorbs.\<close>

partial_function (option) wildcardLoop :: "string \<Rightarrow> string \<Rightarrow> nat \<Rightarrow> nat \<Rightarrow> (nat \<times> nat) option \<Rightarrow> bool option" where
  "wildcardLoop pat s si pp star =
     (if si < length s then
        if pp < length pat \<and> (pat ! pp = CHR ''?'' \<or> pat ! pp = s ! si) then wildcardLoop pat s (Suc si) (Suc pp) star
        else if pp < length pat \<and> pat ! pp = CHR ''*'' then wildcardLoop pat s si (Suc pp) (Some (pp, si))
        else (case star of
            Some (st, starSi) \<Rightarrow> wildcardLoop pat s (Suc starSi) (Suc st) (Some (st, Suc starSi))
          | None \<Rightarrow> Some False)
      else Some (dropWhile (\<lambda>c. c = CHR ''*'') (drop pp pat) = []))"

definition wildcardMatch :: "string \<Rightarrow> string \<Rightarrow> bool option" where
  "wildcardMatch pat s = wildcardLoop pat s 0 0 None"

definition matchTargetPattern :: "string \<Rightarrow> string \<Rightarrow> bool option" where
  "matchTargetPattern pattern endpoint =
     (case (parseTargetNetworkAndAddr pattern, parseTargetNetworkAndAddr endpoint) of
       ((pNet, pRest), (eNet, eRest)) \<Rightarrow>
         if pNet \<noteq> eNet then Some False
         else (case (SplitHostPort pRest, SplitHostPort eRest) of
             (Some (pHost, pPort), Some (eHost, ePort)) \<Rightarrow>
               (case wildcardMatch (ToLower pHost) (ToLower eHost) of
                  None \<Rightarrow> None
                | Some m \<Rightarrow> if m then wildcardMatch pPort ePort else Some False)
           | _ \<Rightarrow> wildcardMatch (ToLower pRest) (ToLower eRest)))"

fun targetAllowed :: "string \<Rightarrow> string list \<Rightarrow> bool option" where
  "targetAllowed endpoint [] = Some False"
| "targetAllowed endpoint (entry # patterns) = (let p = TrimSpace entry in
     if p = [] then targetAllowed endpoint patterns
     else case matchTargetPattern p endpoint of
         None \<Rightarrow> None
       | Some m \<Rightarrow> if m then Some True else targetAllowed endpoint patterns)"

subsection \<open>Reference matching\<close>

text \<open>A pattern matches by structural recursion: a star absorbs nothing, or one more character.\<close>

fun glob :: "string \<Rightarrow> string \<Rightarrow> bool" where
  "glob [] s = (s = [])"
| "glob (c # p) [] = (c = CHR ''*'' \<and> glob p [])"
| "glob (c # p) (x # s) =
     (if c = CHR ''*'' then glob p (x # s) \<or> glob (c # p) s
      else (c = CHR ''?'' \<or> c = x) \<and> glob p s)"

definition target_match :: "string \<Rightarrow> string \<Rightarrow> bool" where
  "target_match pattern endpoint =
     (case (parseTargetNetworkAndAddr pattern, parseTargetNetworkAndAddr endpoint) of
       ((pNet, pRest), (eNet, eRest)) \<Rightarrow> pNet = eNet
         \<and> (case (SplitHostPort pRest, SplitHostPort eRest) of
             (Some (pHost, pPort), Some (eHost, ePort)) \<Rightarrow> glob (ToLower pHost) (ToLower eHost) \<and> glob pPort ePort
           | _ \<Rightarrow> glob (ToLower pRest) (ToLower eRest)))"

text \<open>What the loop maintains: since the last star it has matched one text character per pattern
  character, none of them a star.\<close>

definition star_ok :: "string \<Rightarrow> nat \<Rightarrow> nat \<Rightarrow> (nat \<times> nat) option \<Rightarrow> bool" where
  "star_ok pat si pp star = (case star of None \<Rightarrow> True | Some (st, starSi) \<Rightarrow>
     starSi \<le> si \<and> pp = Suc st + (si - starSi) \<and> pp \<le> length pat \<and> pat ! st = CHR ''*''
     \<and> CHR ''*'' \<notin> set (take (si - starSi) (drop (Suc st) pat)))"

definition later_matches :: "string \<Rightarrow> string \<Rightarrow> (nat \<times> nat) option \<Rightarrow> bool" where
  "later_matches pat s star = (case star of None \<Rightarrow> False | Some (st, starSi) \<Rightarrow> glob (drop st pat) (drop (Suc starSi) s))"

text \<open>The order in which the loop progresses: the last star moves on, or what it absorbs grows, or
  the text position does.\<close>

definition loop_order :: "string \<Rightarrow> string \<Rightarrow> ((nat \<times> nat \<times> (nat \<times> nat) option) \<times> (nat \<times> nat \<times> (nat \<times> nat) option)) set" where
  "loop_order pat s = inv_image (less_than <*lex*> (less_than <*lex*> less_than))
     (\<lambda>(si, pp, star). (length pat - (case star of None \<Rightarrow> 0 | Some (st, _) \<Rightarrow> Suc st),
        length s - (case star of None \<Rightarrow> 0 | Some (_, ssi) \<Rightarrow> ssi), length s - si))"

definition pos_ok :: "nat \<Rightarrow> nat \<Rightarrow> (nat \<times> nat) option \<Rightarrow> bool" where
  "pos_ok si pp star = (case star of None \<Rightarrow> True | Some (st, ssi) \<Rightarrow> st < pp \<and> ssi \<le> si)"

section \<open>Lemmas\<close>

lemma glob_Nil: "glob p [] \<longleftrightarrow> dropWhile (\<lambda>c. c = CHR ''*'') p = []"
  by (induction p) auto

lemma glob_star_iff: "glob (CHR ''*'' # p) s \<longleftrightarrow> (\<exists>k \<le> length s. glob p (drop k s))"
proof (induction s)
  case (Cons x s)
  have "(\<exists>k \<le> length (x # s). glob p (drop k (x # s))) \<longleftrightarrow> glob p (x # s) \<or> (\<exists>k \<le> length s. glob p (drop k s))"
    by (metis drop0 drop_Suc_Cons length_Cons not0_implies_Suc Suc_le_mono le0)
  then show ?case using Cons by simp
qed simp

lemma glob_literals:
  "CHR ''*'' \<notin> set seg \<Longrightarrow> glob (seg @ q) t \<Longrightarrow> length seg \<le> length t \<and> glob q (drop (length seg) t)"
proof (induction seg arbitrary: t)
  case (Cons c seg)
  then show ?case by (cases t) (auto split: if_splits)
qed simp

lemma glob_star_later:
  assumes "glob (CHR ''*'' # p) (drop k s)" "j \<le> k"
  shows "glob (CHR ''*'' # p) (drop j s)"
proof -
  obtain i where i: "i \<le> length (drop k s)" "glob p (drop i (drop k s))" using assms(1) glob_star_iff by blast
  show ?thesis
  proof (cases "k \<le> length s")
    case True
    then have "k - j + i \<le> length (drop j s)" "glob p (drop (k - j + i) (drop j s))"
      using i assms(2) by (auto simp: add.commute)
    then show ?thesis using glob_star_iff by blast
  next
    case False
    then have "glob p (drop (length (drop j s)) (drop j s))" using i by simp
    then show ?thesis using glob_star_iff by blast
  qed
qed

text \<open>Matching after a star and a run of literals from a later text position also matches from
  the position just after the run.\<close>

lemma later_literals:
  assumes "star_ok pat si pp (Some (st, ssi))" "later_matches pat s (Some (st, ssi))" "si \<le> length s"
  shows "\<exists>k. min (Suc si) (length s) \<le> k \<and> k \<le> length s \<and> glob (drop pp pat) (drop k s)"
proof -
  define seg where "seg = take (si - ssi) (drop (Suc st) pat)"
  have st: "st < length pat" "pat ! st = CHR ''*''" "CHR ''*'' \<notin> set seg" "ssi \<le> si" "pp = Suc st + (si - ssi)" "pp \<le> length pat"
    using assms(1) by (auto simp: star_ok_def seg_def)
  have d: "drop st pat = CHR ''*'' # seg @ drop pp pat"
    using st append_take_drop_id [of "si - ssi" "drop (Suc st) pat"] Cons_nth_drop_Suc [OF st(1)]
    by (simp add: seg_def add.commute)
  obtain k where k: "k \<le> length (drop (Suc ssi) s)" "glob (seg @ drop pp pat) (drop k (drop (Suc ssi) s))"
    using assms(2) glob_star_iff by (auto simp: later_matches_def d)
  have len: "length seg = si - ssi" using st by (simp add: seg_def)
  from glob_literals [OF st(3) k(2)]
  have m: "si - ssi \<le> length s - (Suc ssi + k)" "glob (drop pp pat) (drop (Suc ssi + k + (si - ssi)) s)"
    by (simp_all add: len add.commute add.left_commute)
  have e: "Suc ssi + k + (si - ssi) = Suc si + k" using st(4) by simp
  show ?thesis
  proof (cases "ssi < length s")
    case True
    then have "Suc si + k \<le> length s" using k(1) m(1) st(4) by auto
    then show ?thesis using m(2) unfolding e by (intro exI [of _ "Suc si + k"]) auto
  next
    case False
    then have "drop (Suc ssi + k + (si - ssi)) s = drop (length s) s" using assms(3) st(4) by simp
    then show ?thesis using m(2) by (intro exI [of _ "length s"]) auto
  qed
qed

lemma star_ok_next:
  "star_ok pat si pp star \<Longrightarrow> pp < length pat \<Longrightarrow> pat ! pp \<noteq> CHR ''*'' \<Longrightarrow> star_ok pat (Suc si) (Suc pp) star"
  by (auto simp: star_ok_def Suc_diff_le take_Suc_conv_app_nth split: option.splits prod.splits)

lemma star_ok_star: "pp < length pat \<Longrightarrow> pat ! pp = CHR ''*'' \<Longrightarrow> star_ok pat si (Suc pp) (Some (pp, si))"
  by (simp add: star_ok_def)

lemma star_ok_retry: "star_ok pat si pp (Some (st, ssi)) \<Longrightarrow> star_ok pat (Suc ssi) (Suc st) (Some (st, Suc ssi))"
  by (auto simp: star_ok_def)

lemma glob_step:
  assumes "si < length s" "pp < length pat"
  shows "glob (drop pp pat) (drop si s) = (if pat ! pp = CHR ''*''
      then glob (drop (Suc pp) pat) (drop si s) \<or> glob (drop pp pat) (drop (Suc si) s)
      else (pat ! pp = CHR ''?'' \<or> pat ! pp = s ! si) \<and> glob (drop (Suc pp) pat) (drop (Suc si) s))"
  using assms by (simp flip: Cons_nth_drop_Suc)

text \<open>The loop decides whether the rest matches here or from a later position of the last star.\<close>

lemma wf_loop_order: "wf (loop_order pat s)"
  by (auto simp: loop_order_def)

lemma loop_order_dec:
  "si < length s \<Longrightarrow> ((Suc si, Suc pp, star), (si, pp, star)) \<in> loop_order pat s"
  "pp < length pat \<Longrightarrow> pos_ok si pp star \<Longrightarrow> ((si, Suc pp, Some (pp, si)), (si, pp, star)) \<in> loop_order pat s"
  "ssi < length s \<Longrightarrow> ((Suc ssi, Suc st, Some (st, Suc ssi)), (si, pp, Some (st, ssi))) \<in> loop_order pat s"
  by (auto simp: loop_order_def pos_ok_def split: option.splits)

lemma wildcardLoop_returns:
  "pos_ok si pp star \<Longrightarrow> \<exists>b. wildcardLoop pat s si pp star = Some b"
proof (induction "(si, pp, star)" arbitrary: si pp star rule: wf_induct_rule [OF wf_loop_order [of pat s]])
  case (1 si pp star)
  note step = wildcardLoop.simps [of pat s si pp star]
  consider (fin) "\<not> si < length s" | (lit) "si < length s" "pp < length pat" "pat ! pp = CHR ''?'' \<or> pat ! pp = s ! si"
    | (star) "si < length s" "pp < length pat" "pat ! pp = CHR ''*''" "\<not> (pat ! pp = CHR ''?'' \<or> pat ! pp = s ! si)"
    | (retry) "si < length s" "pp < length pat \<longrightarrow> \<not> (pat ! pp = CHR ''?'' \<or> pat ! pp = s ! si) \<and> pat ! pp \<noteq> CHR ''*''"
    by blast
  then show ?case
  proof cases
    case lit
    have "pos_ok (Suc si) (Suc pp) star" using 1(2) by (auto simp: pos_ok_def split: option.splits)
    then show ?thesis using 1(1) [OF loop_order_dec(1) [OF lit(1)]] lit step by simp
  next
    case star
    have "pos_ok si (Suc pp) (Some (pp, si))" by (simp add: pos_ok_def)
    then show ?thesis using 1(1) [OF loop_order_dec(2) [OF star(2) 1(2)]] star step by simp
  next
    case retry
    show ?thesis
    proof (cases star)
      case (Some a)
      obtain st ssi where a: "a = (st, ssi)" by (cases a)
      have "ssi < length s" "pos_ok (Suc ssi) (Suc st) (Some (st, Suc ssi))" using 1(2) retry(1) by (auto simp: pos_ok_def Some a)
      then show ?thesis using 1(1) [unfolded Some a, OF loop_order_dec(3)] retry step by (auto simp: Some a)
    qed (use retry step in auto)
  qed (use step in auto)
qed

lemma star_ok_pos: "star_ok pat si pp star \<Longrightarrow> pos_ok si pp star"
  by (auto simp: star_ok_def pos_ok_def split: option.splits)

lemma wildcardLoop_correct:
  assumes "CHR ''*'' \<notin> set s"
  shows "star_ok pat si pp star \<Longrightarrow> si \<le> length s \<Longrightarrow> pp \<le> length pat \<Longrightarrow>
    wildcardLoop pat s si pp star = Some (glob (drop pp pat) (drop si s) \<or> later_matches pat s star)"
proof (induction "(si, pp, star)" arbitrary: si pp star rule: wf_induct_rule [OF wf_loop_order [of pat s]])
  case (1 si pp star)
  note step = wildcardLoop.simps [of pat s si pp star]
  have nostar: "s ! si \<noteq> CHR ''*''" if "si < length s" using assms that nth_mem by force
  have later: "\<exists>k. min (Suc si) (length s) \<le> k \<and> k \<le> length s \<and> glob (drop pp pat) (drop k s)" if "later_matches pat s star"
    using that later_literals [of pat si pp _ _ s] 1(2,3) by (cases star) (auto simp: later_matches_def)
  consider (fin) "si = length s" | (lit) "si < length s" "pp < length pat" "pat ! pp = CHR ''?'' \<or> pat ! pp = s ! si"
    | (star) "si < length s" "pp < length pat" "pat ! pp = CHR ''*''" "\<not> (pat ! pp = CHR ''?'' \<or> pat ! pp = s ! si)"
    | (retry) "si < length s" "pp < length pat \<longrightarrow> \<not> (pat ! pp = CHR ''?'' \<or> pat ! pp = s ! si) \<and> pat ! pp \<noteq> CHR ''*''"
    using 1(3) by linarith
  then show ?case
  proof cases
    case fin
    then show ?thesis using step later by (auto simp: glob_Nil)
  next
    case lit
    then have ns: "pat ! pp \<noteq> CHR ''*''" using nostar by auto
    show ?thesis
      using 1(1) [OF loop_order_dec(1) [OF lit(1)] star_ok_next [OF 1(2) lit(2) ns]] lit step ns by (simp add: glob_step)
  next
    case star
    have "glob (drop pp pat) (drop si s)" if lm: "later_matches pat s star"
    proof -
      obtain k where k: "si \<le> k" "glob (drop pp pat) (drop k s)" using later [OF lm] star(1) by (metis Suc_leD Suc_leI min.absorb1)
      have "drop pp pat = CHR ''*'' # drop (Suc pp) pat" using star(2,3) by (simp flip: Cons_nth_drop_Suc)
      then show ?thesis using glob_star_later k by metis
    qed
    then show ?thesis
      using 1(1) [OF loop_order_dec(2) [OF star(2) star_ok_pos [OF 1(2)]] star_ok_star [OF star(2,3)]] star step
      by (auto simp: glob_step later_matches_def)
  next
    case retry
    have no: "\<not> glob (drop pp pat) (drop si s)"
      using retry 1(4) by (cases "pp < length pat") (auto simp: glob_step)
    show ?thesis
    proof (cases star)
      case (Some a)
      obtain st ssi where a: "a = (st, ssi)" by (cases a)
      have st: "star_ok pat si pp (Some (st, ssi))" using 1(2) by (simp add: Some a)
      then have ssi: "ssi < length s" "st < length pat" "pat ! st = CHR ''*''" using retry(1) by (auto simp: star_ok_def)
      have "drop st pat = CHR ''*'' # drop (Suc st) pat" using ssi(2,3) by (simp flip: Cons_nth_drop_Suc)
      then have "glob (drop st pat) (drop (Suc ssi) s) \<longleftrightarrow> glob (drop (Suc st) pat) (drop (Suc ssi) s) \<or> glob (drop st pat) (drop (Suc (Suc ssi)) s)"
        using glob_step [of "Suc ssi" s st pat] ssi by (cases "Suc ssi < length s") auto
      moreover have "wildcardLoop pat s si pp star = wildcardLoop pat s (Suc ssi) (Suc st) (Some (st, Suc ssi))"
        using retry step by (auto simp: Some a)
      ultimately show ?thesis
        using 1(1) [unfolded Some a, OF loop_order_dec(3) [OF ssi(1)] star_ok_retry [OF st]] ssi no
        by (simp add: Some a later_matches_def)
    qed (use retry step no in \<open>auto simp: later_matches_def\<close>)
  qed
qed

lemma wildcardMatch_returns: "\<exists>b. wildcardMatch pat s = Some b"
  unfolding wildcardMatch_def by (rule wildcardLoop_returns) (simp add: pos_ok_def)

lemma wildcardMatch_glob: "CHR ''*'' \<notin> set s \<Longrightarrow> wildcardMatch pat s = Some (glob pat s)"
  using wildcardLoop_correct [of s pat 0 0 None] by (simp add: wildcardMatch_def star_ok_def later_matches_def)

lemma toLowerChar_star: "toLowerChar c = CHR ''*'' \<longleftrightarrow> c = CHR ''*''"
proof -
  have low: "(of_char (char_of (of_char c + 32 :: nat) :: char) :: nat) = of_char c + 32"
    if "65 \<le> (of_char c :: nat)" "(of_char c :: nat) \<le> 90"
    using that by simp
  have "char_of (of_char c + 32 :: nat) \<noteq> CHR ''*''" if "65 \<le> (of_char c :: nat)" "(of_char c :: nat) \<le> 90"
  proof
    assume "char_of (of_char c + 32 :: nat) = CHR ''*''"
    then have "(of_char c :: nat) + 32 = of_char (CHR ''*'')" using low [OF that] by simp
    then show False using that(1) by simp
  qed
  then show ?thesis by (auto simp: toLowerChar_def)
qed

lemma ToLower_star: "CHR ''*'' \<in> set (ToLower s) \<longleftrightarrow> CHR ''*'' \<in> set s"
  by (auto simp: ToLower_def image_iff) (metis toLowerChar_star)+

lemma set_TrimSpace: "set (TrimSpace s) \<subseteq> set s"
  by (auto simp: TrimSpace_def dest!: set_dropWhileD)

lemma Cut_set: "Cut c s = Some (a, b) \<Longrightarrow> set a \<subseteq> set s \<and> set b \<subseteq> set s"
  by (auto simp: Cut_def split: if_splits dest!: set_takeWhileD in_set_dropD set_dropWhileD)

lemma SplitHostPort_set: "SplitHostPort s = Some (h, p) \<Longrightarrow> set h \<subseteq> set s \<and> set p \<subseteq> set s"
  using Cut_set by (fastforce simp: SplitHostPort_def CutLast_def split: option.splits if_splits prod.splits dest: in_set_dropD)

lemma parseTarget_set: "set (snd (parseTargetNetworkAndAddr s)) \<subseteq> set s"
  using set_TrimSpace by (auto simp: parseTargetNetworkAndAddr_def Let_def dest!: in_set_dropD)

lemma matchTargetPattern_spec:
  assumes "CHR ''*'' \<notin> set endpoint"
  shows "matchTargetPattern pattern endpoint = Some (target_match pattern endpoint)"
proof -
  obtain pn pr en er where p: "parseTargetNetworkAndAddr pattern = (pn, pr)" "parseTargetNetworkAndAddr endpoint = (en, er)"
    by (metis surj_pair)
  have er: "CHR ''*'' \<notin> set er" using assms parseTarget_set [of endpoint] p by auto
  have sp: "CHR ''*'' \<notin> set h \<and> CHR ''*'' \<notin> set q" if "SplitHostPort er = Some (h, q)" for h q
    using er SplitHostPort_set [OF that] by auto
  show ?thesis
    using er sp by (auto simp: matchTargetPattern_def target_match_def p wildcardMatch_glob ToLower_star split: option.splits)
qed

lemma matchTargetPattern_returns: "\<exists>b. matchTargetPattern pattern endpoint = Some b"
  unfolding matchTargetPattern_def
  by (auto split: option.splits prod.splits if_splits) (metis wildcardMatch_returns option.distinct(1))+

section \<open>Properties\<close>



text \<open>A star in the endpoint itself is compared as a literal before it is treated as a wildcard, so
  the pattern that matches everything refuses such an endpoint.\<close>

lemma wildcard_literal_star: "wildcardMatch ''*'' ''*a'' = Some False \<and> glob ''*'' ''*a''"
  by (simp add: wildcardMatch_def wildcardLoop.simps)

end
