(* ===== verification/Paths.thy ===== *)
theory Paths
  imports Protocol
begin

text \<open>
  The reply paths of a server session (\<^verbatim>\<open>src/tunnel/server.go\<close>): the client's current address, the
  table from the server port a datagram was addressed to (before destination translation) to the
  client's public address on that path, and the challenges that a client address must answer
  before a session moves to it.  An invalid \<^verbatim>\<open>netip.AddrPort\<close> is \<open>None\<close>; Go maps are association
  lists with distinct keys whose order is the iteration order.
\<close>

section \<open>Definitions\<close>

type_synonym ip = bytes

record AddrPort =
  ap_addr :: ip
  ap_port :: uint16

record pathEntry =
  pe_addr :: AddrPort
  pe_usedAt :: int

record pathChallenge =
  pch_token :: bytes
  pch_expires :: int

definition pathChallengeTTL :: duration where "pathChallengeTTL = 5 * second"
definition maxPathChallenges :: nat where "maxPathChallenges = 8"

text \<open>The fields of \<open>ServerSession\<close> that route replies, and the server's counter of port changes.\<close>

record sessionPaths =
  sp_raddr :: "AddrPort option"
  sp_lastOrigPort :: int
  sp_pathAddrs :: "(int \<times> pathEntry) list"
  sp_challenges :: "(ip \<times> pathChallenge) list"
  sp_origPortChanges :: nat

definition sameRemoteIP :: "sessionPaths \<Rightarrow> AddrPort option \<Rightarrow> bool" where
  "sameRemoteIP s addr = (case (addr, sp_raddr s) of
     (Some a, Some cur) \<Rightarrow> ap_addr cur = ap_addr a
   | _ \<Rightarrow> False)"

definition updateRemoteAddr :: "AddrPort option \<Rightarrow> bool \<Rightarrow> sessionPaths \<Rightarrow> sessionPaths" where
  "updateRemoteAddr newAddr allowIPChange s = (
     if sp_raddr s = newAddr then s
     else (case sp_raddr s of
         None \<Rightarrow> s\<lparr>sp_raddr := newAddr\<rparr>
       | Some cur \<Rightarrow>
           if Some (ap_addr cur) \<noteq> map_option ap_addr newAddr \<and> \<not> allowIPChange then s
           else s\<lparr>sp_raddr := newAddr\<rparr>))"

text \<open>The eviction scan of \<open>setPath\<close>: the port whose entry was written first.\<close>

fun oldestPath :: "int \<times> int \<Rightarrow> bool \<Rightarrow> (int \<times> pathEntry) list \<Rightarrow> int" where
  "oldestPath (port, oldest) first [] = port"
| "oldestPath (port, oldest) first ((p, pe) # rest) =
     (if first \<or> pe_usedAt pe < oldest then oldestPath (p, pe_usedAt pe) False rest
      else oldestPath (port, oldest) False rest)"

definition setPath :: "nat \<Rightarrow> int \<Rightarrow> AddrPort option \<Rightarrow> int \<Rightarrow> sessionPaths \<Rightarrow> sessionPaths" where
  "setPath limit origPort addr now s = (case addr of
     None \<Rightarrow> s
   | Some a \<Rightarrow>
       if origPort \<le> 0 then s
       else if sp_lastOrigPort s = origPort \<and> map_option pe_addr (map_of (sp_pathAddrs s) origPort) = Some a then s
       else (let t = (if map_of (sp_pathAddrs s) origPort = None \<and> limit \<le> length (sp_pathAddrs s)
                      then AList.delete (oldestPath (0, 0) True (sp_pathAddrs s)) (sp_pathAddrs s)
                      else sp_pathAddrs s)
             in s\<lparr>sp_pathAddrs := (origPort, \<lparr> pe_addr = a, pe_usedAt = now \<rparr>) # AList.delete origPort t,
                  sp_lastOrigPort := origPort,
                  sp_origPortChanges := (if sp_lastOrigPort s \<noteq> origPort then sp_origPortChanges s + 1
                                         else sp_origPortChanges s)\<rparr>))"

text \<open>The fallback scan of \<open>sendToSession\<close>: the path written last.\<close>

fun latestPath :: "(int \<times> pathEntry) option \<Rightarrow> (int \<times> pathEntry) list \<Rightarrow> (int \<times> pathEntry) option" where
  "latestPath best [] = best"
| "latestPath best ((p, pe) # rest) =
     (if 0 < p \<and> (case best of None \<Rightarrow> True | Some (_, b) \<Rightarrow> pe_usedAt b < pe_usedAt pe)
      then latestPath (Some (p, pe)) rest else latestPath best rest)"

text \<open>The choice made by \<open>sendToSession\<close>: the source port and destination handed to
  \<open>replyFromOrigPort\<close>, and the session with its preferred port.\<close>

definition sessionRoute :: "sessionPaths \<Rightarrow> (int \<times> AddrPort) option \<times> sessionPaths" where
  "sessionRoute s = (
     let found = (case map_of (sp_pathAddrs s) (sp_lastOrigPort s) of
            Some pe \<Rightarrow> Some (sp_lastOrigPort s, pe)
          | None \<Rightarrow> latestPath None (sp_pathAddrs s))
     in case found of
          Some (port, pe) \<Rightarrow>
            if 0 < port then (Some (port, pe_addr pe), s\<lparr>sp_lastOrigPort := port\<rparr>)
            else (map_option (Pair 0) (sp_raddr s), s)
        | None \<Rightarrow> (map_option (Pair 0) (sp_raddr s), s))"

text \<open>The critical section of \<open>sendPathChallenge\<close>: the token to send to the address.  \<open>rnd\<close> is the
  result of \<^verbatim>\<open>rand.Read\<close>.\<close>

definition challengeFor :: "ip \<Rightarrow> int \<Rightarrow> bytes option \<Rightarrow> sessionPaths \<Rightarrow> bytes option \<times> sessionPaths" where
  "challengeFor addr now rnd s = (
     let cs = filter (\<lambda>(_, c). \<not> pch_expires c < now) (sp_challenges s)
     in case map_of cs addr of
          Some c \<Rightarrow> (Some (pch_token c), s\<lparr>sp_challenges := cs\<rparr>)
        | None \<Rightarrow> (case rnd of
            None \<Rightarrow> (None, s\<lparr>sp_challenges := cs\<rparr>)
          | Some token \<Rightarrow>
              (let cs' = (if maxPathChallenges \<le> length cs then drop 1 cs else cs)
               in (Some token, s\<lparr>sp_challenges :=
                     (addr, \<lparr> pch_token = token, pch_expires = now + pathChallengeTTL \<rparr>) # cs'\<rparr>))))"

definition acceptPathResponse :: "ip \<Rightarrow> bytes \<Rightarrow> int \<Rightarrow> sessionPaths \<Rightarrow> bool \<times> sessionPaths" where
  "acceptPathResponse addr data now s = (
     if length data \<noteq> pathChallengeSize then (False, s)
     else (case map_of (sp_challenges s) addr of
         None \<Rightarrow> (False, s)
       | Some c \<Rightarrow>
           if pch_expires c < now \<or> data \<noteq> pch_token c then (False, s)
           else (True, s\<lparr>sp_challenges := AList.delete addr (sp_challenges s)\<rparr>)))"

text \<open>The well-formedness of the tables, and that the preferred path is the one written last.\<close>

definition paths_inv :: "nat \<Rightarrow> sessionPaths \<Rightarrow> bool" where
  "paths_inv limit s \<longleftrightarrow> distinct (map fst (sp_pathAddrs s)) \<and> length (sp_pathAddrs s) \<le> max 1 limit
     \<and> (\<forall>(p, _) \<in> set (sp_pathAddrs s). 0 < p)
     \<and> distinct (map fst (sp_challenges s)) \<and> length (sp_challenges s) \<le> maxPathChallenges"

definition preferred_latest :: "int \<Rightarrow> sessionPaths \<Rightarrow> bool" where
  "preferred_latest now s \<longleftrightarrow> (\<forall>(p, pe) \<in> set (sp_pathAddrs s). pe_usedAt pe \<le> now
     \<and> (case map_of (sp_pathAddrs s) (sp_lastOrigPort s) of
          None \<Rightarrow> True | Some cur \<Rightarrow> p \<noteq> sp_lastOrigPort s \<longrightarrow> pe_usedAt pe < pe_usedAt cur))"

text \<open>The operations that touch the paths, and their runs.\<close>

datatype path_op =
    Observed int AddrPort int
  | Moved AddrPort bool
  | Challenged ip int "bytes option"
  | Answered ip bytes int
  | Routed

fun path_op_step :: "nat \<Rightarrow> path_op \<Rightarrow> sessionPaths \<Rightarrow> sessionPaths" where
  "path_op_step limit (Observed port a now) s = setPath limit port (Some a) now s"
| "path_op_step limit (Moved a allow) s = updateRemoteAddr (Some a) allow s"
| "path_op_step limit (Challenged addr now rnd) s = snd (challengeFor addr now rnd s)"
| "path_op_step limit (Answered addr data now) s = snd (acceptPathResponse addr data now s)"
| "path_op_step limit Routed s = snd (sessionRoute s)"

definition newPaths :: "AddrPort \<Rightarrow> int \<Rightarrow> sessionPaths" where
  "newPaths remoteAddr origPort = \<lparr> sp_raddr = Some remoteAddr, sp_lastOrigPort = origPort,
     sp_pathAddrs = [], sp_challenges = [], sp_origPortChanges = 0 \<rparr>"

text \<open>The table after a port has been written, with room made for it.\<close>

definition madeRoom :: "nat \<Rightarrow> int \<Rightarrow> (int \<times> pathEntry) list \<Rightarrow> (int \<times> pathEntry) list" where
  "madeRoom limit origPort t = AList.delete origPort
     (if map_of t origPort = None \<and> limit \<le> length t then AList.delete (oldestPath (0, 0) True t) t else t)"

text \<open>A session seen on two ports, the second of them earlier.\<close>

definition sample_paths :: sessionPaths where
  "sample_paths = (newPaths \<lparr> ap_addr = [10, 0, 0, 1], ap_port = 5000 \<rparr> 9000)\<lparr>sp_pathAddrs :=
     [(9000, \<lparr> pe_addr = \<lparr> ap_addr = [10, 0, 0, 1], ap_port = 5000 \<rparr>, pe_usedAt = 7 \<rparr>),
      (9001, \<lparr> pe_addr = \<lparr> ap_addr = [10, 0, 0, 1], ap_port = 5001 \<rparr>, pe_usedAt = 3 \<rparr>)]\<rparr>"

section \<open>Lemmas\<close>

lemma oldestPath_scan:
  "\<exists>u. (oldestPath (q, t) False xs, u) \<in> set ((q, t) # map (map_prod id pe_usedAt) xs)
     \<and> u \<le> t \<and> (\<forall>x \<in> set xs. u \<le> pe_usedAt (snd x))"
proof (induction xs arbitrary: q t)
  case (Cons e xs)
  obtain p pe where e: "e = (p, pe)" by (cases e)
  show ?case
  proof (cases "pe_usedAt pe < t")
    case True
    obtain u where "(oldestPath (p, pe_usedAt pe) False xs, u) \<in> set ((p, pe_usedAt pe) # map (map_prod id pe_usedAt) xs)"
      "u \<le> pe_usedAt pe" "\<forall>x \<in> set xs. u \<le> pe_usedAt (snd x)"
      using Cons.IH [of p "pe_usedAt pe"] by blast
    then show ?thesis
      using True by (intro exI [of _ u]) (simp add: e id_def)
  next
    case False
    obtain u where "(oldestPath (q, t) False xs, u) \<in> set ((q, t) # map (map_prod id pe_usedAt) xs)"
      "u \<le> t" "\<forall>x \<in> set xs. u \<le> pe_usedAt (snd x)"
      using Cons.IH [of q t] by blast
    then show ?thesis
      using False by (intro exI [of _ u]) (auto simp: e id_def)
  qed
qed simp

lemma oldestPath_least:
  assumes "xs \<noteq> []"
  shows "\<exists>cur. (oldestPath z True xs, cur) \<in> set xs \<and> (\<forall>x \<in> set xs. pe_usedAt cur \<le> pe_usedAt (snd x))"
proof -
  obtain p pe ys where xs: "xs = (p, pe) # ys" using assms by (cases xs) auto
  show ?thesis
    using oldestPath_scan [of p "pe_usedAt pe" ys] by (cases z) (force simp: xs)
qed

lemma setPath_eq:
  "setPath limit origPort (Some a) now s =
     (if origPort \<le> 0 \<or> sp_lastOrigPort s = origPort \<and> map_option pe_addr (map_of (sp_pathAddrs s) origPort) = Some a then s
      else s\<lparr>sp_pathAddrs := (origPort, \<lparr> pe_addr = a, pe_usedAt = now \<rparr>) # madeRoom limit origPort (sp_pathAddrs s),
             sp_lastOrigPort := origPort,
             sp_origPortChanges := (if sp_lastOrigPort s \<noteq> origPort then sp_origPortChanges s + 1 else sp_origPortChanges s)\<rparr>)"
  by (cases "map_of (sp_pathAddrs s) origPort") (auto simp: setPath_def madeRoom_def Let_def)

lemma set_madeRoom: "set (madeRoom limit origPort t) \<subseteq> set t" "origPort \<notin> fst ` set (madeRoom limit origPort t)"
  by (auto simp: madeRoom_def AList.delete_eq)

lemma distinct_madeRoom: "distinct (map fst t) \<Longrightarrow> distinct (map fst (madeRoom limit origPort t))"
  by (simp add: madeRoom_def distinct_delete)

lemma length_madeRoom:
  assumes "length t \<le> max 1 limit"
  shows "Suc (length (madeRoom limit origPort t)) \<le> max 1 limit"
proof (cases "map_of t origPort = None")
  case True
  show ?thesis
  proof (cases "t = []")
    case False
    have "oldestPath (0, 0) True t \<in> fst ` set t"
      using oldestPath_least [OF False, of "(0, 0)"] by force
    then have "length (AList.delete (oldestPath (0, 0) True t) t) < length t"
      by (rule delete_shorter)
    then show ?thesis
      using assms True length_delete_le [of origPort t]
        length_delete_le [of origPort "AList.delete (oldestPath (0, 0) True t) t"]
      by (auto simp: madeRoom_def)
  qed (simp add: madeRoom_def)
next
  case False
  then have "length (AList.delete origPort t) < length t"
    by (intro delete_shorter) (auto dest: map_of_SomeD intro: image_eqI [rotated])
  then show ?thesis
    using assms False by (auto simp: madeRoom_def)
qed

lemma setPath_inv: "paths_inv limit s \<Longrightarrow> paths_inv limit (setPath limit origPort a now s)"
  using set_madeRoom [where limit = limit and origPort = origPort and t = "sp_pathAddrs s"] distinct_madeRoom [of "sp_pathAddrs s" limit origPort]
    length_madeRoom [of "sp_pathAddrs s" limit origPort]
  by (cases a) (auto simp: paths_inv_def setPath_eq setPath_def [of _ _ None])

lemma challengeFor_inv: "paths_inv limit s \<Longrightarrow> paths_inv limit (snd (challengeFor addr now rnd s))"
proof -
  define cs where "cs = filter (\<lambda>(_, c). \<not> pch_expires c < now) (sp_challenges s)"
  assume "paths_inv limit s"
  then have cs: "distinct (map fst cs)" "length cs \<le> maxPathChallenges"
    by (auto simp: paths_inv_def cs_def distinct_map_filter intro: le_trans [OF length_filter_le])
  have "distinct (map fst (drop 1 cs))"
    using cs(1) by (simp flip: drop_map)
  moreover have "map_of cs addr = None \<Longrightarrow> addr \<notin> fst ` set cs"
    by (simp add: map_of_eq_None_iff)
  moreover have "set (drop 1 cs) \<subseteq> set cs"
    by (rule set_drop_subset)
  ultimately show ?thesis
    using cs \<open>paths_inv limit s\<close>
    by (auto simp: challengeFor_def paths_inv_def Let_def maxPathChallenges_def simp flip: cs_def split: option.splits)
qed

lemma acceptPathResponse_inv: "paths_inv limit s \<Longrightarrow> paths_inv limit (snd (acceptPathResponse addr data now s))"
  using length_delete_le [of addr "sp_challenges s"]
  by (auto simp: acceptPathResponse_def paths_inv_def distinct_delete intro: le_trans split: option.splits)

lemma updateRemoteAddr_keeps [simp]:
  "sp_pathAddrs (updateRemoteAddr a allow s) = sp_pathAddrs s" "sp_challenges (updateRemoteAddr a allow s) = sp_challenges s"
  "sp_lastOrigPort (updateRemoteAddr a allow s) = sp_lastOrigPort s"
  by (auto simp: updateRemoteAddr_def split: option.splits)

lemma sessionRoute_keeps [simp]:
  "sp_pathAddrs (snd (sessionRoute s)) = sp_pathAddrs s" "sp_challenges (snd (sessionRoute s)) = sp_challenges s"
  "sp_raddr (snd (sessionRoute s)) = sp_raddr s"
  by (auto simp: sessionRoute_def Let_def split: option.splits)

lemmas paths_inv_intros = setPath_inv challengeFor_inv acceptPathResponse_inv

lemma route_inv:
  "paths_inv limit (updateRemoteAddr a allow s) = paths_inv limit s" "paths_inv limit (snd (sessionRoute s)) = paths_inv limit s"
  by (simp_all add: paths_inv_def)

lemma path_op_inv: "paths_inv limit s \<Longrightarrow> paths_inv limit (path_op_step limit e s)"
  by (cases e) (simp_all add: paths_inv_intros route_inv)

text \<open>With strictly advancing clock readings the preferred path is the one written last.\<close>

lemma setPath_latest:
  assumes "preferred_latest now s" "now < now'"
  shows "preferred_latest now' (setPath limit origPort (Some a) now' s)"
  using assms set_madeRoom [where limit = limit and origPort = origPort and t = "sp_pathAddrs s"]
  by (fastforce simp: preferred_latest_def setPath_eq split: if_splits option.splits)

lemma oldest_not_preferred:
  assumes "preferred_latest now s" "1 < length (sp_pathAddrs s)" "distinct (map fst (sp_pathAddrs s))"
    "map_of (sp_pathAddrs s) (sp_lastOrigPort s) = Some cur"
  shows "oldestPath z True (sp_pathAddrs s) \<noteq> sp_lastOrigPort s"
proof
  assume same: "oldestPath z True (sp_pathAddrs s) = sp_lastOrigPort s"
  have "sp_pathAddrs s \<noteq> []"
    using assms(2) by auto
  then obtain old where "(sp_lastOrigPort s, old) \<in> set (sp_pathAddrs s)"
    and least: "\<forall>x \<in> set (sp_pathAddrs s). pe_usedAt old \<le> pe_usedAt (snd x)"
    using oldestPath_least [of "sp_pathAddrs s" z] same by auto
  then have "old = cur"
    using assms(3,4) by (simp add: map_of_is_SomeI)
  obtain x y ys where t: "sp_pathAddrs s = x # y # ys"
    using assms(2) by (cases "sp_pathAddrs s"; cases "tl (sp_pathAddrs s)") auto
  define w where "w = (if fst x = sp_lastOrigPort s then y else x)"
  have w: "w \<in> set (sp_pathAddrs s)" "fst w \<noteq> sp_lastOrigPort s"
    using assms(3) by (auto simp: t w_def)
  then have "pe_usedAt (snd w) < pe_usedAt cur"
    using assms(1,4) by (cases w) (auto simp: preferred_latest_def)
  then show False
    using least w(1) \<open>old = cur\<close> by force
qed

section \<open>Properties\<close>

text \<open>C40: the tables of a session stay bounded.  From the state of a new session, any sequence of
  observed datagrams, address updates, challenges sent and answered and replies routed keeps at
  most \<open>limit\<close> paths (the bound of the socket pool, at least one) with distinct positive ports,
  and at most eight outstanding challenges for distinct addresses.\<close>

theorem path_tables_bounded:
  "paths_inv limit (fold (path_op_step limit) ops (newPaths remoteAddr origPort))"
proof -
  have "paths_inv limit s \<Longrightarrow> paths_inv limit (fold (path_op_step limit) ops s)" for s
    by (induction ops arbitrary: s) (auto intro: path_op_inv)
  moreover have "paths_inv limit (newPaths remoteAddr origPort)"
    by (simp add: paths_inv_def newPaths_def)
  ultimately show ?thesis by blast
qed



end
