(* ===== verification/Noise.thy ===== *)
theory Noise
  imports Protocol
begin

text \<open>
  Session keys and record protection (\<^verbatim>\<open>tunnel/noise.go\<close> and the key derivation of
  \<^verbatim>\<open>tunnel/protocol.go\<close>, lines 193--366): the Noise\_NK handshake, the pre-shared-key derivations and
  the sealing of frames.  The primitives of \<^verbatim>\<open>golang.org/x/crypto\<close> (X25519, BLAKE2s, HKDF and
  ChaCha20-Poly1305) are the fields of a \<open>crypto\<close> parameter; what the code relies on is stated as
  \<open>aead_correct\<close>, \<open>dh_correct\<close> and \<open>kdf_sizes\<close>.  Random bytes are arguments.
\<close>

section \<open>Definitions\<close>

record crypto =
  cr_x25519 :: "bytes \<Rightarrow> bytes \<Rightarrow> bytes option"
  cr_basepoint :: bytes
  cr_blake2s :: "bytes \<Rightarrow> bytes"
  cr_hkdf_blake :: "bytes \<Rightarrow> bytes \<Rightarrow> bytes"
  cr_hkdf_sha :: "bytes \<Rightarrow> bytes \<Rightarrow> bytes \<Rightarrow> bytes"
  cr_seal :: "bytes \<Rightarrow> bytes \<Rightarrow> bytes \<Rightarrow> bytes \<Rightarrow> bytes"
  cr_open :: "bytes \<Rightarrow> bytes \<Rightarrow> bytes \<Rightarrow> bytes \<Rightarrow> bytes option"

datatype noise_error =
    RandomFailed
  | CurveFailed
  | DegenerateDH
  | Msg1Size
  | Msg2Size
  | AuthenticationFailed
  | AlreadyFinished
  | InvalidKeySize
  | InvalidFrame

subsection \<open>Keys and Diffie-Hellman\<close>

definition clampKey :: "bytes \<Rightarrow> bytes" where
  "clampKey priv = priv[0 := priv ! 0 AND 248, 31 := (priv ! 31 AND 127) OR 64]"

record NoiseKeyPair =
  PrivateKey :: bytes
  PublicKey :: bytes

definition GenerateNoiseKeyPair :: "crypto \<Rightarrow> bytes option \<Rightarrow> noise_error + NoiseKeyPair" where
  "GenerateNoiseKeyPair cr rnd = (case rnd of
       None \<Rightarrow> Inl RandomFailed
     | Some r \<Rightarrow> (let priv = clampKey r in case cr_x25519 cr priv (cr_basepoint cr) of
           None \<Rightarrow> Inl CurveFailed
         | Some pub \<Rightarrow> Inr \<lparr> PrivateKey = priv, PublicKey = pub \<rparr>))"

definition generateEphemeral :: "crypto \<Rightarrow> bytes option \<Rightarrow> noise_error + bytes \<times> bytes" where
  "generateEphemeral cr rnd = (case rnd of
       None \<Rightarrow> Inl RandomFailed
     | Some r \<Rightarrow> (let priv = clampKey r in case cr_x25519 cr priv (cr_basepoint cr) of
           None \<Rightarrow> Inl CurveFailed
         | Some pub \<Rightarrow> Inr (priv, pub)))"

definition subtleEqual :: "bytes \<Rightarrow> bytes \<Rightarrow> bool" where
  "subtleEqual a b = (if length a \<noteq> length b then False
     else fold (\<lambda>(x, y) v. v OR (x XOR y)) (zip a b) 0 = 0)"

definition dh :: "crypto \<Rightarrow> bytes \<Rightarrow> bytes \<Rightarrow> noise_error + bytes" where
  "dh cr priv pub = (case cr_x25519 cr priv pub of
       None \<Rightarrow> Inl CurveFailed
     | Some shared \<Rightarrow> if subtleEqual shared (replicate 32 0) then Inl DegenerateDH else Inr shared)"

subsection \<open>The symmetric state of the handshake\<close>

record symmetricState =
  ss_ck :: bytes
  ss_h :: bytes
  ss_key :: "bytes option"
  ss_n :: uint64

definition noiseProtocolName :: string where
  "noiseProtocolName = ''Noise_NK_25519_ChaChaPoly_BLAKE2s''"

definition mixHash :: "crypto \<Rightarrow> bytes \<Rightarrow> symmetricState \<Rightarrow> symmetricState" where
  "mixHash cr msg s = s\<lparr>ss_h := cr_blake2s cr (ss_h s @ msg)\<rparr>"

definition newSymmetricState :: "crypto \<Rightarrow> symmetricState" where
  "newSymmetricState cr = (let name = bytes_of_string noiseProtocolName;
       h = (if length name \<le> 32 then name @ replicate (32 - length name) 0 else cr_blake2s cr name)
     in mixHash cr [] \<lparr> ss_ck = h, ss_h = h, ss_key = None, ss_n = 0 \<rparr>)"

definition nkInit :: "crypto \<Rightarrow> bytes \<Rightarrow> symmetricState" where
  "nkInit cr responderStaticPub = mixHash cr responderStaticPub (newSymmetricState cr)"

definition mixKey :: "crypto \<Rightarrow> bytes \<Rightarrow> symmetricState \<Rightarrow> symmetricState" where
  "mixKey cr ikm s = (let out = cr_hkdf_blake cr ikm (ss_ck s)
     in s\<lparr>ss_ck := take 32 out, ss_key := Some (drop 32 out), ss_n := 0\<rparr>)"

definition le64 :: "uint64 \<Rightarrow> bytes" where
  "le64 w = rev (put_be 8 w)"

definition packetNonce :: "uint64 \<Rightarrow> bytes" where
  "packetNonce packetNo = replicate 4 0 @ le64 packetNo"

definition handshakeNonce :: "symmetricState \<Rightarrow> bytes" where
  "handshakeNonce s = replicate 4 0 @ le64 (ss_n s)"

definition encryptAndHash :: "crypto \<Rightarrow> bytes \<Rightarrow> symmetricState \<Rightarrow> bytes \<times> symmetricState" where
  "encryptAndHash cr plaintext s = (case ss_key s of
       None \<Rightarrow> (plaintext, mixHash cr plaintext s)
     | Some k \<Rightarrow> (let ct = cr_seal cr k (handshakeNonce s) plaintext (ss_h s)
                  in (ct, mixHash cr ct (s\<lparr>ss_n := ss_n s + 1\<rparr>))))"

definition decryptAndHash :: "crypto \<Rightarrow> bytes \<Rightarrow> symmetricState \<Rightarrow> noise_error + bytes \<times> symmetricState" where
  "decryptAndHash cr ciphertext s = (case ss_key s of
       None \<Rightarrow> Inr (ciphertext, mixHash cr ciphertext s)
     | Some k \<Rightarrow> (case cr_open cr k (handshakeNonce s) ciphertext (ss_h s) of
           None \<Rightarrow> Inl AuthenticationFailed
         | Some pt \<Rightarrow> Inr (pt, mixHash cr ciphertext (s\<lparr>ss_n := ss_n s + 1\<rparr>))))"

definition split_keys :: "crypto \<Rightarrow> symmetricState \<Rightarrow> bytes \<times> bytes" where
  "split_keys cr s = (let out = cr_hkdf_blake cr [] (ss_ck s) in (take 32 out, drop 32 out))"

subsection \<open>Record protection\<close>

text \<open>A cipher state is its key; building one fails unless the key has 32 bytes.\<close>

type_synonym AEADCipherState = bytes

definition newAEADCipherState :: "bytes \<Rightarrow> noise_error + AEADCipherState" where
  "newAEADCipherState key = (if length key = 32 then Inr key else Inl InvalidKeySize)"

definition Encrypt :: "crypto \<Rightarrow> AEADCipherState \<Rightarrow> uint64 \<Rightarrow> bytes \<Rightarrow> bytes \<Rightarrow> bytes" where
  "Encrypt cr c packetNo plaintext aad = cr_seal cr c (packetNonce packetNo) plaintext aad"

definition Decrypt :: "crypto \<Rightarrow> AEADCipherState \<Rightarrow> uint64 \<Rightarrow> bytes \<Rightarrow> bytes \<Rightarrow> bytes option" where
  "Decrypt cr c packetNo ciphertext aad = cr_open cr c (packetNonce packetNo) ciphertext aad"

definition sealFrameAEADInto :: "crypto \<Rightarrow> UDPCFrame \<Rightarrow> AEADCipherState \<Rightarrow> bytes \<Rightarrow> bytes" where
  "sealFrameAEADInto cr f c plaintext = (let header = encodeHeaderInto f (length plaintext)
     in header @ cr_seal cr c (packetNonce (PacketNo f)) plaintext header)"

definition SealFrameAEAD :: "crypto \<Rightarrow> UDPCFrame option \<Rightarrow> AEADCipherState option \<Rightarrow> bytes \<Rightarrow> bytes option" where
  "SealFrameAEAD cr fp cp plaintext = (case (fp, cp) of
       (Some f, Some c) \<Rightarrow>
         if 65535 < length plaintext then None
         else if UDPC_MAX_PKT < UDPC_HDR_SIZE + length plaintext + 16 then None
         else Some (sealFrameAEADInto cr f c plaintext)
     | _ \<Rightarrow> None)"

definition sealControlFrameAEAD :: "crypto \<Rightarrow> UDPCFrame \<Rightarrow> AEADCipherState \<Rightarrow> bytes" where
  "sealControlFrameAEAD cr f c = sealFrameAEADInto cr f c (Data f)"

definition OpenFrameAEAD :: "crypto \<Rightarrow> UDPCFrame option \<Rightarrow> AEADCipherState option \<Rightarrow> noise_error + bytes" where
  "OpenFrameAEAD cr fp cp = (case (fp, cp) of
       (Some f, Some c) \<Rightarrow>
         if length (raw f) < UDPC_HDR_SIZE + UDPC_TRAILER_SIZE then Inl InvalidFrame
         else (case cr_open cr c (packetNonce (PacketNo f)) (drop UDPC_HDR_SIZE (raw f)) (take UDPC_HDR_SIZE (raw f)) of
             None \<Rightarrow> Inl AuthenticationFailed
           | Some pt \<Rightarrow> Inr pt)
     | _ \<Rightarrow> Inl InvalidFrame)"

subsection \<open>The Noise handshake\<close>

record NoiseSession =
  SendCipher :: AEADCipherState
  RecvCipher :: AEADCipherState
  HandshakeHash :: bytes

definition newNoiseSession :: "bytes \<Rightarrow> bytes \<Rightarrow> bytes \<Rightarrow> noise_error + NoiseSession" where
  "newNoiseSession sendKey recvKey h = (case newAEADCipherState sendKey of
       Inl e \<Rightarrow> Inl e
     | Inr s \<Rightarrow> (case newAEADCipherState recvKey of
           Inl e \<Rightarrow> Inl e
         | Inr r \<Rightarrow> Inr \<lparr> SendCipher = s, RecvCipher = r, HandshakeHash = h \<rparr>))"

record ClientNK =
  nk_ss :: symmetricState
  nk_ePriv :: bytes
  nk_ePub :: bytes
  nk_serverPub :: bytes
  nk_msg1 :: "bytes option"
  nk_finished :: bool

definition NewClientNK :: "crypto \<Rightarrow> bytes option \<Rightarrow> bytes \<Rightarrow> noise_error + ClientNK" where
  "NewClientNK cr rnd serverPub = (case generateEphemeral cr rnd of
       Inl e \<Rightarrow> Inl e
     | Inr (priv, pub) \<Rightarrow>
         (let s = mixHash cr pub (nkInit cr serverPub)
          in case dh cr priv serverPub of
            Inl e \<Rightarrow> Inl e
          | Inr shared \<Rightarrow> Inr \<lparr> nk_ss = mixKey cr shared s, nk_ePriv = priv, nk_ePub = pub,
              nk_serverPub = serverPub, nk_msg1 = None, nk_finished = False \<rparr>))"

definition Message1 :: "crypto \<Rightarrow> ClientNK \<Rightarrow> (noise_error + bytes) \<times> ClientNK" where
  "Message1 cr c = (case nk_msg1 c of
       Some m \<Rightarrow> (Inr m, c)
     | None \<Rightarrow> (case encryptAndHash cr [] (nk_ss c) of (tag, s) \<Rightarrow>
         (let out = nk_ePub c @ tag in
          if length out \<noteq> noiseMsg1Size then (Inl Msg1Size, c\<lparr>nk_ss := s\<rparr>)
          else (Inr out, c\<lparr>nk_ss := s, nk_msg1 := Some out\<rparr>))))"

definition Finish :: "crypto \<Rightarrow> ClientNK \<Rightarrow> bytes \<Rightarrow> (noise_error + NoiseSession) \<times> ClientNK" where
  "Finish cr c msg2 =
     (if nk_finished c then (Inl AlreadyFinished, c)
      else if length msg2 \<noteq> noiseMsg2Size then (Inl Msg2Size, c)
      else let s1 = mixHash cr (take 32 msg2) (nk_ss c) in
        case dh cr (nk_ePriv c) (take 32 msg2) of
          Inl e \<Rightarrow> (Inl e, c\<lparr>nk_ss := s1\<rparr>)
        | Inr shared \<Rightarrow> (let s2 = mixKey cr shared s1 in
            case decryptAndHash cr (drop 32 msg2) s2 of
              Inl e \<Rightarrow> (Inl e, c\<lparr>nk_ss := s2\<rparr>)
            | Inr (_, s3) \<Rightarrow> (case split_keys cr s3 of (k1, k2) \<Rightarrow>
                (case newNoiseSession k1 k2 (ss_h s3) of
                   Inl e \<Rightarrow> (Inl e, c\<lparr>nk_ss := s3\<rparr>)
                 | Inr sess \<Rightarrow> (Inr sess, c\<lparr>nk_ss := s3, nk_finished := True\<rparr>)))))"

definition NewServerNoiseSession :: "crypto \<Rightarrow> bytes option \<Rightarrow> bytes \<Rightarrow> bytes \<Rightarrow> noise_error + NoiseSession \<times> bytes" where
  "NewServerNoiseSession cr rnd serverPrivkey msg1 =
     (if length msg1 \<noteq> noiseMsg1Size then Inl Msg1Size
      else case cr_x25519 cr serverPrivkey (cr_basepoint cr) of
        None \<Rightarrow> Inl CurveFailed
      | Some serverPub \<Rightarrow> (let s1 = mixHash cr (take 32 msg1) (nkInit cr serverPub) in
          case dh cr serverPrivkey (take 32 msg1) of
            Inl e \<Rightarrow> Inl e
          | Inr es \<Rightarrow> (case decryptAndHash cr (drop 32 msg1) (mixKey cr es s1) of
              Inl e \<Rightarrow> Inl e
            | Inr (_, s2) \<Rightarrow> (case generateEphemeral cr rnd of
                Inl e \<Rightarrow> Inl e
              | Inr (ePriv, ePub) \<Rightarrow> (let s3 = mixHash cr ePub s2 in
                  case dh cr ePriv (take 32 msg1) of
                    Inl e \<Rightarrow> Inl e
                  | Inr ee \<Rightarrow> (case encryptAndHash cr [] (mixKey cr ee s3) of (tag, s4) \<Rightarrow>
                      (case split_keys cr s4 of (k1, k2) \<Rightarrow>
                        (case newNoiseSession k2 k1 (ss_h s4) of
                           Inl e \<Rightarrow> Inl e
                         | Inr sess \<Rightarrow> Inr (sess, ePub @ tag)))))))))"

subsection \<open>Keys from the pre-shared key\<close>

record FrameKeys =
  Send :: AEADCipherState
  Recv :: AEADCipherState
  fk_fec :: bool
  fk_fecExt :: bool
  fk_wideWindow :: bool
  fk_recovery :: bool

record PSKHandshakeKeys =
  SynMAC :: bytes
  AckMAC :: bytes

record PSKSessionKeys =
  C2S :: bytes
  S2C :: bytes

definition handshakeKeysInfo :: string where "handshakeKeysInfo = ''udp_custom/v2/handshake-keys''"
definition sessionKeysInfo :: string where "sessionKeysInfo = ''udp_custom/v2/session-keys-aead''"

definition DerivePSKHandshakeKeys :: "crypto \<Rightarrow> string \<Rightarrow> bytes \<Rightarrow> PSKHandshakeKeys" where
  "DerivePSKHandshakeKeys cr psk clientNonce =
     (let material = cr_hkdf_sha cr (bytes_of_string psk) clientNonce (bytes_of_string handshakeKeysInfo)
      in \<lparr> SynMAC = take 32 material, AckMAC = drop 32 material \<rparr>)"

definition DerivePSKSessionKeys :: "crypto \<Rightarrow> string \<Rightarrow> bytes \<Rightarrow> bytes \<Rightarrow> uint32 \<Rightarrow> PSKSessionKeys" where
  "DerivePSKSessionKeys cr psk clientNonce serverNonce sessionID =
     (let salt = sha256 (clientNonce @ serverNonce @ put_be 4 sessionID);
          material = cr_hkdf_sha cr (bytes_of_string psk) salt (bytes_of_string sessionKeysInfo)
      in \<lparr> C2S = take 32 material, S2C = drop 32 material \<rparr>)"

definition frameCiphers :: "bytes \<Rightarrow> bytes \<Rightarrow> noise_error + FrameKeys" where
  "frameCiphers sendKey recvKey = (case newAEADCipherState sendKey of
       Inl e \<Rightarrow> Inl e
     | Inr s \<Rightarrow> (case newAEADCipherState recvKey of
           Inl e \<Rightarrow> Inl e
         | Inr r \<Rightarrow> Inr \<lparr> Send = s, Recv = r, fk_fec = False, fk_fecExt = False, fk_wideWindow = False, fk_recovery = False \<rparr>))"

definition ClientFrameCiphers :: "PSKSessionKeys \<Rightarrow> noise_error + FrameKeys" where
  "ClientFrameCiphers k = frameCiphers (C2S k) (S2C k)"

definition ServerFrameCiphers :: "PSKSessionKeys \<Rightarrow> noise_error + FrameKeys" where
  "ServerFrameCiphers k = frameCiphers (S2C k) (C2S k)"

fun matchSynPSK :: "crypto \<Rightarrow> bytes \<Rightarrow> string list \<Rightarrow> bytes \<Rightarrow> string" where
  "matchSynPSK cr wire [] clientNonce = []"
| "matchSynPSK cr wire (psk # passwords) clientNonce =
     (if VerifyFrameAuth wire (Some (SynMAC (DerivePSKHandshakeKeys cr psk clientNonce))) = Inr () then psk
      else matchSynPSK cr wire passwords clientNonce)"

subsection \<open>What the code relies on\<close>

text \<open>The AEAD opens exactly what it sealed under the same key, nonce and associated data, and adds
  a tag of 16 bytes.\<close>

definition aead_correct :: "crypto \<Rightarrow> bool" where
  "aead_correct cr \<longleftrightarrow> (\<forall>k n p a. length (cr_seal cr k n p a) = length p + 16)
     \<and> (\<forall>k n p c a. cr_open cr k n c a = Some p \<longleftrightarrow> c = cr_seal cr k n p a)"

text \<open>Diffie-Hellman commutes on public keys, and keys have 32 bytes.\<close>

definition dh_correct :: "crypto \<Rightarrow> bool" where
  "dh_correct cr \<longleftrightarrow> (\<forall>a p q. cr_x25519 cr a p = Some q \<longrightarrow> length q = 32)
     \<and> (\<forall>a b A B. cr_x25519 cr a (cr_basepoint cr) = Some A \<longrightarrow> cr_x25519 cr b (cr_basepoint cr) = Some B \<longrightarrow>
          cr_x25519 cr a B = cr_x25519 cr b A)"

definition kdf_sizes :: "crypto \<Rightarrow> bool" where
  "kdf_sizes cr \<longleftrightarrow> (\<forall>ikm salt. length (cr_hkdf_blake cr ikm salt) = 64)
     \<and> (\<forall>ikm salt info. length (cr_hkdf_sha cr ikm salt info) = 64)"

text \<open>A concrete instance of the primitives with these properties, for the witnesses.\<close>

definition byte_at :: "bytes \<Rightarrow> nat \<Rightarrow> byte" where
  "byte_at xs i = (if i < length xs then xs ! i else 0)"

definition sample_tag :: "bytes \<Rightarrow> bytes \<Rightarrow> bytes \<Rightarrow> bytes" where
  "sample_tag k n a = map (\<lambda>i. byte_at k i + byte_at n i + byte_at a i) [0..<16]"

definition sample_crypto :: crypto where
  "sample_crypto = \<lparr>
     cr_x25519 = (\<lambda>a p. Some (1 # map (\<lambda>i. byte_at a i + byte_at p (Suc i)) [0..<31])),
     cr_basepoint = 9 # replicate 31 0,
     cr_blake2s = (\<lambda>m. map (\<lambda>i. byte_at m i + byte_at m (i + 32)) [0..<32]),
     cr_hkdf_blake = (\<lambda>ikm salt. map (\<lambda>i. byte_at ikm i + byte_at salt (i mod 32) + of_nat i) [0..<64]),
     cr_hkdf_sha = (\<lambda>ikm salt info. map (\<lambda>i. byte_at ikm i + byte_at salt i + byte_at info i) [0..<64]),
     cr_seal = (\<lambda>k n p a. p @ sample_tag k n a),
     cr_open = (\<lambda>k n c a. if 16 \<le> length c \<and> drop (length c - 16) c = sample_tag k n a then Some (take (length c - 16) c) else None) \<rparr>"

section \<open>Lemmas\<close>

lemma length_le64 [simp, codec_simps]: "length (le64 w) = 8"
  by (simp add: le64_def)

lemma le64_inj: "le64 v = le64 w \<longleftrightarrow> v = w"
proof
  assume "le64 v = le64 w"
  then have "get_be (put_be 8 v) = (get_be (put_be 8 w) :: uint64)" unfolding le64_def rev_is_rev_conv by (rule arg_cong)
  then show "v = w" by simp
qed simp

lemma packetNonce_inj [simp]: "packetNonce v = packetNonce w \<longleftrightarrow> v = w"
  by (simp add: packetNonce_def le64_inj)

lemma subtleEqual_fold:
  "length a = length b \<Longrightarrow> fold (\<lambda>(x, y) v. v OR (x XOR y)) (zip a b) (acc :: byte) = 0 \<longleftrightarrow> acc = 0 \<and> a = b"
proof (induction a b arbitrary: acc rule: list_induct2)
  case (Cons x xs y ys)
  have "acc OR (x XOR y) = 0 \<longleftrightarrow> acc = 0 \<and> x = y"
    by (auto simp: bit_eq_iff bit_simps)
  then show ?case using Cons by auto
qed simp

lemma subtleEqual_iff [simp]: "subtleEqual a b \<longleftrightarrow> a = b"
  using subtleEqual_fold [of a b 0] by (auto simp: subtleEqual_def)

lemma aead_open_iff: "aead_correct cr \<Longrightarrow> cr_open cr k n c a = Some p \<longleftrightarrow> c = cr_seal cr k n p a"
  by (simp add: aead_correct_def)

lemma aead_open_seal [simp]: "aead_correct cr \<Longrightarrow> cr_open cr k n (cr_seal cr k n p a) a = Some p"
  by (simp add: aead_open_iff)

lemma aead_length: "aead_correct cr \<Longrightarrow> length (cr_seal cr k n p a) = length p + 16"
  by (simp add: aead_correct_def)

lemma x25519_length: "dh_correct cr \<Longrightarrow> cr_x25519 cr a p = Some q \<Longrightarrow> length q = 32"
  unfolding dh_correct_def by blast

lemma dh_comm:
  assumes "dh_correct cr" "cr_x25519 cr a (cr_basepoint cr) = Some A" "cr_x25519 cr b (cr_basepoint cr) = Some B"
  shows "dh cr a B = dh cr b A"
proof -
  have "cr_x25519 cr a B = cr_x25519 cr b A" using assms unfolding dh_correct_def by blast
  then show ?thesis by (simp add: dh_def)
qed

lemma dh_error: "dh cr a B = Inl e \<Longrightarrow> e \<in> {CurveFailed, DegenerateDH}"
  by (auto simp: dh_def split: option.splits if_splits)

lemma generateEphemeral_pair:
  "generateEphemeral cr rnd = Inr (priv, pub) \<Longrightarrow> cr_x25519 cr priv (cr_basepoint cr) = Some pub"
  by (auto simp: generateEphemeral_def Let_def split: option.splits)

lemma generateEphemeral_error: "generateEphemeral cr rnd = Inl e \<Longrightarrow> e \<in> {RandomFailed, CurveFailed}"
  by (auto simp: generateEphemeral_def Let_def split: option.splits)

text \<open>A handshake message opens on the other side and leaves both sides in the same state.\<close>

lemma decrypt_encrypt:
  "aead_correct cr \<Longrightarrow> encryptAndHash cr p s = (c, s') \<Longrightarrow> decryptAndHash cr c s = Inr (p, s')"
  by (auto simp: encryptAndHash_def decryptAndHash_def Let_def split: option.splits)

lemma encrypt_length:
  "aead_correct cr \<Longrightarrow> ss_key s \<noteq> None \<Longrightarrow> length (fst (encryptAndHash cr p s)) = length p + 16"
  by (auto simp: encryptAndHash_def Let_def aead_length)

lemma mixKey_key [simp]: "ss_key (mixKey cr ikm s) \<noteq> None"
  by (simp add: mixKey_def Let_def)

lemma split_sessions:
  assumes "kdf_sizes cr"
  shows "\<exists>cs ss. newNoiseSession (fst (split_keys cr s)) (snd (split_keys cr s)) h = Inr cs
    \<and> newNoiseSession (snd (split_keys cr s)) (fst (split_keys cr s)) h = Inr ss
    \<and> SendCipher cs = RecvCipher ss \<and> RecvCipher cs = SendCipher ss \<and> HandshakeHash cs = h \<and> HandshakeHash ss = h"
  using assms by (simp add: split_keys_def Let_def kdf_sizes_def newNoiseSession_def newAEADCipherState_def)

lemma sample_crypto_ok: "aead_correct sample_crypto" "dh_correct sample_crypto" "kdf_sizes sample_crypto"
proof -
  have tag: "length (sample_tag k n a) = 16" for k n a by (simp add: sample_tag_def)
  show "aead_correct sample_crypto"
    unfolding aead_correct_def sample_crypto_def crypto.simps
    by (auto simp: tag) (metis append_take_drop_id)
  have "map (\<lambda>i. byte_at a i + byte_at (1 # map (\<lambda>i. byte_at b i + byte_at g (Suc i)) [0..<31]) (Suc i)) [0..<31]
      = map (\<lambda>i. byte_at b i + byte_at (1 # map (\<lambda>i. byte_at a i + byte_at g (Suc i)) [0..<31]) (Suc i)) [0..<31]" for a b g
    by (rule map_cong [OF refl]) (simp add: byte_at_def add.left_commute)
  then show "dh_correct sample_crypto"
    unfolding dh_correct_def sample_crypto_def crypto.simps by (auto simp del: upt_rec_numeral)
  show "kdf_sizes sample_crypto" by (simp add: kdf_sizes_def sample_crypto_def)
qed

lemma sample_steps:
  "\<exists>q. dh sample_crypto a p = Inr q" "\<exists>k. generateEphemeral sample_crypto (Some r) = Inr k"
  by (simp_all add: dh_def generateEphemeral_def Let_def sample_crypto_def del: upt_rec_numeral) (simp add: numeral_eq_Suc)

text \<open>The two ends of the handshake, step by step.\<close>

lemma NewClientNK_Inr:
  assumes "NewClientNK cr rnd serverPub = Inr c"
  obtains es where "cr_x25519 cr (nk_ePriv c) (cr_basepoint cr) = Some (nk_ePub c)" "dh cr (nk_ePriv c) serverPub = Inr es"
    "nk_ss c = mixKey cr es (mixHash cr (nk_ePub c) (nkInit cr serverPub))" "nk_msg1 c = None" "\<not> nk_finished c"
proof -
  obtain priv pub where g: "generateEphemeral cr rnd = Inr (priv, pub)" using assms
    by (auto simp: NewClientNK_def split: sum.splits)
  obtain es where "dh cr priv serverPub = Inr es" using assms g by (auto simp: NewClientNK_def Let_def split: sum.splits)
  then show ?thesis using that [of es] generateEphemeral_pair [OF g] assms g by (auto simp: NewClientNK_def Let_def)
qed

lemma Message1_first:
  assumes "aead_correct cr" "length (nk_ePub c) = 32" "ss_key (nk_ss c) \<noteq> None" "nk_msg1 c = None"
    and "encryptAndHash cr [] (nk_ss c) = (tag, s)"
  shows "Message1 cr c = (Inr (nk_ePub c @ tag), c\<lparr>nk_ss := s, nk_msg1 := Some (nk_ePub c @ tag)\<rparr>)" "length tag = 16"
  using assms encrypt_length [OF assms(1,3), of "[]"] by (simp_all add: Message1_def Let_def noiseMsg1Size_def)

lemma server_cases:
  assumes cr: "aead_correct cr" "dh_correct cr" "kdf_sizes cr"
    and sp: "cr_x25519 cr serverPriv (cr_basepoint cr) = Some serverPub"
    and m1: "length ePub = 32" "length tag1 = 16" "dh cr serverPriv ePub = Inr es"
      "decryptAndHash cr tag1 (mixKey cr es (mixHash cr ePub (nkInit cr serverPub))) = Inr (pt, s2)"
  obtains (err) e where "e \<in> {RandomFailed, CurveFailed, DegenerateDH}" "NewServerNoiseSession cr rnd serverPriv (ePub @ tag1) = Inl e"
  | (ok) fPriv fPub ee tag2 s4 ss where "cr_x25519 cr fPriv (cr_basepoint cr) = Some fPub" "dh cr fPriv ePub = Inr ee"
      "encryptAndHash cr [] (mixKey cr ee (mixHash cr fPub s2)) = (tag2, s4)"
      "newNoiseSession (snd (split_keys cr s4)) (fst (split_keys cr s4)) (ss_h s4) = Inr ss"
      "NewServerNoiseSession cr rnd serverPriv (ePub @ tag1) = Inr (ss, fPub @ tag2)"
proof -
  note start = NewServerNoiseSession_def [of cr rnd serverPriv "ePub @ tag1"]
  show ?thesis
  proof (cases "generateEphemeral cr rnd")
    case (Inl e)
    then show ?thesis using err [of e] generateEphemeral_error [OF Inl] m1 sp by (auto simp: start noiseMsg1Size_def Let_def)
  next
    case (Inr f)
    then obtain fPriv fPub where f: "generateEphemeral cr rnd = Inr (fPriv, fPub)" by (cases f) auto
    show ?thesis
    proof (cases "dh cr fPriv ePub")
      case (Inl e)
      then show ?thesis using err [of e] dh_error [OF Inl] m1 sp f by (auto simp: start noiseMsg1Size_def Let_def)
    next
      case (Inr ee)
      obtain tag2 s4 where t: "encryptAndHash cr [] (mixKey cr ee (mixHash cr fPub s2)) = (tag2, s4)" by fastforce
      obtain ss where ss: "newNoiseSession (snd (split_keys cr s4)) (fst (split_keys cr s4)) (ss_h s4) = Inr ss"
        using split_sessions [OF cr(3)] by blast
      have "NewServerNoiseSession cr rnd serverPriv (ePub @ tag1) = Inr (ss, fPub @ tag2)"
        using m1 sp f Inr t ss by (simp add: start noiseMsg1Size_def Let_def split_beta)
      then show ?thesis by (rule ok [OF generateEphemeral_pair [OF f] Inr t ss])
    qed
  qed
qed

lemma sample_no_error:
  "\<exists>c. NewClientNK sample_crypto (Some r) pub = Inr c"
  "NewServerNoiseSession sample_crypto (Some r) priv msg1 = Inl e \<Longrightarrow> e \<notin> {RandomFailed, CurveFailed, DegenerateDH}"
proof -
  show "\<exists>c. NewClientNK sample_crypto (Some r) pub = Inr c"
    using sample_steps(2) [of r] sample_steps(1) by (auto simp: NewClientNK_def Let_def split: sum.splits) (metis sum.distinct(1))
  have "cr_x25519 sample_crypto priv (cr_basepoint sample_crypto) \<noteq> None" by (simp add: sample_crypto_def)
  moreover have "newNoiseSession (snd (split_keys sample_crypto s)) (fst (split_keys sample_crypto s)) h \<noteq> Inl e'" for s h e'
    using split_sessions [OF sample_crypto_ok(3), of s h] by auto
  moreover have "dh sample_crypto a p \<noteq> Inl e'" "generateEphemeral sample_crypto (Some r) \<noteq> Inl e'" for a p e'
    using sample_steps(1) [of a p] sample_steps(2) [of r] by auto
  moreover have "decryptAndHash sample_crypto m s = Inl e' \<Longrightarrow> e' = AuthenticationFailed" for m s e'
    by (auto simp: decryptAndHash_def split: option.splits)
  moreover assume "NewServerNoiseSession sample_crypto (Some r) priv msg1 = Inl e"
  ultimately show "e \<notin> {RandomFailed, CurveFailed, DegenerateDH}"
    by (fastforce simp: NewServerNoiseSession_def Let_def split_beta split: if_splits sum.splits option.splits)
qed

text \<open>A sealed record is a wire form whose payload field holds the ciphertext.\<close>

lemma OpenFrameAEAD_Inr:
  assumes "aead_correct cr" "56 \<le> length (raw f)"
  shows "OpenFrameAEAD cr (Some f) (Some k) = Inr p \<longleftrightarrow>
    drop 40 (raw f) = cr_seal cr k (packetNonce (PacketNo f)) p (take 40 (raw f))"
proof -
  have "OpenFrameAEAD cr (Some f) (Some k) = Inr p \<longleftrightarrow>
      cr_open cr k (packetNonce (PacketNo f)) (drop 40 (raw f)) (take 40 (raw f)) = Some p"
    using assms(2) by (auto simp: OpenFrameAEAD_def size_defs split: option.splits)
  then show ?thesis by (simp only: aead_open_iff [OF assms(1)])
qed

lemma SealFrameAEAD_Some:
  "SealFrameAEAD cr (Some f) (Some k) p = Some w \<longleftrightarrow> length p \<le> 1394
    \<and> w = encodeHeaderInto f (length p) @ cr_seal cr k (packetNonce (PacketNo f)) p (encodeHeaderInto f (length p))"
  by (auto simp: SealFrameAEAD_def sealFrameAEADInto_def size_defs Let_def)

lemma sealed_wire:
  assumes "aead_correct cr" "SealFrameAEAD cr (Some f) (Some k) p = Some w"
  shows "\<exists>ct tag. length tag = 16 \<and> length ct = length p \<and> w = frame_wire (f\<lparr>Data := ct\<rparr>) tag"
proof -
  define body where "body = cr_seal cr k (packetNonce (PacketNo f)) p (encodeHeaderInto f (length p))"
  have w: "w = encodeHeaderInto f (length p) @ body" and len: "length body = length p + 16"
    using assms by (simp_all add: SealFrameAEAD_Some body_def aead_length)
  have "encodeHeaderInto (f\<lparr>Data := d\<rparr>) n = encodeHeaderInto f n" for d n by (simp add: encodeHeaderInto_def)
  then show ?thesis
    using len by (intro exI [of _ "take (length p) body"] exI [of _ "drop (length p) body"]) (simp add: w)
qed

text \<open>The Noise handshake agrees.  A client that knows the server's public key and a server that
  receives its first message either stop on a failed random source, a failed curve operation
  or a degenerate shared secret, or both finish: each side's sending key is the other's
  receiving key, and both hold the same transcript hash.  An honest message is never rejected
  as unauthentic, and the client finishes at most once.\<close>

lemma noise_keys_agree:
  assumes "aead_correct cr" "dh_correct cr" "kdf_sizes cr"
    and "cr_x25519 cr serverPriv (cr_basepoint cr) = Some serverPub" "NewClientNK cr rnd serverPub = Inr c"
  shows "\<exists>msg1 c1. Message1 cr c = (Inr msg1, c1) \<and> Message1 cr c1 = (Inr msg1, c1)
    \<and> (case NewServerNoiseSession cr rnd' serverPriv msg1 of
         Inl e \<Rightarrow> e \<in> {RandomFailed, CurveFailed, DegenerateDH}
       | Inr (ss, msg2) \<Rightarrow> \<exists>cs c2. Finish cr c1 msg2 = (Inr cs, c2)
           \<and> SendCipher cs = RecvCipher ss \<and> RecvCipher cs = SendCipher ss \<and> HandshakeHash cs = HandshakeHash ss
           \<and> Finish cr c2 msg2 = (Inl AlreadyFinished, c2))"
proof -
  note cr = assms(1-3)
  obtain es where c: "cr_x25519 cr (nk_ePriv c) (cr_basepoint cr) = Some (nk_ePub c)" "dh cr (nk_ePriv c) serverPub = Inr es"
    "nk_ss c = mixKey cr es (mixHash cr (nk_ePub c) (nkInit cr serverPub))" "nk_msg1 c = None" "\<not> nk_finished c"
    using NewClientNK_Inr [OF assms(5)] by blast
  have len: "length (nk_ePub c) = 32" using x25519_length [OF cr(2) c(1)] .
  obtain tag1 s1 where e: "encryptAndHash cr [] (nk_ss c) = (tag1, s1)" by fastforce
  define c1 where "c1 = c\<lparr>nk_ss := s1, nk_msg1 := Some (nk_ePub c @ tag1)\<rparr>"
  have m1: "Message1 cr c = (Inr (nk_ePub c @ tag1), c1)" "length tag1 = 16"
    using Message1_first [OF cr(1) len _ c(4) e] c(3) by (simp_all add: c1_def)
  have again: "Message1 cr c1 = (Inr (nk_ePub c @ tag1), c1)" by (simp add: Message1_def c1_def)
  have es: "dh cr serverPriv (nk_ePub c) = Inr es" using dh_comm [OF cr(2) assms(4) c(1)] c(2) by simp
  have dec: "decryptAndHash cr tag1 (mixKey cr es (mixHash cr (nk_ePub c) (nkInit cr serverPub))) = Inr ([], s1)"
    using decrypt_encrypt [OF cr(1) e] by (simp add: c(3))
  have "case NewServerNoiseSession cr rnd' serverPriv (nk_ePub c @ tag1) of
         Inl e \<Rightarrow> e \<in> {RandomFailed, CurveFailed, DegenerateDH}
       | Inr (ss, msg2) \<Rightarrow> \<exists>cs c2. Finish cr c1 msg2 = (Inr cs, c2)
           \<and> SendCipher cs = RecvCipher ss \<and> RecvCipher cs = SendCipher ss \<and> HandshakeHash cs = HandshakeHash ss
           \<and> Finish cr c2 msg2 = (Inl AlreadyFinished, c2)"
  proof (rule server_cases [OF cr assms(4) len m1(2) es dec, where rnd = rnd'])
    fix fPriv fPub ee tag2 s4 ss
    assume s: "cr_x25519 cr fPriv (cr_basepoint cr) = Some fPub" "dh cr fPriv (nk_ePub c) = Inr ee"
      "encryptAndHash cr [] (mixKey cr ee (mixHash cr fPub s1)) = (tag2, s4)"
      "newNoiseSession (snd (split_keys cr s4)) (fst (split_keys cr s4)) (ss_h s4) = Inr ss"
      "NewServerNoiseSession cr rnd' serverPriv (nk_ePub c @ tag1) = Inr (ss, fPub @ tag2)"
    obtain cs where cs: "newNoiseSession (fst (split_keys cr s4)) (snd (split_keys cr s4)) (ss_h s4) = Inr cs"
        "SendCipher cs = RecvCipher ss" "RecvCipher cs = SendCipher ss" "HandshakeHash cs = HandshakeHash ss"
      using split_sessions [OF cr(3), of s4 "ss_h s4"] s(4) by auto
    have ee: "dh cr (nk_ePriv c) fPub = Inr ee" using dh_comm [OF cr(2) c(1) s(1)] s(2) by simp
    have l2: "length fPub = 32" "length tag2 = 16"
      using x25519_length [OF cr(2) s(1)] encrypt_length [OF cr(1) mixKey_key, of "[]" cr ee "mixHash cr fPub s1"] s(3) by simp_all
    have "Finish cr c1 (fPub @ tag2) = (Inr cs, c1\<lparr>nk_ss := s4, nk_finished := True\<rparr>)"
      using c(5) l2 ee decrypt_encrypt [OF cr(1) s(3)] cs(1)
      by (simp add: Finish_def c1_def noiseMsg2Size_def Let_def split_beta)
    moreover have "Finish cr (c1\<lparr>nk_ss := s4, nk_finished := True\<rparr>) (fPub @ tag2) = (Inl AlreadyFinished, c1\<lparr>nk_ss := s4, nk_finished := True\<rparr>)"
      by (simp add: Finish_def)
    ultimately show ?thesis using s(5) cs(2-4) by auto
  qed simp
  then show ?thesis using m1(1) again by blast
qed

lemma noise_keys_agree_witness:
  "\<exists>c msg1 c1 ss msg2 cs c2. NewClientNK sample_crypto (Some (replicate 32 1)) (the (cr_x25519 sample_crypto (replicate 32 7) (cr_basepoint sample_crypto))) = Inr c
     \<and> Message1 sample_crypto c = (Inr msg1, c1)
     \<and> NewServerNoiseSession sample_crypto (Some (replicate 32 2)) (replicate 32 7) msg1 = Inr (ss, msg2)
     \<and> Finish sample_crypto c1 msg2 = (Inr cs, c2) \<and> SendCipher cs = RecvCipher ss"
proof -
  define pub where "pub = the (cr_x25519 sample_crypto (replicate 32 7) (cr_basepoint sample_crypto))"
  have pub: "cr_x25519 sample_crypto (replicate 32 7) (cr_basepoint sample_crypto) = Some pub"
    by (simp add: pub_def sample_crypto_def)
  obtain c where c: "NewClientNK sample_crypto (Some (replicate 32 1)) pub = Inr c"
    using sample_no_error(1) by blast
  from noise_keys_agree [OF sample_crypto_ok pub c, of "Some (replicate 32 2)"]
  show ?thesis
    using c sample_no_error(2) unfolding pub_def [symmetric] by (fastforce split: sum.splits prod.splits)
qed

section \<open>Properties\<close>

text \<open>C38. Record protection is exact.  A received record opens to a plaintext under a key exactly when
  it is, byte for byte, what sealing that plaintext with the received header fields under that
  key puts on the wire, so no header field escapes the authentication; and every record that a
  peer seals parses and opens to its plaintext.\<close>

theorem record_protection_exact:
  assumes "aead_correct cr"
  shows "(parseUDPCFrame w magic = Inr f \<longrightarrow>
      (OpenFrameAEAD cr (Some f) (Some k) = Inr p \<longleftrightarrow> SealFrameAEAD cr (Some f) (Some k) p = Some w))
    \<and> (SealFrameAEAD cr (Some g) (Some k) p = Some w \<and> Version g = UDPC_VERSION \<and> validUDPCCommand (Cmd g) \<longrightarrow>
      (\<exists>ct. parseUDPCFrame w (Magic g) = Inr (g\<lparr>Data := ct, raw := w\<rparr>)
          \<and> OpenFrameAEAD cr (Some (g\<lparr>Data := ct, raw := w\<rparr>)) (Some k) = Inr p))"
proof (intro conjI impI)
  assume parse: "parseUDPCFrame w magic = Inr f"
  obtain tag where tag: "length tag = 16" "w = frame_wire f tag" using parse_frame_sound(1) [OF parse] by blast
  have f: "raw f = w" "length (Data f) \<le> 1394" "56 \<le> length (raw f)" using parse_frame_sound [OF parse] by auto
  have halves: "take 40 w = encodeHeaderInto f (length (Data f))" "drop 40 w = Data f @ tag" using tag(2) by simp_all
  show "OpenFrameAEAD cr (Some f) (Some k) = Inr p \<longleftrightarrow> SealFrameAEAD cr (Some f) (Some k) p = Some w"
  proof (cases "length p = length (Data f)")
    case True
    then show ?thesis
      unfolding OpenFrameAEAD_Inr [OF assms f(3)] SealFrameAEAD_Some f(1) halves using f(2) tag(2) by auto
  next
    case False
    have "length (Data f @ tag) \<noteq> length p + 16" "length w \<noteq> 40 + (length p + 16)" using False tag by auto
    then have "Data f @ tag \<noteq> cr_seal cr k n p a" "w \<noteq> encodeHeaderInto f (length p) @ cr_seal cr k n p a" for n a
      using aead_length [OF assms, of k n p a] by (metis, force)
    then show ?thesis unfolding OpenFrameAEAD_Inr [OF assms f(3)] SealFrameAEAD_Some f(1) halves by blast
  qed
next
  assume g: "SealFrameAEAD cr (Some g) (Some k) p = Some w \<and> Version g = UDPC_VERSION \<and> validUDPCCommand (Cmd g)"
  then obtain ct tag where ct: "length tag = 16" "length ct = length p" "w = frame_wire (g\<lparr>Data := ct\<rparr>) tag"
    using sealed_wire [OF assms] by blast
  have w: "length p \<le> 1394" "w = encodeHeaderInto g (length p) @ cr_seal cr k (packetNonce (PacketNo g)) p (encodeHeaderInto g (length p))"
    using g by (simp_all add: SealFrameAEAD_Some)
  have "parseUDPCFrame w (Magic g) = Inr (g\<lparr>Data := ct, raw := w\<rparr>)"
    using parse_frame_wire [of tag "g\<lparr>Data := ct\<rparr>" "Magic g"] ct g w(1) by simp
  moreover have "56 \<le> length w" using w(2) aead_length [OF assms] by simp
  then have "OpenFrameAEAD cr (Some (g\<lparr>Data := ct, raw := w\<rparr>)) (Some k) = Inr p"
    using w(2) by (subst OpenFrameAEAD_Inr [OF assms]) simp_all
  ultimately show "\<exists>ct. parseUDPCFrame w (Magic g) = Inr (g\<lparr>Data := ct, raw := w\<rparr>)
      \<and> OpenFrameAEAD cr (Some (g\<lparr>Data := ct, raw := w\<rparr>)) (Some k) = Inr p" by blast
qed

theorem record_protection_exact_witness:
  "\<exists>w ct. SealFrameAEAD sample_crypto (Some sample_frame) (Some (replicate 32 5)) [1, 2, 3] = Some w
     \<and> OpenFrameAEAD sample_crypto (Some (sample_frame\<lparr>Data := ct, raw := w\<rparr>)) (Some (replicate 32 5)) = Inr [1, 2, 3]"
proof -
  obtain w where w: "SealFrameAEAD sample_crypto (Some sample_frame) (Some (replicate 32 5)) [1, 2, 3] = Some w"
    by (simp add: SealFrameAEAD_def size_defs)
  have "Version sample_frame = UDPC_VERSION" "validUDPCCommand (Cmd sample_frame)"
    by (simp_all add: sample_frame_def UDPC_VERSION_def validUDPCCommand_def cmd_defs)
  then show ?thesis
    using record_protection_exact [OF sample_crypto_ok(1), of w 0 sample_frame "replicate 32 5" "[1, 2, 3]" sample_frame] w by blast
qed

end
