(* ===== verification/ServerSession.thy ===== *)
theory ServerSession
  imports Paths Noise Replay AckCoalesce FecReceiver Mtu
begin

text \<open>
  An established session of the server (\<^verbatim>\<open>src/tunnel/server.go\<close>, \<open>ServerSession\<close>, and its transmitter
  in \<^verbatim>\<open>session_transport.go\<close> and \<^verbatim>\<open>transmit.go\<close>): the receive boundary every authenticated frame crosses,
  the control replies, path validation, record numbering, the sender and the retransmission turn.
  The components of the other theories are fields of one record and the handlers call their
  operations in the order of the code.

  A handler is one atomic step that reads the clock once.  Datagrams handed to a socket are
  appended to \<open>ses_out\<close>, payloads written to the target to \<open>ses_written\<close>, sealed records to
  \<open>ses_sealed\<close>; \<open>ses_drawn\<close> counts the packet numbers drawn.  These four, and \<open>ses_submitting\<close> (the
  record the single upstream reader is about to queue), are not fields of the Go struct.  The
  session is one that \<open>handleHandshake\<close> built, so its \<open>delivery\<close> is present.
\<close>

section \<open>Definitions\<close>

datatype outbound = Reply int AddrPort bytes

text \<open>What a session reads from its server: the libraries, the configuration and the bound of the
  reply socket pool.\<close>

record serverEnv =
  ev_crypto :: crypto
  ev_rs :: rs_codec
  ev_magic :: uint32
  ev_mtuProbe :: "bool option"
  ev_sockLimit :: nat
  ev_sendWindow :: int
  ev_adaptive :: bool
  ev_westwood :: bool
  ev_maxPkt :: int
  ev_maxRecvQueue :: int

record ServerSession =
  ses_sendPacketNo :: uint64
  ses_sessionID :: uint32
  ses_paths :: sessionPaths
  ses_replay :: ReplayFilter
  ses_frameKeys :: "FrameKeys option"
  ses_coalesce :: ackCoalescer
  ses_fecSend :: "fecSender option"
  ses_fecRecv :: "fecReceiver option"
  ses_mtu :: mtu_server
  ses_delivery :: orderedDelivery
  ses_retryWake :: "bool option"
  ses_tx :: "bytes list option"
  ses_send :: sendState
  ses_lastActive :: int
  ses_registered :: bool
  ses_closed :: bool
  ses_macFailures :: nat
  ses_replayDrops :: nat
  ses_queueFullDrops :: nat
  ses_drawn :: nat
  ses_sealed :: "bytes list"
  ses_out :: "outbound list"
  ses_written :: "bytes list"
  ses_submitting :: "(uint64 \<times> bytes \<times> bytes) option"

definition advertisedWindowFull :: uint16 where "advertisedWindowFull = 65535"
definition defaultSendWindow :: int where "defaultSendWindow = 256"
definition ackGapUrgent :: nat where "ackGapUrgent = 3"
definition transmitBurst :: nat where "transmitBurst = 64"

definition notifyRetry :: "bool option \<Rightarrow> bool option" where
  "notifyRetry ch = map_option (\<lambda>_. True) ch"

text \<open>The session \<open>handleHandshake\<close> builds, before it is registered.\<close>

definition newServerSession :: "serverEnv \<Rightarrow> uint32 \<Rightarrow> AddrPort \<Rightarrow> int \<Rightarrow> FrameKeys \<Rightarrow> int \<Rightarrow> ServerSession" where
  "newServerSession env sid remoteAddr origPort k now = \<lparr>
     ses_sendPacketNo = 0, ses_sessionID = sid, ses_paths = newPaths remoteAddr origPort,
     ses_replay = newReplayFilter, ses_frameKeys = Some k, ses_coalesce = newAckCoalescer,
     ses_fecSend = (if fk_fec k then Some (newFECSenderExt (fk_fecExt k)) else None),
     ses_fecRecv = (if fk_fec k then Some (newFECReceiverExt (fk_fecExt k)) else None),
     ses_mtu = \<lparr> sm_serverMax = ev_maxPkt env, sm_maxPkt = 0, sm_observed = 0, sm_gate = Some False, sm_fec = fk_fec k \<rparr>,
     ses_delivery = newOrderedDelivery (min (ev_maxRecvQueue env) (int (deliveryLimitFor (fk_wideWindow k)))),
     ses_retryWake = Some False, ses_tx = Some [],
     ses_send = \<lparr> ss_unacked = [], ss_lowest = 0, ss_sendSeq = 1, ss_rtt = newDefaultRTTEstimator,
       ss_flow = (if fk_recovery k then Some (newSendFlow (ev_sendWindow env) (ev_adaptive env) (ev_westwood env) (fk_wideWindow k)) else None) \<rparr>,
     ses_lastActive = now, ses_registered = False, ses_closed = False,
     ses_macFailures = 0, ses_replayDrops = 0, ses_queueFullDrops = 0,
     ses_drawn = 0, ses_sealed = [], ses_out = [], ses_written = [], ses_submitting = None \<rparr>"

subsection \<open>Records and replies\<close>

definition sess_Close :: "ServerSession \<Rightarrow> ServerSession" where
  "sess_Close s = (if ses_closed s then s
     else s\<lparr>ses_closed := True, ses_registered := False, ses_delivery := od_close (ses_delivery s),
            ses_fecSend := map_option fs_close (ses_fecSend s)\<rparr>)"

definition nextPacketNo :: "ServerSession \<Rightarrow> uint64 \<times> ServerSession" where
  "nextPacketNo s = (
     let no = ses_sendPacketNo s + 1;
         s1 = s\<lparr>ses_sendPacketNo := no, ses_drawn := ses_drawn s + 1\<rparr>
     in if no = 0 then (0, sess_Close s1) else (no, s1))"

definition applyFECFeedback :: "ServerSession \<Rightarrow> UDPCFrame \<Rightarrow> UDPCFrame" where
  "applyFECFeedback s f = (case ses_fecRecv s of
     None \<Rightarrow> f
   | Some r \<Rightarrow> f\<lparr>Flags := Flags f OR FLAG_FEC_FEEDBACK, WindowSize := feedbackBasisPoints r\<rparr>)"

definition encodeFrame :: "serverEnv \<Rightarrow> UDPCFrame \<Rightarrow> ServerSession \<Rightarrow> bytes option \<times> ServerSession" where
  "encodeFrame env f0 s = (
     let f = applyFECFeedback s f0
     in case nextPacketNo s of (no, s1) \<Rightarrow>
          if no = 0 then (None, s1)
          else (case ses_frameKeys s1 of
              None \<Rightarrow> (None, s1)
            | Some k \<Rightarrow>
                (case SealFrameAEAD (ev_crypto env) (Some (f\<lparr>PacketNo := no\<rparr>)) (Some (Send k)) (Data f) of
                   None \<Rightarrow> (None, s1)
                 | Some w \<Rightarrow> (Some w, s1\<lparr>ses_sealed := ses_sealed s1 @ [w]\<rparr>))))"

definition sendControl ::
  "serverEnv \<Rightarrow> UDPCFrame \<Rightarrow> (bytes \<Rightarrow> ServerSession \<Rightarrow> ServerSession) \<Rightarrow> ServerSession \<Rightarrow> ServerSession" where
  "sendControl env f0 send s = (
     let f = applyFECFeedback s f0
     in case nextPacketNo s of (no, s1) \<Rightarrow>
          if no = 0 then s1
          else (case ses_frameKeys s1 of
              None \<Rightarrow> s1
            | Some k \<Rightarrow>
                (let w = sealControlFrameAEAD (ev_crypto env) (f\<lparr>PacketNo := no\<rparr>) (Send k)
                 in if length w = 0 then s1
                    else (let s2 = send w (s1\<lparr>ses_sealed := ses_sealed s1 @ [w]\<rparr>)
                          in s2\<lparr>ses_coalesce := commitSent (ses_coalesce s2) (Ack f)\<rparr>))))"

text \<open>\<open>replyFromOrigPort\<close> writes through the pool's socket for the port, or through the main socket
  for port 0, for the listening port and when that write fails.\<close>

definition replyFromOrigPort :: "int \<Rightarrow> AddrPort \<Rightarrow> bytes \<Rightarrow> ServerSession \<Rightarrow> ServerSession" where
  "replyFromOrigPort origPort addr data s = s\<lparr>ses_out := ses_out s @ [Reply origPort addr data]\<rparr>"

definition sendToSession :: "bytes \<Rightarrow> ServerSession \<Rightarrow> ServerSession" where
  "sendToSession data s = (case sessionRoute (ses_paths s) of (route, p) \<Rightarrow>
     (let s1 = s\<lparr>ses_paths := p\<rparr>
      in case route of None \<Rightarrow> s1 | Some (port, addr) \<Rightarrow> replyFromOrigPort port addr data s1))"

definition bestEffort :: "bytes \<Rightarrow> bool \<Rightarrow> bytes list \<Rightarrow> bytes list" where
  "bestEffort w isDone q = (if isDone then q else if length q < transmitBurst then q @ [w] else q)"

definition dispatchWire :: "bytes \<Rightarrow> ServerSession \<Rightarrow> ServerSession" where
  "dispatchWire w s = (case ses_tx s of
     Some q \<Rightarrow> s\<lparr>ses_tx := Some (bestEffort w (ses_closed s) q)\<rparr>
   | None \<Rightarrow> sendToSession w s)"

definition currentAck :: "ServerSession \<Rightarrow> uint64" where
  "currentAck s = od_delivered (ses_delivery s)"

text \<open>A frame literal of the session with the given command, acknowledgement and payload.\<close>

definition sessionFrame :: "serverEnv \<Rightarrow> ServerSession \<Rightarrow> byte \<Rightarrow> uint64 \<Rightarrow> bytes \<Rightarrow> UDPCFrame" where
  "sessionFrame env s cmd ack data = \<lparr> Magic = ev_magic env, Version = UDPC_VERSION, Cmd = cmd, Flags = 0,
     SessionID = ses_sessionID s, PacketNo = 0, Seq = 0, Ack = ack, WindowSize = 0, Data = data, raw = [] \<rparr>"

subsection \<open>Acknowledgements\<close>

definition sackMaxWords :: "ServerSession \<Rightarrow> nat" where
  "sackMaxWords s = (case ses_frameKeys s of
     Some k \<Rightarrow> if fk_wideWindow k then sackWordsWide else sackWordsNarrow
   | None \<Rightarrow> sackWordsNarrow)"

definition feedbackFrame :: "serverEnv \<Rightarrow> ServerSession \<Rightarrow> uint64 \<Rightarrow> UDPCFrame" where
  "feedbackFrame env s ackSeq = (
     if ss_flow (ses_send s) \<noteq> None
     then (case snapshot (ses_delivery s) of (ack, bitmap, credit) \<Rightarrow>
            sessionFrame env s CMD_SACK ack (encodeSACKWords credit bitmap (sackMaxWords s)))
     else (sessionFrame env s CMD_ACK ackSeq [])\<lparr>WindowSize := advertisedWindowFull\<rparr>)"

definition emitFeedback :: "serverEnv \<Rightarrow> uint64 \<Rightarrow> ServerSession \<Rightarrow> ServerSession" where
  "emitFeedback env ackSeq s = sendControl env (feedbackFrame env s ackSeq) sendToSession s"

definition sendCumulativeACK :: "serverEnv \<Rightarrow> int \<Rightarrow> uint64 \<Rightarrow> ServerSession \<Rightarrow> ServerSession" where
  "sendCumulativeACK env now ackSeq s = (
     if ses_closed s then s
     else
       (let iv = ackCoalesceInterval (SRTT (ss_rtt (ses_send s)));
            (ack, urgent0) = (if ss_flow (ses_send s) \<noteq> None
                then (case snapshot (ses_delivery s) of (ack, bitmap, _) \<Rightarrow> (ack, sackGaps bitmap \<ge> ackGapUrgent))
                else (ackSeq, False));
            urgent = (urgent0 \<or> ses_retryWake s = None)
        in case claim (ses_coalesce s) ack iv urgent now of (ok, c) \<Rightarrow>
             (let s1 = s\<lparr>ses_coalesce := c\<rparr>
              in if \<not> ok then s1\<lparr>ses_retryWake := notifyRetry (ses_retryWake s1)\<rparr> else emitFeedback env ack s1)))"

definition flushACK :: "serverEnv \<Rightarrow> int \<Rightarrow> ServerSession \<Rightarrow> duration \<times> ServerSession" where
  "flushACK env now s = (
     if ses_closed s then (0, s)
     else (case flushDue (ses_coalesce s) (ackCoalesceInterval (SRTT (ss_rtt (ses_send s)))) now of (ack, wait, c) \<Rightarrow>
       (let s1 = s\<lparr>ses_coalesce := c\<rparr> in (wait, if ack \<noteq> 0 then emitFeedback env ack s1 else s1))))"

definition reackDuplicateData :: "serverEnv \<Rightarrow> int \<Rightarrow> ServerSession \<Rightarrow> ServerSession" where
  "reackDuplicateData env now s = (
     let ack = currentAck s in if ack > 0 then sendCumulativeACK env now ack s else s)"

definition handleAck :: "int \<Rightarrow> uint64 \<Rightarrow> ServerSession \<Rightarrow> ServerSession" where
  "handleAck now ackSeq s = (case serverHandleAck (ses_fecSend s \<noteq> None) (ses_send s) ackSeq now of (st, observed) \<Rightarrow>
     s\<lparr>ses_send := st, ses_fecSend := map_option (fold (\<lambda>r fs. fs_observeAck fs r) observed) (ses_fecSend s)\<rparr>)"

definition handleSACK :: "int \<Rightarrow> UDPCFrame \<Rightarrow> ServerSession \<Rightarrow> ServerSession" where
  "handleSACK now f s = (case ss_flow (ses_send s) of
     None \<Rightarrow> s
   | Some _ \<Rightarrow>
       (case updateSACK (ss_flow (ses_send s)) (ss_unacked (ses_send s)) f (ss_sendSeq (ses_send s) - 1)
               (SRTT (ss_rtt (ses_send s))) now of
          ((wires, valid), flow', out') \<Rightarrow>
            (let s1 = s\<lparr>ses_send := (ses_send s)\<lparr>ss_flow := flow', ss_unacked := out'\<rparr>,
                        ses_retryWake := notifyRetry (ses_retryWake s)\<rparr>;
                 s2 = (if valid \<and> Ack f > 0 then handleAck now (Ack f) s1 else s1)
             in fold dispatchWire wires s2)))"

subsection \<open>The receive boundary\<close>

definition sess_setPath :: "serverEnv \<Rightarrow> int \<Rightarrow> AddrPort \<Rightarrow> int \<Rightarrow> ServerSession \<Rightarrow> ServerSession" where
  "sess_setPath env origPort addr now s = s\<lparr>ses_paths := setPath (ev_sockLimit env) origPort (Some addr) now (ses_paths s)\<rparr>"

definition sess_updateRemoteAddr :: "AddrPort \<Rightarrow> bool \<Rightarrow> ServerSession \<Rightarrow> ServerSession" where
  "sess_updateRemoteAddr addr allowIPChange s =
     s\<lparr>ses_paths := updateRemoteAddr (Some addr) allowIPChange (ses_paths s)\<rparr>"

definition touch :: "int \<Rightarrow> ServerSession \<Rightarrow> ServerSession" where
  "touch now s = s\<lparr>ses_lastActive := now\<rparr>"

definition sendPathChallenge ::
  "serverEnv \<Rightarrow> AddrPort \<Rightarrow> int \<Rightarrow> int \<Rightarrow> bytes option \<Rightarrow> ServerSession \<Rightarrow> ServerSession" where
  "sendPathChallenge env remoteAddr origPort now rnd s =
     (case challengeFor (ap_addr remoteAddr) now rnd (ses_paths s) of (token, p) \<Rightarrow>
       (let s1 = s\<lparr>ses_paths := p\<rparr>
        in case token of
             None \<Rightarrow> s1
           | Some t \<Rightarrow> sendControl env (sessionFrame env s1 CMD_PATH_CHALLENGE 0 t)
               (replyFromOrigPort origPort remoteAddr) s1))"

text \<open>\<open>handleDataFromPath\<close> with an ordered delivery.  \<open>offer\<close> calls \<open>sendCumulativeACK\<close> for the
  acknowledgements it emits.\<close>

definition handleDataFromPath ::
  "serverEnv \<Rightarrow> UDPCFrame \<Rightarrow> AddrPort \<Rightarrow> int \<Rightarrow> int \<Rightarrow> ServerSession \<Rightarrow> bool \<times> ServerSession" where
  "handleDataFromPath env f remoteAddr origPort now s0 = (
     let s1 = s0\<lparr>ses_mtu := noteObservedPayload (ses_mtu s0) (int (length (Data f)))\<rparr>;
         s2 = (if Ack f > 0 then handleAck now (Ack f) s1 else s1)
     in case offer now (ses_delivery s2) (Seq f) (Data f) of (ok, d, acks) \<Rightarrow>
          (let s3 = fold (sendCumulativeACK env now) acks (s2\<lparr>ses_delivery := d\<rparr>)
           in if \<not> ok then (False, s3\<lparr>ses_queueFullDrops := ses_queueFullDrops s3 + 1\<rparr>)
              else (True, touch now (sess_setPath env origPort remoteAddr now (sess_updateRemoteAddr remoteAddr True s3)))))"

definition deliverRecoveredFEC ::
  "serverEnv \<Rightarrow> fecRecovered list \<Rightarrow> AddrPort \<Rightarrow> int \<Rightarrow> int \<Rightarrow> ServerSession \<Rightarrow> ServerSession" where
  "deliverRecoveredFEC env recovered remoteAddr origPort now =
     fold (\<lambda>(seq, payload) s. if seq = 0 then s
       else snd (handleDataFromPath env ((sessionFrame env s CMD_DATA 0 payload)\<lparr>Seq := seq\<rparr>) remoteAddr origPort now s))
     recovered"

definition sess_onData :: "serverEnv \<Rightarrow> UDPCFrame \<Rightarrow> AddrPort \<Rightarrow> int \<Rightarrow> int \<Rightarrow> ServerSession \<Rightarrow> ServerSession" where
  "sess_onData env f remoteAddr origPort now s = (case ses_fecRecv s of
     None \<Rightarrow> s
   | Some r \<Rightarrow> (case onData (ev_rs env) r (Seq f) (Data f) now of (r', recovered) \<Rightarrow>
       deliverRecoveredFEC env recovered remoteAddr origPort now (s\<lparr>ses_fecRecv := Some r'\<rparr>)))"

definition sess_onParity :: "serverEnv \<Rightarrow> UDPCFrame \<Rightarrow> AddrPort \<Rightarrow> int \<Rightarrow> int \<Rightarrow> ServerSession \<Rightarrow> ServerSession" where
  "sess_onParity env f remoteAddr origPort now s = (case ses_fecRecv s of
     None \<Rightarrow> s
   | Some r \<Rightarrow> (case onParityFrame (ev_rs env) r f now of (r', recovered) \<Rightarrow>
       deliverRecoveredFEC env recovered remoteAddr origPort now (s\<lparr>ses_fecRecv := Some r'\<rparr>)))"

definition handleControl ::
  "serverEnv \<Rightarrow> UDPCFrame \<Rightarrow> AddrPort \<Rightarrow> int \<Rightarrow> int \<Rightarrow> ServerSession \<Rightarrow> ServerSession" where
  "handleControl env f remoteAddr origPort now s = (
     if Cmd f = CMD_SACK then handleSACK now f s
     else if Cmd f = CMD_PING then sendControl env (sessionFrame env s CMD_PONG (currentAck s) []) sendToSession s
     else if Cmd f = CMD_FEC then sess_onParity env f remoteAddr origPort now s
     else if Cmd f = CMD_FIN then sess_Close s
     else if Cmd f = CMD_MTU_PROBE then
       (if \<not> mtuProbeEnabled (ev_mtuProbe env) then s
        else sendControl env (sessionFrame env s CMD_MTU_PROBE_REPLY (currentAck s) (Data f)) sendToSession s)
     else if Cmd f = CMD_MTU_COMMIT then
       s\<lparr>ses_mtu := applyMtuCommit (ses_mtu s) (uint (get_be (Data f) :: uint16))\<rparr>
     else s)"

definition handleIncomingFrame ::
  "serverEnv \<Rightarrow> UDPCFrame \<Rightarrow> AddrPort \<Rightarrow> int \<Rightarrow> int \<Rightarrow> bytes option \<Rightarrow> ServerSession \<Rightarrow> bool \<times> ServerSession" where
  "handleIncomingFrame env f remoteAddr origPort now rnd s = (
     if \<not> sameRemoteIP (ses_paths s) (Some remoteAddr) then
       (case (if Cmd f = CMD_PATH_RESPONSE then acceptPathResponse (ap_addr remoteAddr) (Data f) now (ses_paths s)
              else (False, ses_paths s)) of (ok, p) \<Rightarrow>
          if ok then (True, touch now (sess_setPath env origPort remoteAddr now
                              (sess_updateRemoteAddr remoteAddr True (s\<lparr>ses_paths := p\<rparr>))))
          else (False, sendPathChallenge env remoteAddr origPort now rnd s))
     else if Cmd f = CMD_DATA then
       (let s1 = s\<lparr>ses_mtu := openMtuGate (ses_mtu s)\<rparr>
        in handleDataFromPath env f remoteAddr origPort now (sess_onData env f remoteAddr origPort now s1))
     else
       (let s1 = touch now (sess_setPath env origPort remoteAddr now (sess_updateRemoteAddr remoteAddr False s));
            s2 = (if Ack f > 0 \<and> Cmd f \<noteq> CMD_SACK then handleAck now (Ack f) s1 else s1)
        in (True, handleControl env f remoteAddr origPort now s2)))"

definition verifyInboundFrame :: "serverEnv \<Rightarrow> UDPCFrame \<Rightarrow> ServerSession \<Rightarrow> UDPCFrame option \<times> ServerSession" where
  "verifyInboundFrame env f s = (
     let failed = (None, s\<lparr>ses_macFailures := ses_macFailures s + 1\<rparr>)
     in case ses_frameKeys s of
          None \<Rightarrow> failed
        | Some k \<Rightarrow> (case OpenFrameAEAD (ev_crypto env) (Some f) (Some (Recv k)) of
            Inl _ \<Rightarrow> failed
          | Inr plain \<Rightarrow> (Some (f\<lparr>Data := plain\<rparr>), s)))"

definition processIncomingFrame ::
  "serverEnv \<Rightarrow> UDPCFrame option \<Rightarrow> AddrPort \<Rightarrow> int \<Rightarrow> int \<Rightarrow> bytes option \<Rightarrow> ServerSession \<Rightarrow> bool \<times> ServerSession" where
  "processIncomingFrame env fp remoteAddr origPort now rnd s = (case fp of
     None \<Rightarrow> (False, s)
   | Some f0 \<Rightarrow>
       if Cmd f0 = CMD_SACK \<and> ss_flow (ses_send s) = None then (False, s)
       else if \<not> validSessionFrameShape (Some f0) then (False, s)
       else (case verifyInboundFrame env f0 s of
           (None, s1) \<Rightarrow> (False, s1)
         | (Some f, s1) \<Rightarrow>
             (case Accept (ses_replay s1) (PacketNo f) of
                (False, rf) \<Rightarrow>
                  (let s2 = s1\<lparr>ses_replay := rf, ses_replayDrops := ses_replayDrops s1 + 1\<rparr>
                   in (False, if Cmd f = CMD_DATA then reackDuplicateData env now s2 else s2))
              | (True, rf) \<Rightarrow>
                  (let s2 = s1\<lparr>ses_replay := rf\<rparr>;
                       s3 = (if Flags f AND FLAG_FEC_FEEDBACK \<noteq> 0
                             then s2\<lparr>ses_fecSend := map_option (\<lambda>fs. fs_observeRemoteBasisPoints fs (WindowSize f)) (ses_fecSend s2)\<rparr>
                             else s2)
                   in case handleIncomingFrame env f remoteAddr origPort now rnd s3 of
                        (True, s4) \<Rightarrow> (True, s4)
                      | (False, s4) \<Rightarrow> (False, if Cmd f = CMD_DATA then s4\<lparr>ses_replay := Remove (ses_replay s4) (PacketNo f)\<rparr>
                                              else s4)))))"

subsection \<open>The sender\<close>

definition sendFECParity :: "serverEnv \<Rightarrow> fecParityShard \<Rightarrow> ServerSession \<Rightarrow> ServerSession" where
  "sendFECParity env p s = (
     if ses_closed s \<or> ses_fecSend s = None then s
     else (case applyToFrame p (sessionFrame env s CMD_FEC (currentAck s) []) of
         None \<Rightarrow> s
       | Some f \<Rightarrow> (case encodeFrame env f s of
             (None, s1) \<Rightarrow> s1
           | (Some w, s1) \<Rightarrow> dispatchWire w s1)))"

definition sendWindow :: "serverEnv \<Rightarrow> ServerSession \<Rightarrow> int" where
  "sendWindow env s = (case ss_flow (ses_send s) of
     Some f \<Rightarrow> fl_window f
   | None \<Rightarrow> if ev_sendWindow env > 0 then ev_sendWindow env else defaultSendWindow)"

definition sendBlocked :: "serverEnv \<Rightarrow> ServerSession \<Rightarrow> bool" where
  "sendBlocked env s \<longleftrightarrow> int (length (ss_unacked (ses_send s))) \<ge> sendWindow env s \<and> \<not> ses_closed s"

text \<open>\<open>sendRecord\<close> up to its call of \<open>submit\<close>: \<open>None\<close> when it returns an error.\<close>

definition sealRecord :: "serverEnv \<Rightarrow> bytes \<Rightarrow> int \<Rightarrow> ServerSession \<Rightarrow> (uint64 \<times> bytes) option \<times> ServerSession" where
  "sealRecord env payload now s = (
     if ses_closed s then (None, s)
     else
       (let seq = ss_sendSeq (ses_send s);
            s1 = s\<lparr>ses_send := (ses_send s)\<lparr>ss_sendSeq := seq + 1\<rparr>\<rparr>;
            f = (sessionFrame env s1 CMD_DATA (currentAck s1) payload)\<lparr>Seq := seq, WindowSize := advertisedWindowFull\<rparr>
        in case encodeFrame env f s1 of
             (None, s2) \<Rightarrow> (None, s2)
           | (Some encoded, s2) \<Rightarrow>
               (Some (seq, encoded), s2\<lparr>ses_send := fileRecord (ses_send s2) seq encoded (ses_tx s2 \<noteq> None) now,
                                       ses_retryWake := notifyRetry (ses_retryWake s2)\<rparr>)))"

text \<open>The rest of \<open>sendRecord\<close>, once the queue has room or the session has closed.\<close>

definition submitRecord :: "serverEnv \<Rightarrow> uint64 \<Rightarrow> bytes \<Rightarrow> bytes \<Rightarrow> ServerSession \<Rightarrow> ServerSession" where
  "submitRecord env seq payload encoded s = (
     let (ok, s1) = (case ses_tx s of
            Some q \<Rightarrow> if ses_closed s then (False, s) else (True, s\<lparr>ses_tx := Some (q @ [encoded])\<rparr>)
          | None \<Rightarrow> (True, sendToSession encoded s))
     in if \<not> ok then s1
        else (case ses_fecSend s1 of
            None \<Rightarrow> s1
          | Some fs \<Rightarrow> (case fs_add (ev_rs env) fs seq payload of (fs', shards) \<Rightarrow>
              fold (sendFECParity env) shards (s1\<lparr>ses_fecSend := Some fs'\<rparr>))))"

definition submitReady :: "ServerSession \<Rightarrow> bool" where
  "submitReady s \<longleftrightarrow> (case ses_tx s of None \<Rightarrow> True | Some q \<Rightarrow> ses_closed s \<or> length q < transmitBurst)"

text \<open>The split of \<open>sendData\<close>: the \<open>i\<close>-th record is sized by the budget \<open>cap i\<close> read at that moment.\<close>

partial_function (option) sendDataSplit :: "(nat \<Rightarrow> nat) \<Rightarrow> nat \<Rightarrow> bytes \<Rightarrow> bytes list option" where
  "sendDataSplit cap i payload = (
     if payload = [] then Some []
     else Option.bind (sendDataSplit cap (Suc i) (drop (cap i) payload)) (\<lambda>rest. Some (take (cap i) payload # rest)))"

subsection \<open>The transmitter and the retransmission loop\<close>

definition burstWindow :: "ServerSession \<Rightarrow> int" where
  "burstWindow s = (case ss_flow (ses_send s) of Some f \<Rightarrow> fl_window f | None \<Rightarrow> 16)"

definition paceBurst :: "nat \<Rightarrow> int \<Rightarrow> ServerSession \<Rightarrow> ServerSession" where
  "paceBurst n now s = (case ss_flow (ses_send s) of
     None \<Rightarrow> s
   | Some f \<Rightarrow> s\<lparr>ses_send := (ses_send s)\<lparr>ss_flow := Some (snd (waitBurst f (int n) (fl_window f) (SRTT (ss_rtt (ses_send s))) now))\<rparr>\<rparr>)"

definition sendToSessionBatch :: "bytes list \<Rightarrow> ServerSession \<Rightarrow> ServerSession" where
  "sendToSessionBatch wires s = (
     let port = sp_lastOrigPort (ses_paths s)
     in case map_of (sp_pathAddrs (ses_paths s)) port of
          None \<Rightarrow> fold sendToSession wires s
        | Some pe \<Rightarrow> s\<lparr>ses_out := ses_out s @ map (Reply port (pe_addr pe)) wires\<rparr>)"

definition markBatchTransmitted :: "bytes list \<Rightarrow> int \<Rightarrow> ServerSession \<Rightarrow> ServerSession" where
  "markBatchTransmitted wires now s = s\<lparr>
     ses_send := (ses_send s)\<lparr>ss_unacked := markTransmitted (ss_unacked (ses_send s)) wires now\<rparr>,
     ses_coalesce := commitSentBatch (ses_coalesce s) wires,
     ses_retryWake := notifyRetry (ses_retryWake s)\<rparr>"

text \<open>One turn of \<open>transmitQueue.run\<close>: the pacer is entered at \<open>now\<close>, the batch marked at \<open>sent\<close>.\<close>

definition transmitTurn :: "int \<Rightarrow> int \<Rightarrow> ServerSession \<Rightarrow> ServerSession" where
  "transmitTurn now sent s = (case ses_tx s of
     None \<Rightarrow> s
   | Some q \<Rightarrow>
       if ses_closed s \<or> q = [] then s
       else (let limit = min transmitBurst (nat (max 1 (burstWindow s)));
                 batch = take limit q;
                 s1 = paceBurst (length batch) now (s\<lparr>ses_tx := Some (drop limit q)\<rparr>)
             in markBatchTransmitted batch sent (sendToSessionBatch batch s1)))"

text \<open>One turn of \<open>retransmitLoop\<close>: \<open>None\<close> when the loop ends, otherwise the timer's next delay.\<close>

definition retransmitTurn :: "serverEnv \<Rightarrow> int \<Rightarrow> ServerSession \<Rightarrow> duration option \<times> ServerSession" where
  "retransmitTurn env now s = (
     if ses_closed s then (None, s)
     else (case retryDue (ss_unacked (ses_send s)) now rttMaxRTO (ss_flow (ses_send s)) (SRTT (ss_rtt (ses_send s))) of
       ((due, abandoned, delay, probe), flow', out') \<Rightarrow>
         (let s1 = s\<lparr>ses_send := (ses_send s)\<lparr>ss_flow := flow', ss_unacked := out'\<rparr>,
                     ses_retryWake := map_option (\<lambda>_. False) (ses_retryWake s)\<rparr>
          in if abandoned then (None, sess_Close s1)
             else (let s2 = fold dispatchWire due s1;
                       s3 = (if probe then sendControl env (sessionFrame env s2 CMD_PING (currentAck s2) []) sendToSession s2 else s2);
                       (w, s4) = flushACK env now s3;
                       delay1 = (if 0 < w \<and> w < delay then w else delay)
                   in (Some (max millisecond delay1), s4)))))"

text \<open>A write of the delivery's writer that succeeded, the delayed acknowledgement's timer, and the
  flush timer of the FEC sender.\<close>

definition writerTurn :: "serverEnv \<Rightarrow> int \<Rightarrow> ServerSession \<Rightarrow> ServerSession" where
  "writerTurn env now s = (case runNext (ses_delivery s) of
     None \<Rightarrow> s
   | Some (seq, payload) \<Rightarrow> (case runCommit (ses_delivery s) seq of (d, acks) \<Rightarrow>
       fold (sendCumulativeACK env now) acks (s\<lparr>ses_delivery := d, ses_written := ses_written s @ [payload]\<rparr>)))"

definition ackTimer :: "serverEnv \<Rightarrow> int \<Rightarrow> ServerSession \<Rightarrow> ServerSession" where
  "ackTimer env now s = (case da_fire (od_delayed (ses_delivery s)) of (dl, acks) \<Rightarrow>
     fold (sendCumulativeACK env now) acks (s\<lparr>ses_delivery := (ses_delivery s)\<lparr>od_delayed := dl\<rparr>\<rparr>))"

definition fecTimer :: "serverEnv \<Rightarrow> nat \<Rightarrow> ServerSession \<Rightarrow> ServerSession" where
  "fecTimer env gen s = (case ses_fecSend s of
     None \<Rightarrow> s
   | Some fs \<Rightarrow> (case flushTimer (ev_rs env) fs gen of (fs', shards) \<Rightarrow>
       fold (sendFECParity env) shards (s\<lparr>ses_fecSend := Some fs'\<rparr>)))"

subsection \<open>Runs\<close>

datatype sess_event =
    Inbound "UDPCFrame option" AddrPort int int "bytes option"
  | Outgoing bytes int
  | Submit
  | TransmitTurn int int
  | RetransmitTurn int
  | WriterTurn int
  | AckTimer int
  | FecTimer nat
  | CloseSession

fun sess_step :: "serverEnv \<Rightarrow> sess_event \<Rightarrow> ServerSession \<Rightarrow> ServerSession" where
  "sess_step env (Inbound fp remoteAddr origPort now rnd) s = snd (processIncomingFrame env fp remoteAddr origPort now rnd s)"
| "sess_step env (Outgoing payload now) s = (
     if ses_submitting s \<noteq> None \<or> sendBlocked env s then s
     else (case sealRecord env payload now s of
         (None, s1) \<Rightarrow> s1
       | (Some (seq, encoded), s1) \<Rightarrow> s1\<lparr>ses_submitting := Some (seq, payload, encoded)\<rparr>))"
| "sess_step env Submit s = (case ses_submitting s of
     None \<Rightarrow> s
   | Some (seq, payload, encoded) \<Rightarrow>
       if submitReady s then submitRecord env seq payload encoded (s\<lparr>ses_submitting := None\<rparr>) else s)"
| "sess_step env (TransmitTurn now sent) s = transmitTurn now sent s"
| "sess_step env (RetransmitTurn now) s = snd (retransmitTurn env now s)"
| "sess_step env (WriterTurn now) s = writerTurn env now s"
| "sess_step env (AckTimer now) s = ackTimer env now s"
| "sess_step env (FecTimer gen) s = fecTimer env gen s"
| "sess_step env CloseSession s = sess_Close s"

subsection \<open>Vocabulary of the properties\<close>

definition wirePacketNo :: "bytes \<Rightarrow> uint64" where
  "wirePacketNo w = get_be (bslice 12 20 w)"

definition pkt_wires :: "outstanding \<Rightarrow> bytes set" where
  "pkt_wires out = wire ` snd ` set out"

definition outbound_wire :: "outbound \<Rightarrow> bytes" where
  "outbound_wire r = (case r of Reply _ _ w \<Rightarrow> w)"

text \<open>Every datagram sent, queued or kept for retransmission.\<close>

definition live_wires :: "ServerSession \<Rightarrow> bytes set" where
  "live_wires s = outbound_wire ` set (ses_out s) \<union> pkt_wires (ss_unacked (ses_send s))
     \<union> (case ses_tx s of None \<Rightarrow> {} | Some q \<Rightarrow> set q)
     \<union> (case ses_submitting s of None \<Rightarrow> {} | Some (_, _, w) \<Rightarrow> {w})"

text \<open>Until the packet numbers are exhausted: the counter is the number of draws, the sealed
  records carry increasing numbers, and every live datagram is one of them.\<close>

definition rec_inv :: "ServerSession \<Rightarrow> bool" where
  "rec_inv s \<longleftrightarrow> (ses_drawn s < 2 ^ 64 \<longrightarrow>
     ses_sendPacketNo s = of_nat (ses_drawn s)
     \<and> sorted_wrt (<) (map (unat \<circ> wirePacketNo) (ses_sealed s))
     \<and> list_all (\<lambda>w. 0 < unat (wirePacketNo w) \<and> unat (wirePacketNo w) \<le> ses_drawn s) (ses_sealed s)
     \<and> live_wires s \<subseteq> set (ses_sealed s))"

text \<open>A datagram that may be sent: one of the sealed records.\<close>

definition is_sealed :: "bytes \<Rightarrow> ServerSession \<Rightarrow> bool" where
  "is_sealed w s \<longleftrightarrow> (ses_drawn s < 2 ^ 64 \<longrightarrow> w \<in> set (ses_sealed s))"

text \<open>What a frame may not touch before it has been authenticated on a validated path: the stream in
  both directions, the frame budget, the stored route, the activity clock and the life of the
  session.\<close>

definition protected_state where
  "protected_state s = (ses_delivery s, ses_written s, ses_send s, ses_mtu s, ses_fecRecv s, ses_closed s, ses_lastActive s,
     sp_raddr (ses_paths s), sp_pathAddrs (ses_paths s), ses_frameKeys s)"

definition remote_ip :: "ServerSession \<Rightarrow> ip option" where
  "remote_ip s = map_option ap_addr (sp_raddr (ses_paths s))"

text \<open>The frame is authentic and answers the challenge sent to its source address.\<close>

definition answers_challenge :: "serverEnv \<Rightarrow> UDPCFrame \<Rightarrow> AddrPort \<Rightarrow> int \<Rightarrow> ServerSession \<Rightarrow> bool" where
  "answers_challenge env f remoteAddr now s = (case ses_frameKeys s of
     None \<Rightarrow> False
   | Some k \<Rightarrow> (case OpenFrameAEAD (ev_crypto env) (Some f) (Some (Recv k)) of
       Inl _ \<Rightarrow> False
     | Inr plain \<Rightarrow> Cmd f = CMD_PATH_RESPONSE \<and> length plain = pathChallengeSize
         \<and> (case map_of (sp_challenges (ses_paths s)) (ap_addr remoteAddr) of
              None \<Rightarrow> False | Some c \<Rightarrow> now \<le> pch_expires c \<and> plain = pch_token c)))"

definition authentic :: "serverEnv \<Rightarrow> UDPCFrame \<Rightarrow> ServerSession \<Rightarrow> bool" where
  "authentic env f s = (case ses_frameKeys s of
     None \<Rightarrow> False
   | Some k \<Rightarrow> (case OpenFrameAEAD (ev_crypto env) (Some f) (Some (Recv k)) of Inl _ \<Rightarrow> False | Inr _ \<Rightarrow> True))"

text \<open>The frame a receiver parses from what sealing \<open>p\<close> with the header of \<open>g\<close> puts on the wire.\<close>

definition sealed_frame :: "crypto \<Rightarrow> AEADCipherState \<Rightarrow> UDPCFrame \<Rightarrow> bytes \<Rightarrow> UDPCFrame" where
  "sealed_frame cr k g p = (let w = sealFrameAEADInto cr g k p
     in g\<lparr>Data := bslice UDPC_HDR_SIZE (UDPC_HDR_SIZE + length p) w, raw := w\<rparr>)"

text \<open>A concrete server and session for the witnesses.\<close>

definition sample_env :: serverEnv where
  "sample_env = \<lparr> ev_crypto = sample_crypto, ev_rs = xor_codec, ev_magic = 7, ev_mtuProbe = None, ev_sockLimit = 4,
     ev_sendWindow = 256, ev_adaptive = True, ev_westwood = True, ev_maxPkt = 1400, ev_maxRecvQueue = 512 \<rparr>"

definition sample_keys :: FrameKeys where
  "sample_keys = \<lparr> Send = replicate 32 1, Recv = replicate 32 2, fk_fec = False, fk_fecExt = False,
     fk_wideWindow = False, fk_recovery = False \<rparr>"

definition sample_addr :: AddrPort where
  "sample_addr = \<lparr> ap_addr = [10, 0, 0, 1], ap_port = 5000 \<rparr>"

definition sample_session :: ServerSession where
  "sample_session = newServerSession sample_env 9 sample_addr 9000 sample_keys 0"

section \<open>Lemmas\<close>

subsection \<open>Sealed records\<close>

lemma rec_inv_neutral [simp]:
  "rec_inv (s\<lparr>ses_paths := p\<rparr>) = rec_inv s" "rec_inv (s\<lparr>ses_replay := rf\<rparr>) = rec_inv s"
  "rec_inv (s\<lparr>ses_coalesce := c\<rparr>) = rec_inv s" "rec_inv (s\<lparr>ses_fecSend := fs\<rparr>) = rec_inv s"
  "rec_inv (s\<lparr>ses_fecRecv := fr\<rparr>) = rec_inv s" "rec_inv (s\<lparr>ses_mtu := m\<rparr>) = rec_inv s"
  "rec_inv (s\<lparr>ses_delivery := d\<rparr>) = rec_inv s" "rec_inv (s\<lparr>ses_retryWake := r\<rparr>) = rec_inv s"
  "rec_inv (s\<lparr>ses_lastActive := t\<rparr>) = rec_inv s" "rec_inv (s\<lparr>ses_registered := b\<rparr>) = rec_inv s"
  "rec_inv (s\<lparr>ses_closed := b\<rparr>) = rec_inv s" "rec_inv (s\<lparr>ses_macFailures := n\<rparr>) = rec_inv s"
  "rec_inv (s\<lparr>ses_replayDrops := n\<rparr>) = rec_inv s" "rec_inv (s\<lparr>ses_queueFullDrops := n\<rparr>) = rec_inv s"
  "rec_inv (s\<lparr>ses_written := xs\<rparr>) = rec_inv s"
  by (simp_all add: rec_inv_def live_wires_def)

lemma rec_inv_Close [simp]: "rec_inv (sess_Close s) = rec_inv s"
  by (simp add: sess_Close_def)

lemma pkt_wires_simps [simp]:
  "pkt_wires [] = {}" "pkt_wires ((k, p) # out) = insert (wire p) (pkt_wires out)"
  by (simp_all add: pkt_wires_def)

lemma pkt_wires_upd: "(\<And>p. wire (g p) = wire p) \<Longrightarrow> pkt_wires (upd_pkt seq g out) = pkt_wires out"
  by (induction out) (auto simp: upd_pkt_def)

lemma pkt_wires_delete: "pkt_wires (AList.delete k out) \<subseteq> pkt_wires out"
  by (auto simp: pkt_wires_def AList.delete_eq)

lemma pkt_wires_fold:
  "(\<And>x ps. pkt_wires (h x ps) = pkt_wires ps) \<Longrightarrow> pkt_wires (fold h xs out) = pkt_wires out"
  by (induction xs arbitrary: out) auto

lemma pkt_wires_backoff: "pkt_wires (upd_pkt seq (backoff now m) out) = pkt_wires out"
  by (rule pkt_wires_upd) (simp add: backoff_def)

lemma pkt_wires_markSacked: "pkt_wires (markSacked ack ws out) = pkt_wires out"
  unfolding markSacked_def by (rule pkt_wires_fold, rule pkt_wires_upd) simp

lemma pkt_wires_markTransmitted: "pkt_wires (markTransmitted out wires now) = pkt_wires out"
  unfolding markTransmitted_def markOne_def by (rule pkt_wires_fold) (auto intro!: pkt_wires_upd)

lemma pkt_wires_mem: "(k, p) \<in> set out \<Longrightarrow> wire p \<in> pkt_wires out"
  unfolding pkt_wires_def by force

lemma map_of_wires: "map_of out k = Some p \<Longrightarrow> wire p \<in> pkt_wires out"
  by (auto dest: map_of_SomeD intro: pkt_wires_mem)

lemma updateSACK_wires:
  assumes "updateSACK flow out f highest rtt now = ((wires, valid), flow', out')"
  shows "pkt_wires out' = pkt_wires out" "set wires \<subseteq> pkt_wires out"
proof -
  have due: "wire (the (map_of out1 seq)) \<in> pkt_wires out1" if "seq \<in> set (sackDue out1 f highest g now)" for seq g out1
    using that by (auto simp: sackDue_def Let_def map_of_wires dest!: in_set_takeD split: option.splits)
  show "pkt_wires out' = pkt_wires out"
    using assms by (auto simp: updateSACK_def sackRepair_def Let_def pkt_wires_markSacked pkt_wires_fold pkt_wires_backoff
        split: option.splits if_splits)
  show "set wires \<subseteq> pkt_wires out"
    using assms due [of _ "markSacked (Ack f) (sackDecode (Data f)) out"]
    by (auto simp: updateSACK_def sackRepair_def Let_def pkt_wires_markSacked split: option.splits if_splits)
qed

lemma retryDue_wires:
  assumes "retryDue out now m flow rtt = ((wires, abandoned, delay, probe), flow', out')"
  shows "pkt_wires out' = pkt_wires out" "set wires \<subseteq> pkt_wires out"
proof -
  note shape = retryDue_shape [OF assms]
  show "pkt_wires out' = pkt_wires out"
    using shape(2,5) by (cases abandoned) (simp_all add: pkt_wires_fold pkt_wires_backoff)
  show "set wires \<subseteq> pkt_wires out"
    using shape(2,4) by (cases abandoned) (auto simp: pkt_wires_mem dest!: in_set_takeD)
qed

lemma serverHandleAck_wires: "pkt_wires (ss_unacked (fst (serverHandleAck fec st ackSeq now))) \<subseteq> pkt_wires (ss_unacked st)"
  by (auto simp: serverHandleAck_def handleAckWith_def Let_def fold_ack_unacked pkt_wires_def split: option.splits)

lemma rec_inv_send:
  "rec_inv s \<Longrightarrow> pkt_wires (ss_unacked st) \<subseteq> pkt_wires (ss_unacked (ses_send s)) \<Longrightarrow> rec_inv (s\<lparr>ses_send := st\<rparr>)"
  by (auto simp: rec_inv_def live_wires_def)

lemma live_is_sealed: "rec_inv s \<Longrightarrow> w \<in> live_wires s \<Longrightarrow> is_sealed w s"
  by (auto simp: rec_inv_def is_sealed_def)

lemma wirePacketNo_seal [simp]: "wirePacketNo (sealFrameAEADInto cr f c pt) = PacketNo f"
  by (simp add: wirePacketNo_def sealFrameAEADInto_def encodeHeaderInto_def Let_def bslice_def get_put_be)

lemma rec_inv_reply: "rec_inv s \<Longrightarrow> is_sealed w s \<Longrightarrow> rec_inv (replyFromOrigPort port addr w s)"
  by (auto simp: rec_inv_def is_sealed_def live_wires_def replyFromOrigPort_def outbound_wire_def)

lemma rec_inv_sendToSession: "rec_inv s \<Longrightarrow> is_sealed w s \<Longrightarrow> rec_inv (sendToSession w s)"
  by (auto simp: sendToSession_def Let_def is_sealed_def intro!: rec_inv_reply split: prod.splits option.splits)

lemma rec_inv_dispatch: "rec_inv s \<Longrightarrow> is_sealed w s \<Longrightarrow> rec_inv (dispatchWire w s)"
  by (auto simp: dispatchWire_def rec_inv_sendToSession split: option.splits)
    (auto simp: rec_inv_def is_sealed_def live_wires_def bestEffort_def split: if_splits)

lemma sends_keep_sealed [simp]:
  "ses_sealed (sendToSession w s) = ses_sealed s" "ses_drawn (sendToSession w s) = ses_drawn s"
  "ses_sealed (dispatchWire w s) = ses_sealed s" "ses_drawn (dispatchWire w s) = ses_drawn s"
  by (auto simp: sendToSession_def dispatchWire_def replyFromOrigPort_def Let_def split: prod.splits option.splits)

lemma rec_inv_fold:
  assumes "\<And>w s. rec_inv s \<Longrightarrow> is_sealed w s \<Longrightarrow> rec_inv (g w s)"
    "\<And>w s. ses_sealed (g w s) = ses_sealed s" "\<And>w s. ses_drawn (g w s) = ses_drawn s"
  shows "rec_inv s \<Longrightarrow> (\<And>w. w \<in> set ws \<Longrightarrow> is_sealed w s) \<Longrightarrow> rec_inv (fold g ws s)"
proof (induction ws arbitrary: s)
  case (Cons w ws)
  then show ?case
    using assms by (simp add: is_sealed_def)
qed simp

lemma rec_inv_draw:
  assumes "rec_inv s" "nextPacketNo s = (no, s1)"
  shows "rec_inv s1"
proof -
  have "ses_drawn s + 1 < 2 ^ 64 \<Longrightarrow> rec_inv (s\<lparr>ses_sendPacketNo := ses_sendPacketNo s + 1, ses_drawn := ses_drawn s + 1\<rparr>)"
    using assms(1) by (auto simp: rec_inv_def live_wires_def list_all_iff)
  then have "rec_inv (s\<lparr>ses_sendPacketNo := ses_sendPacketNo s + 1, ses_drawn := ses_drawn s + 1\<rparr>)"
    by (cases "ses_drawn s + 1 < 2 ^ 64") (auto simp: rec_inv_def)
  then show ?thesis
    using assms(2) by (auto simp: nextPacketNo_def Let_def split: if_splits)
qed

lemma live_wires_draw [simp]:
  "live_wires (s\<lparr>ses_sendPacketNo := no, ses_drawn := n\<rparr>) = live_wires s" "live_wires (s\<lparr>ses_sealed := ws\<rparr>) = live_wires s"
  by (simp_all add: live_wires_def)

lemma rec_inv_seal:
  assumes "rec_inv s" "nextPacketNo s = (no, s1)" "no \<noteq> 0" "wirePacketNo w = no"
  shows "rec_inv (s1\<lparr>ses_sealed := ses_sealed s1 @ [w]\<rparr>)" "is_sealed w (s1\<lparr>ses_sealed := ses_sealed s1 @ [w]\<rparr>)"
proof -
  have s1: "s1 = s\<lparr>ses_sendPacketNo := no, ses_drawn := ses_drawn s + 1\<rparr>" "no = ses_sendPacketNo s + 1"
    using assms(2,3) by (auto simp: nextPacketNo_def Let_def split: if_splits)
  show "is_sealed w (s1\<lparr>ses_sealed := ses_sealed s1 @ [w]\<rparr>)"
    by (simp add: is_sealed_def)
  show "rec_inv (s1\<lparr>ses_sealed := ses_sealed s1 @ [w]\<rparr>)"
  proof (cases "ses_drawn s + 1 < 2 ^ 64")
    case True
    have "unat (of_nat (ses_drawn s + 1) :: uint64) = ses_drawn s + 1"
      using True by (simp only: unsigned_of_nat take_bit_eq_mod) simp
    moreover have no: "no = of_nat (ses_drawn s + 1)"
      using assms(1) s1 True by (simp add: rec_inv_def add.commute)
    ultimately have n: "unat no = ses_drawn s + 1" by simp
    have "sorted_wrt (<) (map (unat \<circ> wirePacketNo) (ses_sealed s))" "live_wires s \<subseteq> set (ses_sealed s)"
      and "\<forall>v \<in> set (ses_sealed s). 0 < unat (wirePacketNo v) \<and> unat (wirePacketNo v) \<le> ses_drawn s"
      using assms(1) True by (simp_all add: rec_inv_def list_all_iff)
    then show ?thesis
      using n assms(4) no by (auto simp: rec_inv_def s1(1) sorted_wrt_append list_all_iff)
  qed (simp add: rec_inv_def s1(1))
qed

lemma rec_inv_sendControl:
  assumes "rec_inv s" "\<And>w s. rec_inv s \<Longrightarrow> is_sealed w s \<Longrightarrow> rec_inv (send w s)"
  shows "rec_inv (sendControl env f send s)"
proof -
  obtain no s1 where d: "nextPacketNo s = (no, s1)" by (cases "nextPacketNo s")
  have "rec_inv s1"
    using rec_inv_draw [OF assms(1) d] .
  moreover have "rec_inv (send w (s1\<lparr>ses_sealed := ses_sealed s1 @ [w]\<rparr>))" if "no \<noteq> 0" "wirePacketNo w = no" for w
    using rec_inv_seal [OF assms(1) d that] assms(2) by blast
  ultimately show ?thesis
    by (simp add: sendControl_def d sealControlFrameAEAD_def Let_def split: option.splits)
qed

lemmas rec_inv_sends = rec_inv_sendControl rec_inv_sendToSession rec_inv_reply

lemma rec_inv_encode:
  assumes "rec_inv s" "encodeFrame env f s = (r, s1)"
  shows "rec_inv s1" "r = Some w \<Longrightarrow> is_sealed w s1"
proof -
  obtain no s0 where d: "nextPacketNo s = (no, s0)" by (cases "nextPacketNo s")
  have "SealFrameAEAD cr (Some g) (Some c) pt = Some v \<Longrightarrow> wirePacketNo v = PacketNo g" for cr g c pt v
    by (auto simp: SealFrameAEAD_def split: if_splits)
  then show "rec_inv s1" "r = Some w \<Longrightarrow> is_sealed w s1"
    using assms(2) rec_inv_draw [OF assms(1) d] rec_inv_seal [OF assms(1) d]
    by (auto simp: encodeFrame_def d Let_def split: if_splits option.splits)
qed

lemma rec_inv_emitFeedback: "rec_inv s \<Longrightarrow> rec_inv (emitFeedback env ackSeq s)"
  by (simp add: emitFeedback_def rec_inv_sends)

lemma rec_inv_cumulative: "rec_inv s \<Longrightarrow> rec_inv (sendCumulativeACK env now ackSeq s)"
  by (auto simp: sendCumulativeACK_def Let_def rec_inv_emitFeedback split: prod.splits if_splits)

lemma rec_inv_acks: "rec_inv s \<Longrightarrow> rec_inv (fold (sendCumulativeACK env now) acks s)"
  by (induction acks arbitrary: s) (auto intro: rec_inv_cumulative)

lemma rec_inv_flushACK: "rec_inv s \<Longrightarrow> rec_inv (snd (flushACK env now s))"
  by (auto simp: flushACK_def Let_def rec_inv_emitFeedback split: prod.splits)

lemma rec_inv_handleAck: "rec_inv s \<Longrightarrow> rec_inv (handleAck now ackSeq s)"
  using serverHandleAck_wires [of "ses_fecSend s \<noteq> None" "ses_send s" ackSeq now]
  by (auto simp: handleAck_def rec_inv_send split: prod.splits)

lemma rec_inv_handleSACK:
  assumes "rec_inv s"
  shows "rec_inv (handleSACK now f s)"
proof (cases "ss_flow (ses_send s)")
  case (Some flow)
  obtain wires valid flow' out' where u: "updateSACK (ss_flow (ses_send s)) (ss_unacked (ses_send s)) f
      (ss_sendSeq (ses_send s) - 1) (SRTT (ss_rtt (ses_send s))) now = ((wires, valid), flow', out')"
    by (metis prod.exhaust)
  define s1 where "s1 = s\<lparr>ses_send := (ses_send s)\<lparr>ss_flow := flow', ss_unacked := out'\<rparr>,
      ses_retryWake := notifyRetry (ses_retryWake s)\<rparr>"
  define s2 where "s2 = (if valid \<and> Ack f > 0 then handleAck now (Ack f) s1 else s1)"
  have "rec_inv s1"
    unfolding s1_def using rec_inv_send [OF assms, of "(ses_send s)\<lparr>ss_flow := flow', ss_unacked := out'\<rparr>"]
      updateSACK_wires(1) [OF u] by simp
  then have "rec_inv s2"
    by (simp add: s2_def rec_inv_handleAck)
  moreover have "is_sealed w s2" if "w \<in> set wires" for w
  proof -
    have "w \<in> live_wires s"
      using updateSACK_wires(2) [OF u] that by (auto simp: live_wires_def)
    then show ?thesis
      using live_is_sealed [OF assms] by (auto simp: s1_def s2_def is_sealed_def handleAck_def split: prod.splits)
  qed
  ultimately have "rec_inv (fold dispatchWire wires s2)"
    by (intro rec_inv_fold rec_inv_dispatch) auto
  moreover have "handleSACK now f s = fold dispatchWire wires s2"
    by (simp add: handleSACK_def Some Let_def s1_def s2_def u [unfolded Some])
  ultimately show ?thesis by simp
qed (simp add: handleSACK_def assms)

lemma rec_inv_routes [simp]:
  "rec_inv (sess_setPath env port addr now s) = rec_inv s" "rec_inv (sess_updateRemoteAddr addr allow s) = rec_inv s"
  "rec_inv (touch now s) = rec_inv s"
  by (simp_all add: sess_setPath_def sess_updateRemoteAddr_def touch_def)

lemma rec_inv_challenge: "rec_inv s \<Longrightarrow> rec_inv (sendPathChallenge env remoteAddr origPort now rnd s)"
  by (auto simp: sendPathChallenge_def Let_def rec_inv_sends split: prod.splits option.splits)

lemma rec_inv_data: "rec_inv s \<Longrightarrow> rec_inv (snd (handleDataFromPath env f remoteAddr origPort now s))"
  by (auto simp: handleDataFromPath_def Let_def intro!: rec_inv_acks rec_inv_handleAck split: prod.splits)

lemma rec_inv_recovered: "rec_inv s \<Longrightarrow> rec_inv (deliverRecoveredFEC env recovered remoteAddr origPort now s)"
  unfolding deliverRecoveredFEC_def
  by (induction recovered arbitrary: s) (simp_all add: rec_inv_data split_beta)

lemma rec_inv_fec:
  assumes "rec_inv s"
  shows "rec_inv (sess_onData env f remoteAddr origPort now s)" "rec_inv (sess_onParity env f remoteAddr origPort now s)"
  using assms by (auto simp: sess_onData_def sess_onParity_def intro!: rec_inv_recovered split: option.splits prod.splits)

lemma rec_inv_control: "rec_inv s \<Longrightarrow> rec_inv (handleControl env f remoteAddr origPort now s)"
  by (simp add: handleControl_def rec_inv_handleSACK rec_inv_sends rec_inv_fec)

lemma rec_inv_incoming: "rec_inv s \<Longrightarrow> rec_inv (snd (handleIncomingFrame env f remoteAddr origPort now rnd s))"
  by (auto simp: handleIncomingFrame_def Let_def intro!: rec_inv_challenge rec_inv_data rec_inv_fec rec_inv_control
      rec_inv_handleAck split: prod.splits)

lemma process_cases:
  obtains (dropped) "processIncomingFrame env fp remoteAddr origPort now rnd s = (False, s)"
  | (forged) f where "fp = Some f" "processIncomingFrame env fp remoteAddr origPort now rnd s = (False, s\<lparr>ses_macFailures := ses_macFailures s + 1\<rparr>)"
  | (replayed) f k plain where "fp = Some f" "ses_frameKeys s = Some k" "OpenFrameAEAD (ev_crypto env) (Some f) (Some (Recv k)) = Inr plain"
      "\<not> fst (Accept (ses_replay s) (PacketNo f))"
      "processIncomingFrame env fp remoteAddr origPort now rnd s = (False,
         (if Cmd f = CMD_DATA then reackDuplicateData env now else id)
           (s\<lparr>ses_replay := snd (Accept (ses_replay s) (PacketNo f)), ses_replayDrops := ses_replayDrops s + 1\<rparr>))"
  | (handled) f k plain fs ok s' where "fp = Some f" "ses_frameKeys s = Some k"
      "OpenFrameAEAD (ev_crypto env) (Some f) (Some (Recv k)) = Inr plain" "validSessionFrameShape (Some f)"
      "fst (Accept (ses_replay s) (PacketNo f))"
      "handleIncomingFrame env (f\<lparr>Data := plain\<rparr>) remoteAddr origPort now rnd
         (s\<lparr>ses_replay := snd (Accept (ses_replay s) (PacketNo f)), ses_fecSend := fs\<rparr>) = (ok, s')"
      "processIncomingFrame env fp remoteAddr origPort now rnd s = (ok,
         if \<not> ok \<and> Cmd f = CMD_DATA then s'\<lparr>ses_replay := Remove (ses_replay s') (PacketNo f)\<rparr> else s')"
proof (cases fp)
  case (Some f)
  show ?thesis
  proof (cases "Cmd f = CMD_SACK \<and> ss_flow (ses_send s) = None \<or> \<not> validSessionFrameShape (Some f)")
    case False
    show ?thesis
    proof (cases "\<exists>k plain. ses_frameKeys s = Some k \<and> OpenFrameAEAD (ev_crypto env) (Some f) (Some (Recv k)) = Inr plain")
      case True
      then obtain k plain where k: "ses_frameKeys s = Some k" "OpenFrameAEAD (ev_crypto env) (Some f) (Some (Recv k)) = Inr plain"
        by blast
      obtain a rf where acc: "Accept (ses_replay s) (PacketNo f) = (a, rf)" by (cases "Accept (ses_replay s) (PacketNo f)")
      define fs where "fs = (if Flags f AND FLAG_FEC_FEEDBACK \<noteq> 0
        then map_option (\<lambda>fs. fs_observeRemoteBasisPoints fs (WindowSize f)) (ses_fecSend s) else ses_fecSend s)"
      obtain ok s' where h: "handleIncomingFrame env (f\<lparr>Data := plain\<rparr>) remoteAddr origPort now rnd
          (s\<lparr>ses_replay := rf, ses_fecSend := fs\<rparr>) = (ok, s')" by fastforce
      show ?thesis
      proof (cases a)
        case True
        have "processIncomingFrame env fp remoteAddr origPort now rnd s = (ok,
            if \<not> ok \<and> Cmd f = CMD_DATA then s'\<lparr>ses_replay := Remove (ses_replay s') (PacketNo f)\<rparr> else s')"
          using False h by (cases ok)
            (auto simp: processIncomingFrame_def verifyInboundFrame_def Some k acc True fs_def split: if_splits)
        then show ?thesis
          using False acc True h by (intro handled [OF Some k, of fs ok s']) simp_all
      next
        case a: False
        then show ?thesis
          using replayed [OF Some k] False
          by (auto simp: processIncomingFrame_def verifyInboundFrame_def Some k acc)
      qed
    next
      case bad: False
      then have "verifyInboundFrame env f s = (None, s\<lparr>ses_macFailures := ses_macFailures s + 1\<rparr>)"
        by (auto simp: verifyInboundFrame_def Let_def split: option.splits sum.splits)
      then show ?thesis
        using forged [OF Some] False by (auto simp: processIncomingFrame_def Some)
    qed
  qed (use dropped in \<open>auto simp: processIncomingFrame_def Some\<close>)
qed (use dropped in \<open>simp add: processIncomingFrame_def\<close>)

lemma rec_inv_process: "rec_inv s \<Longrightarrow> rec_inv (snd (processIncomingFrame env fp remoteAddr origPort now rnd s))"
proof (cases rule: process_cases [of env fp remoteAddr origPort now rnd s])
  case (handled f k plain fs ok s')
  then show "rec_inv s \<Longrightarrow> ?thesis"
    using rec_inv_incoming [of "s\<lparr>ses_replay := snd (Accept (ses_replay s) (PacketNo f)), ses_fecSend := fs\<rparr>" env
        "f\<lparr>Data := plain\<rparr>" remoteAddr origPort now rnd] by simp
qed (auto simp: reackDuplicateData_def Let_def rec_inv_cumulative)

lemma rec_inv_parity: "rec_inv s \<Longrightarrow> rec_inv (sendFECParity env p s)"
  using rec_inv_encode by (auto simp: sendFECParity_def intro!: rec_inv_dispatch split: option.splits prod.splits)

lemma rec_inv_parities: "rec_inv s \<Longrightarrow> rec_inv (fold (sendFECParity env) shards s)"
  by (induction shards arbitrary: s) (auto intro: rec_inv_parity)

lemma rec_inv_sealRecord:
  assumes "rec_inv s" "sealRecord env payload now s = (r, s1)" "ses_submitting s = None"
  shows "rec_inv s1" "r = Some (seq, w) \<Longrightarrow> rec_inv (s1\<lparr>ses_submitting := Some (seq, payload, w)\<rparr>)"
proof -
  define s0 where "s0 = s\<lparr>ses_send := (ses_send s)\<lparr>ss_sendSeq := ss_sendSeq (ses_send s) + 1\<rparr>\<rparr>"
  define f where "f = (sessionFrame env s0 CMD_DATA (currentAck s0) payload)
    \<lparr>Seq := ss_sendSeq (ses_send s), WindowSize := advertisedWindowFull\<rparr>"
  obtain e s2 where enc: "encodeFrame env f s0 = (e, s2)" by (cases "encodeFrame env f s0")
  have "rec_inv s0"
    unfolding s0_def by (rule rec_inv_send [OF assms(1)]) simp
  note inv = rec_inv_encode [OF this enc]
  have filed: "rec_inv (s2\<lparr>ses_send := fileRecord (ses_send s2) seq w q now, ses_retryWake := rw\<rparr>)"
    "rec_inv (s2\<lparr>ses_send := fileRecord (ses_send s2) seq w q now, ses_retryWake := rw, ses_submitting := Some (seq', pl, w)\<rparr>)"
    if "e = Some w" for w q rw seq seq' pl
    using inv(1) inv(2) [OF that] pkt_wires_delete [of seq "ss_unacked (ses_send s2)"]
    by (auto simp: rec_inv_def is_sealed_def live_wires_def fileRecord_def Let_def split: option.splits)
  have "(r, s1) = (if ses_closed s then (None, s) else (case e of None \<Rightarrow> (None, s2)
      | Some w \<Rightarrow> (Some (ss_sendSeq (ses_send s), w), s2\<lparr>ses_send := fileRecord (ses_send s2) (ss_sendSeq (ses_send s)) w (ses_tx s2 \<noteq> None) now,
          ses_retryWake := notifyRetry (ses_retryWake s2)\<rparr>)))"
    using assms(2) enc unfolding sealRecord_def Let_def s0_def [symmetric] f_def [symmetric] by (auto split: option.splits)
  then show "rec_inv s1" "r = Some (seq, w) \<Longrightarrow> rec_inv (s1\<lparr>ses_submitting := Some (seq, payload, w)\<rparr>)"
    using inv(1) filed assms(1) by (auto split: if_splits option.splits)
qed

lemma rec_inv_submitting:
  assumes "rec_inv s" "ses_submitting s = Some (seq, payload, w)"
  shows "rec_inv (s\<lparr>ses_submitting := None\<rparr>)" "is_sealed w (s\<lparr>ses_submitting := None\<rparr>)"
  using assms by (auto simp: rec_inv_def is_sealed_def live_wires_def)

lemma rec_inv_submit:
  assumes "rec_inv s" "is_sealed w s"
  shows "rec_inv (submitRecord env seq payload w s)"
proof -
  have "rec_inv (s\<lparr>ses_tx := Some (q @ [w])\<rparr>)" if "ses_tx s = Some q" for q
    using assms that by (auto simp: rec_inv_def is_sealed_def live_wires_def)
  then show ?thesis
    using assms rec_inv_sendToSession [OF assms]
    by (auto simp: submitRecord_def Let_def intro!: rec_inv_parities split: option.splits prod.splits if_splits)
qed

lemma rec_inv_batch:
  assumes "rec_inv s" "\<And>w. w \<in> set wires \<Longrightarrow> is_sealed w s"
  shows "rec_inv (sendToSessionBatch wires s)"
proof (cases "map_of (sp_pathAddrs (ses_paths s)) (sp_lastOrigPort (ses_paths s))")
  case None
  then show ?thesis
    using assms by (auto simp: sendToSessionBatch_def intro!: rec_inv_fold rec_inv_sendToSession)
next
  case (Some pe)
  then show ?thesis
    using assms by (auto simp: sendToSessionBatch_def rec_inv_def is_sealed_def live_wires_def outbound_wire_def)
qed

lemma rec_inv_transmit:
  assumes "rec_inv s"
  shows "rec_inv (transmitTurn now sent s)"
proof (cases "\<exists>q. ses_tx s = Some q \<and> \<not> ses_closed s \<and> q \<noteq> []")
  case True
  then obtain q where q: "ses_tx s = Some q" "\<not> ses_closed s" "q \<noteq> []" by blast
  define n where "n = min transmitBurst (nat (max 1 (burstWindow s)))"
  define s1 where "s1 = paceBurst (min (length q) n) now (s\<lparr>ses_tx := Some (drop n q)\<rparr>)"
  have "rec_inv (s\<lparr>ses_tx := Some (drop n q)\<rparr>)"
    using assms q by (auto simp: rec_inv_def live_wires_def dest: in_set_dropD)
  then have "rec_inv s1"
    by (auto simp: s1_def paceBurst_def intro!: rec_inv_send split: option.splits)
  moreover have "is_sealed w s1" if "w \<in> set (take n q)" for w
    using live_is_sealed [OF assms, of w] that q
    by (auto simp: s1_def paceBurst_def is_sealed_def live_wires_def dest: in_set_takeD split: option.splits)
  ultimately have "rec_inv (sendToSessionBatch (take n q) s1)"
    by (rule rec_inv_batch)
  then show ?thesis
    using q by (auto simp: transmitTurn_def Let_def markBatchTransmitted_def pkt_wires_markTransmitted
        simp flip: n_def s1_def intro!: rec_inv_send)
qed (use assms in \<open>auto simp: transmitTurn_def Let_def split: option.splits\<close>)

lemma rec_inv_retransmit:
  assumes "rec_inv s"
  shows "rec_inv (snd (retransmitTurn env now s))"
proof -
  obtain due abandoned delay probe flow' out' where r: "retryDue (ss_unacked (ses_send s)) now rttMaxRTO
      (ss_flow (ses_send s)) (SRTT (ss_rtt (ses_send s))) = ((due, abandoned, delay, probe), flow', out')"
    by (metis prod.exhaust)
  define s1 where "s1 = s\<lparr>ses_send := (ses_send s)\<lparr>ss_flow := flow', ss_unacked := out'\<rparr>,
      ses_retryWake := map_option (\<lambda>_. False) (ses_retryWake s)\<rparr>"
  have s1: "rec_inv s1"
    unfolding s1_def using rec_inv_send [OF assms, of "(ses_send s)\<lparr>ss_flow := flow', ss_unacked := out'\<rparr>"]
      retryDue_wires(1) [OF r] by simp
  have "is_sealed w s1" if "w \<in> set due" for w
    using live_is_sealed [OF assms, of w] retryDue_wires(2) [OF r] that
    by (auto simp: s1_def is_sealed_def live_wires_def)
  then have "rec_inv (fold dispatchWire due s1)"
    using s1 by (intro rec_inv_fold rec_inv_dispatch) auto
  then show ?thesis
    using assms s1 by (auto simp: retransmitTurn_def r Let_def split_beta simp flip: s1_def
        intro!: rec_inv_flushACK rec_inv_sends)
qed

lemma rec_inv_timers:
  assumes "rec_inv s"
  shows "rec_inv (writerTurn env now s)" "rec_inv (ackTimer env now s)" "rec_inv (fecTimer env gen s)"
  using assms by (auto simp: writerTurn_def ackTimer_def fecTimer_def intro!: rec_inv_acks rec_inv_parities
      split: option.splits prod.splits)

lemma rec_inv_outgoing:
  assumes "rec_inv s"
  shows "rec_inv (sess_step env (Outgoing payload now) s)"
proof (cases "ses_submitting s \<noteq> None \<or> sendBlocked env s")
  case False
  obtain r s1 where r: "sealRecord env payload now s = (r, s1)" by (cases "sealRecord env payload now s")
  have "ses_submitting s = None"
    using False by blast
  note inv = rec_inv_sealRecord [OF assms r this]
  show ?thesis
    using False inv by (cases r) (auto simp: r)
qed (use assms in simp)

lemma rec_inv_submission:
  assumes "rec_inv s"
  shows "rec_inv (sess_step env Submit s)"
proof (cases "ses_submitting s")
  case (Some x)
  then obtain seq payload w where x: "ses_submitting s = Some (seq, payload, w)" by (cases x) auto
  show ?thesis
    using rec_inv_submit [OF rec_inv_submitting [OF assms x]] assms by (simp add: x)
qed (use assms in simp)

lemma rec_inv_step: "rec_inv s \<Longrightarrow> rec_inv (sess_step env e s)"
  by (cases e) (simp_all add: rec_inv_process rec_inv_transmit rec_inv_retransmit rec_inv_timers rec_inv_outgoing
      rec_inv_submission del: sess_step.simps(2,3))

subsection \<open>The boundary\<close>

lemma protected_neutral [simp]:
  "protected_state (s\<lparr>ses_replay := rf\<rparr>) = protected_state s" "protected_state (s\<lparr>ses_coalesce := c\<rparr>) = protected_state s"
  "protected_state (s\<lparr>ses_fecSend := fs\<rparr>) = protected_state s" "protected_state (s\<lparr>ses_retryWake := r\<rparr>) = protected_state s"
  "protected_state (s\<lparr>ses_macFailures := n\<rparr>) = protected_state s" "protected_state (s\<lparr>ses_replayDrops := n\<rparr>) = protected_state s"
  "protected_state (s\<lparr>ses_sealed := ws\<rparr>) = protected_state s" "protected_state (s\<lparr>ses_out := out\<rparr>) = protected_state s"
  by (simp_all add: protected_state_def)

lemma protected_sendToSession [simp]: "protected_state (sendToSession w s) = protected_state s"
  using sessionRoute_keeps [of "ses_paths s"]
  by (cases "sessionRoute (ses_paths s)")
    (auto simp: sendToSession_def replyFromOrigPort_def protected_state_def Let_def simp del: sessionRoute_keeps split: option.splits)

lemma protected_reply [simp]: "protected_state (replyFromOrigPort port addr w s) = protected_state s"
  by (simp add: replyFromOrigPort_def)

lemma protected_sendControl:
  assumes "ses_sendPacketNo s \<noteq> - 1" "\<And>w s. protected_state (send w s) = protected_state s"
  shows "protected_state (sendControl env f send s) = protected_state s"
proof -
  have "ses_sendPacketNo s + 1 \<noteq> 0"
    using assms(1) by (simp add: add_eq_0_iff2)
  moreover have "protected_state (s\<lparr>ses_sendPacketNo := no, ses_drawn := n\<rparr>) = protected_state s" for no n
    by (simp add: protected_state_def)
  ultimately show ?thesis
    using assms(2) by (simp add: sendControl_def nextPacketNo_def Let_def split: option.splits)
qed

lemma protected_cumulative: "ses_sendPacketNo s \<noteq> - 1 \<Longrightarrow> protected_state (sendCumulativeACK env now ackSeq s) = protected_state s"
  by (auto simp: sendCumulativeACK_def emitFeedback_def Let_def protected_sendControl split: prod.splits if_splits)

lemma challengeFor_keeps [simp]:
  "sp_raddr (snd (challengeFor a now rnd p)) = sp_raddr p" "sp_pathAddrs (snd (challengeFor a now rnd p)) = sp_pathAddrs p"
  by (auto simp: challengeFor_def Let_def split: option.splits)

lemma protected_challenge:
  assumes "ses_sendPacketNo s \<noteq> - 1"
  shows "protected_state (sendPathChallenge env remoteAddr origPort now rnd s) = protected_state s"
proof -
  obtain token p where c: "challengeFor (ap_addr remoteAddr) now rnd (ses_paths s) = (token, p)"
    by (cases "challengeFor (ap_addr remoteAddr) now rnd (ses_paths s)")
  then have "protected_state (s\<lparr>ses_paths := p\<rparr>) = protected_state s"
    using challengeFor_keeps [of "ap_addr remoteAddr" now rnd "ses_paths s"] by (simp add: protected_state_def)
  then show ?thesis
    using assms by (simp add: sendPathChallenge_def c Let_def protected_sendControl split: option.splits)
qed

lemma accept_answers:
  assumes "ses_frameKeys s = Some k" "OpenFrameAEAD (ev_crypto env) (Some f) (Some (Recv k)) = Inr plain" "Cmd f = CMD_PATH_RESPONSE"
  shows "fst (acceptPathResponse (ap_addr remoteAddr) plain now (ses_paths s)) \<longleftrightarrow> answers_challenge env f remoteAddr now s"
  using assms by (auto simp: acceptPathResponse_def answers_challenge_def split: option.splits)

lemma open_sealed_frame:
  assumes "aead_correct cr"
  shows "OpenFrameAEAD cr (Some (sealed_frame cr k g p)) (Some k) = Inr p"
proof -
  have "56 \<le> length (sealFrameAEADInto cr g k p)"
    by (simp add: sealFrameAEADInto_def Let_def aead_length [OF assms])
  then show ?thesis
    by (subst OpenFrameAEAD_Inr [OF assms]) (simp_all add: sealed_frame_def sealFrameAEADInto_def Let_def)
qed

lemma sealed_frame_simps [simp]:
  "Cmd (sealed_frame cr k g p) = Cmd g" "PacketNo (sealed_frame cr k g p) = PacketNo g" "Seq (sealed_frame cr k g p) = Seq g"
  "Ack (sealed_frame cr k g p) = Ack g" "Flags (sealed_frame cr k g p) = Flags g" "SessionID (sealed_frame cr k g p) = SessionID g"
  "WindowSize (sealed_frame cr k g p) = WindowSize g"
  by (simp_all add: sealed_frame_def Let_def)

lemma length_sealed_data: "aead_correct cr \<Longrightarrow> length (Data (sealed_frame cr k g p)) = length p"
  by (simp add: sealed_frame_def Let_def sealFrameAEADInto_def bslice_def aead_length size_defs)

subsection \<open>The remote address\<close>

lemma remote_ip_neutral [simp]:
  "remote_ip (s\<lparr>ses_replay := rf\<rparr>) = remote_ip s" "remote_ip (s\<lparr>ses_coalesce := c\<rparr>) = remote_ip s"
  "remote_ip (s\<lparr>ses_fecSend := fs\<rparr>) = remote_ip s" "remote_ip (s\<lparr>ses_fecRecv := fr\<rparr>) = remote_ip s"
  "remote_ip (s\<lparr>ses_retryWake := r\<rparr>) = remote_ip s" "remote_ip (s\<lparr>ses_mtu := m\<rparr>) = remote_ip s"
  "remote_ip (s\<lparr>ses_send := st\<rparr>) = remote_ip s" "remote_ip (s\<lparr>ses_delivery := d\<rparr>) = remote_ip s"
  "remote_ip (s\<lparr>ses_sealed := ws\<rparr>) = remote_ip s" "remote_ip (s\<lparr>ses_out := out\<rparr>) = remote_ip s"
  "remote_ip (s\<lparr>ses_tx := q\<rparr>) = remote_ip s" "remote_ip (s\<lparr>ses_queueFullDrops := n\<rparr>) = remote_ip s"
  "remote_ip (s\<lparr>ses_macFailures := n\<rparr>) = remote_ip s" "remote_ip (s\<lparr>ses_replayDrops := n\<rparr>) = remote_ip s"
  "remote_ip (s\<lparr>ses_sendPacketNo := no, ses_drawn := n\<rparr>) = remote_ip s" "remote_ip (touch now s) = remote_ip s"
  "remote_ip (sess_Close s) = remote_ip s" "remote_ip (replyFromOrigPort port addr w s) = remote_ip s"
  by (simp_all add: remote_ip_def sess_Close_def touch_def replyFromOrigPort_def)

lemma remote_ip_sendToSession [simp]: "remote_ip (sendToSession w s) = remote_ip s"
  using protected_sendToSession [of w s] by (simp add: protected_state_def remote_ip_def)

lemma remote_ip_dispatch [simp]: "remote_ip (dispatchWire w s) = remote_ip s" "remote_ip (fold dispatchWire ws s) = remote_ip s"
proof -
  show one: "remote_ip (dispatchWire w s) = remote_ip s" for w s
    by (simp add: dispatchWire_def split: option.splits)
  show "remote_ip (fold dispatchWire ws s) = remote_ip s"
    by (induction ws arbitrary: s) (simp_all add: one)
qed

lemma remote_ip_sendControl:
  assumes "\<And>w s. remote_ip (send w s) = remote_ip s"
  shows "remote_ip (sendControl env f send s) = remote_ip s"
  using assms by (auto simp: sendControl_def nextPacketNo_def Let_def split: option.splits)

lemma remote_ip_acks [simp]:
  "remote_ip (sendCumulativeACK env now ackSeq s) = remote_ip s" "remote_ip (fold (sendCumulativeACK env now) acks s) = remote_ip s"
proof -
  show one: "remote_ip (sendCumulativeACK env now ackSeq s) = remote_ip s" for ackSeq s
    by (auto simp: sendCumulativeACK_def emitFeedback_def Let_def remote_ip_sendControl split: prod.splits if_splits)
  show "remote_ip (fold (sendCumulativeACK env now) acks s) = remote_ip s"
    by (induction acks arbitrary: s) (simp_all add: one)
qed

lemma remote_ip_handleAck [simp]: "remote_ip (handleAck now ackSeq s) = remote_ip s" "remote_ip (handleSACK now f s) = remote_ip s"
proof -
  show one: "remote_ip (handleAck now ackSeq s) = remote_ip s" for ackSeq s
    by (simp add: handleAck_def split: prod.splits)
  show "remote_ip (handleSACK now f s) = remote_ip s"
    by (auto simp: handleSACK_def Let_def one split: option.splits prod.splits)
qed

lemma remote_ip_challenge [simp]: "remote_ip (sendPathChallenge env remoteAddr origPort now rnd s) = remote_ip s"
proof -
  obtain token p where c: "challengeFor (ap_addr remoteAddr) now rnd (ses_paths s) = (token, p)"
    by (cases "challengeFor (ap_addr remoteAddr) now rnd (ses_paths s)")
  then have "remote_ip (s\<lparr>ses_paths := p\<rparr>) = remote_ip s"
    using challengeFor_keeps(1) [of "ap_addr remoteAddr" now rnd "ses_paths s"] by (simp add: remote_ip_def)
  then show ?thesis
    by (simp add: sendPathChallenge_def c Let_def remote_ip_sendControl split: option.splits)
qed

lemma remote_ip_setPath [simp]: "remote_ip (sess_setPath env origPort addr now s) = remote_ip s"
  by (auto simp: remote_ip_def sess_setPath_def setPath_eq)

lemma remote_ip_update:
  "remote_ip s = Some (ap_addr a) \<Longrightarrow> remote_ip (sess_updateRemoteAddr a allow s) = Some (ap_addr a)"
  by (auto simp: remote_ip_def sess_updateRemoteAddr_def updateRemoteAddr_def split: option.splits)

lemma remote_ip_data:
  assumes "remote_ip s = Some (ap_addr a)"
  shows "remote_ip (snd (handleDataFromPath env f a origPort now s)) = Some (ap_addr a)"
  using assms by (auto simp: handleDataFromPath_def Let_def remote_ip_update split: prod.splits)

lemma remote_ip_recovered:
  "remote_ip s = Some (ap_addr a) \<Longrightarrow> remote_ip (deliverRecoveredFEC env recovered a origPort now s) = Some (ap_addr a)"
  unfolding deliverRecoveredFEC_def
  by (induction recovered arbitrary: s) (simp_all add: remote_ip_data split_beta)

lemma remote_ip_same:
  assumes "sameRemoteIP (ses_paths s) (Some a)"
  shows "remote_ip (snd (handleIncomingFrame env f a origPort now rnd s)) = remote_ip s"
proof -
  have ip: "remote_ip s = Some (ap_addr a)"
    using assms by (auto simp: sameRemoteIP_def remote_ip_def split: option.splits)
  have data: "remote_ip (sess_onData env f a origPort now s1) = Some (ap_addr a)"
    and parity: "remote_ip (sess_onParity env f a origPort now s1) = Some (ap_addr a)" if "remote_ip s1 = Some (ap_addr a)" for s1
    using that by (auto simp: sess_onData_def sess_onParity_def remote_ip_recovered split: option.splits prod.splits)
  have "remote_ip (handleControl env f a origPort now s1) = Some (ap_addr a)" if "remote_ip s1 = Some (ap_addr a)" for s1
    using that parity by (simp add: handleControl_def remote_ip_sendControl)
  then show ?thesis
    using assms ip data by (simp add: handleIncomingFrame_def Let_def remote_ip_data remote_ip_update)
qed

subsection \<open>Splitting\<close>

lemma split_returns:
  assumes "\<And>i. 0 < cap i"
  shows "\<exists>rs. sendDataSplit cap i payload = Some rs \<and> concat rs = payload \<and> [] \<notin> set rs
    \<and> (\<forall>j < length rs. length (rs ! j) \<le> cap (i + j))"
proof (induction "length payload" arbitrary: i payload rule: less_induct)
  case less
  show ?case
  proof (cases "payload = []")
    case False
    then have "length (drop (cap i) payload) < length payload"
      using assms [of i] by (cases payload) auto
    then obtain rs where rs: "sendDataSplit cap (Suc i) (drop (cap i) payload) = Some rs" "concat rs = drop (cap i) payload"
      "[] \<notin> set rs" "\<forall>j < length rs. length (rs ! j) \<le> cap (Suc i + j)"
      using less by blast
    then have "sendDataSplit cap i payload = Some (take (cap i) payload # rs)"
      using False by (subst sendDataSplit.simps) simp
    moreover have "\<forall>j < length (take (cap i) payload # rs). length ((take (cap i) payload # rs) ! j) \<le> cap (i + j)"
      using rs(4) by (auto simp: nth_Cons split: nat.splits)
    ultimately show ?thesis
      using rs(2,3) False assms [of i] by (intro exI [of _ "take (cap i) payload # rs"]) auto
  qed (simp add: sendDataSplit.simps)
qed

section \<open>Properties\<close>

text \<open>C7: a nonce never protects two records.  In every run of a new session, until all \<open>2 ^ 64\<close> packet
  numbers are drawn, the records sealed under the session key carry pairwise different packet
  numbers, and every datagram that is sent, queued or kept for retransmission is one of these
  records, byte for byte.\<close>

theorem session_nonces_unique:
  assumes "s = fold (sess_step env) es (newServerSession env sid remoteAddr origPort k now)" "ses_drawn s < 2 ^ 64"
  shows "distinct (map wirePacketNo (ses_sealed s)) \<and> live_wires s \<subseteq> set (ses_sealed s)"
proof -
  have "rec_inv s'" if "s' = fold (sess_step env) es s0" "rec_inv s0" for s' s0 es
    using that by (induction es arbitrary: s0) (auto intro: rec_inv_step)
  moreover have "rec_inv (newServerSession env sid remoteAddr origPort k now)"
    by (simp add: rec_inv_def newServerSession_def live_wires_def)
  ultimately have inv: "rec_inv s"
    using assms(1) by blast
  then have "sorted_wrt (<) (map (unat \<circ> wirePacketNo) (ses_sealed s))"
    using assms(2) by (simp add: rec_inv_def)
  then have "distinct (map (unat \<circ> wirePacketNo) (ses_sealed s))"
    by (simp add: strict_sorted_iff)
  then have "distinct (map wirePacketNo (ses_sealed s))"
    by (simp add: distinct_map comp_inj_on_iff [symmetric] inj_on_def)
  then show ?thesis
    using inv assms(2) by (simp add: rec_inv_def)
qed

theorem session_nonces_unique_witness:
  "(let s = sess_step sample_env (Outgoing [1, 2, 3] 5) sample_session
    in ses_drawn s = 1 \<and> length (ses_sealed s) = 1 \<and> distinct (map wirePacketNo (ses_sealed s)) \<and> live_wires s \<subseteq> set (ses_sealed s))"
proof -
  define s where "s = sess_step sample_env (Outgoing [1, 2, 3] 5) sample_session"
  have run: "s = fold (sess_step sample_env) [Outgoing [1, 2, 3] 5] (newServerSession sample_env 9 sample_addr 9000 sample_keys 0)"
    by (simp add: s_def sample_session_def)
  have "ses_drawn s = 1 \<and> length (ses_sealed s) = 1"
    by (simp add: s_def sample_session_def newServerSession_def sample_keys_def sample_env_def sendBlocked_def sendWindow_def
        sealRecord_def encodeFrame_def applyFECFeedback_def nextPacketNo_def SealFrameAEAD_def sessionFrame_def
        currentAck_def Let_def size_defs defaultSendWindow_def)
  then show ?thesis
    using session_nonces_unique [OF run] unfolding s_def [symmetric] Let_def by simp
qed



text \<open>C8: a session moves to another IP address only when a frame from that address, authentic under
  the session's receive key and with a packet number not accepted before, returns the unexpired
  token of the challenge that was sent to the address; the session then follows exactly the
  frame's source address.\<close>

theorem migration_needs_challenge:
  assumes "remote_ip s = Some ip" "s' = snd (processIncomingFrame env (Some f) remoteAddr origPort now rnd s)"
    "remote_ip s' \<noteq> Some ip"
  shows "answers_challenge env f remoteAddr now s \<and> fst (Accept (ses_replay s) (PacketNo f))
    \<and> sp_raddr (ses_paths s') = Some remoteAddr"
proof (cases rule: process_cases [of env "Some f" remoteAddr origPort now rnd s])
  case (handled f' k plain fs ok s1)
  define s0 where "s0 = s\<lparr>ses_replay := snd (Accept (ses_replay s) (PacketNo f)), ses_fecSend := fs\<rparr>"
  have f: "f' = f" and h: "handleIncomingFrame env (f\<lparr>Data := plain\<rparr>) remoteAddr origPort now rnd s0 = (ok, s1)"
    using handled(1,6) by (simp_all add: s0_def)
  have ips: "remote_ip s' = remote_ip s1" "remote_ip s0 = Some ip"
    using assms(1,2) handled(7) by (auto simp: s0_def)
  have other: "\<not> sameRemoteIP (ses_paths s0) (Some remoteAddr)"
    using remote_ip_same [of s0 remoteAddr env "f\<lparr>Data := plain\<rparr>" origPort now rnd] ips assms(3) h by auto
  then have resp: "Cmd f = CMD_PATH_RESPONSE \<and> fst (acceptPathResponse (ap_addr remoteAddr) plain now (ses_paths s0))"
    using h ips assms(3) by (auto simp: handleIncomingFrame_def split: prod.splits if_splits)
  then have "answers_challenge env f remoteAddr now s"
    using accept_answers [of s k env f plain remoteAddr now] handled(2,3) f by (simp add: s0_def)
  moreover have "ok" "sp_raddr (ses_paths s1) = Some remoteAddr"
    using h other resp ips by (auto simp: handleIncomingFrame_def touch_def sess_setPath_def setPath_eq sess_updateRemoteAddr_def
        updateRemoteAddr_def split: prod.splits option.splits)
  ultimately show ?thesis
    using handled(5,7) f assms(2) by simp
qed (use assms in \<open>auto simp: reackDuplicateData_def Let_def split: if_splits\<close>)

theorem migration_needs_challenge_witness:
  "(let a = sample_addr\<lparr>ap_addr := [10, 0, 0, 2]\<rparr>; token = replicate 16 9;
        s = sample_session\<lparr>ses_paths := (ses_paths sample_session)\<lparr>sp_challenges := [(ap_addr a, \<lparr> pch_token = token, pch_expires = 100 \<rparr>)]\<rparr>\<rparr>;
        f = sealed_frame sample_crypto (replicate 32 2) (sample_frame\<lparr>Cmd := CMD_PATH_RESPONSE, Seq := 0\<rparr>) token;
        s' = snd (processIncomingFrame sample_env (Some f) a 9000 50 None s)
    in remote_ip s = Some [10, 0, 0, 1] \<and> answers_challenge sample_env f a 50 s \<and> sp_raddr (ses_paths s') = Some a)"
proof -
  define a where "a = sample_addr\<lparr>ap_addr := [10, 0, 0, 2]\<rparr>"
  define token where "token = replicate 16 (9 :: byte)"
  define s where "s = sample_session\<lparr>ses_paths := (ses_paths sample_session)\<lparr>sp_challenges := [(ap_addr a, \<lparr> pch_token = token, pch_expires = 100 \<rparr>)]\<rparr>\<rparr>"
  define f where "f = sealed_frame sample_crypto (replicate 32 2) (sample_frame\<lparr>Cmd := CMD_PATH_RESPONSE, Seq := 0\<rparr>) token"
  define s' where "s' = snd (processIncomingFrame sample_env (Some f) a 9000 50 None s)"
  have s: "remote_ip s = Some [10, 0, 0, 1]" "ses_frameKeys s = Some sample_keys" "ss_flow (ses_send s) = None"
    "ses_replay s = newReplayFilter" "ses_fecSend s = None"
    by (simp_all add: s_def sample_session_def newServerSession_def remote_ip_def newPaths_def sample_addr_def sample_keys_def)
  have "OpenFrameAEAD sample_crypto (Some f) (Some (replicate 32 2)) = Inr token" "length (Data f) = 16"
    unfolding f_def by (simp_all add: open_sealed_frame length_sealed_data sample_crypto_ok(1) token_def)
  moreover have "validSessionFrameShape (Some f)"
    using \<open>length (Data f) = 16\<close> by (simp add: validSessionFrameShape_def f_def sample_frame_def cmd_defs size_defs)
  moreover have "length token = 16" by (simp add: token_def)
  ultimately have "remote_ip s' \<noteq> Some [10, 0, 0, 1]"
    unfolding s'_def processIncomingFrame_def verifyInboundFrame_def
    by (simp add: s sample_env_def sample_keys_def Accept_def acceptLocked_def newReplayFilter_def)
      (simp add: f_def sample_frame_def handleIncomingFrame_def sameRemoteIP_def s_def a_def sample_session_def newServerSession_def
        newPaths_def sample_addr_def acceptPathResponse_def size_defs cmd_defs remote_ip_def sess_updateRemoteAddr_def
        updateRemoteAddr_def sess_setPath_def setPath_def touch_def)
  then show ?thesis
    using migration_needs_challenge [OF s(1) s'_def] s(1) by (simp add: Let_def a_def s_def f_def s'_def token_def)
qed

text \<open>Splitting a read from the target into records ends and loses nothing.  While the frame budget
  read before each record is positive, however it changes from record to record, \<open>sendData\<close> returns
  after finitely many records; they are not empty, each fits the budget it was sized by, and their
  concatenation is the data read.  (With a budget of zero the loop of the code would not end, which
  the option-valued recursion represents.)\<close>

lemma sendData_split_returns:
  assumes "\<And>i. 0 < cap i"
  shows "\<exists>rs. sendDataSplit cap 0 payload = Some rs \<and> concat rs = payload \<and> [] \<notin> set rs
    \<and> (\<forall>j < length rs. length (rs ! j) \<le> cap j)"
  using split_returns [where cap = cap and i = 0 and payload = payload, OF assms] by simp

lemma sendData_split_returns_witness:
  "\<exists>rs. sendDataSplit (\<lambda>i. if i = 0 then 2 else 1) 0 [1, 2, 3] = Some rs \<and> concat rs = [1, 2, 3] \<and> [] \<notin> set rs"
proof -
  have "0 < (if i = 0 then 2 else 1 :: nat)" for i :: nat by simp
  then obtain rs where "sendDataSplit (\<lambda>i. if i = 0 then 2 else 1) 0 [1, 2, 3] = Some rs" "concat rs = [1, 2, 3]" "[] \<notin> set rs"
    using sendData_split_returns [of "\<lambda>i. if i = 0 then 2 else 1" "[1, 2, 3]"] by blast
  then show ?thesis by blast
qed

end
