(* ===== verification/ServerStream.thy ===== *)
theory ServerStream
  imports ServerSession
begin

text \<open>
  The upstream direction of a server session from end to end: what the target connection is
  written, when authentic frames arrive in any order, several times, from several addresses, with
  losses and with parity in between.  The receive boundary, the replay filter, the FEC receiver and
  the ordered delivery act together here.
\<close>

section \<open>Definitions\<close>

text \<open>What the peer's records may carry: \<open>src\<close> assigns the payload to each sequence number.  A frame
  that opens under the session's key carries the payload of its number, or parity over them.\<close>

fun genuine_event :: "serverEnv \<Rightarrow> (uint64 \<Rightarrow> bytes) \<Rightarrow> FrameKeys \<Rightarrow> sess_event \<Rightarrow> bool" where
  "genuine_event env src k (Inbound (Some f) _ _ now _) \<longleftrightarrow>
     (case OpenFrameAEAD (ev_crypto env) (Some f) (Some (Recv k)) of
        Inl _ \<Rightarrow> True
      | Inr plain \<Rightarrow> (Cmd f = CMD_DATA \<longrightarrow> plain = src (Seq f))
          \<and> (Cmd f = CMD_FEC \<longrightarrow> genuine_arrival (ev_rs env) src (fk_fecExt k) (ParityArrival (f\<lparr>Data := plain\<rparr>) now)))"
| "genuine_event env src k _ \<longleftrightarrow> True"

definition stream_inv :: "serverEnv \<Rightarrow> (uint64 \<Rightarrow> bytes) \<Rightarrow> FrameKeys \<Rightarrow> ServerSession \<Rightarrow> bool" where
  "stream_inv env src k s \<longleftrightarrow> ses_frameKeys s = Some k \<and> buffer_inv src (ses_delivery s)
     \<and> ses_written s = stream_prefix src (unat (od_delivered (ses_delivery s)))
     \<and> (case ses_fecRecv s of None \<Rightarrow> True | Some r \<Rightarrow> recv_inv (ev_rs env) src r \<and> fr_extParity r = fk_fecExt k)"

text \<open>The client's first DATA frame, under the keys of the sample session.\<close>

definition sample_data :: UDPCFrame where
  "sample_data = sealed_frame sample_crypto (replicate 32 2) sample_frame (sample_src 1)"

section \<open>Lemmas\<close>

lemma stream_neutral [simp]:
  "stream_inv env src k (s\<lparr>ses_replay := rf\<rparr>) = stream_inv env src k s" "stream_inv env src k (s\<lparr>ses_coalesce := c\<rparr>) = stream_inv env src k s"
  "stream_inv env src k (s\<lparr>ses_fecSend := fs\<rparr>) = stream_inv env src k s" "stream_inv env src k (s\<lparr>ses_paths := p\<rparr>) = stream_inv env src k s"
  "stream_inv env src k (s\<lparr>ses_retryWake := r\<rparr>) = stream_inv env src k s" "stream_inv env src k (s\<lparr>ses_mtu := m\<rparr>) = stream_inv env src k s"
  "stream_inv env src k (s\<lparr>ses_send := st\<rparr>) = stream_inv env src k s" "stream_inv env src k (s\<lparr>ses_sealed := ws\<rparr>) = stream_inv env src k s"
  "stream_inv env src k (s\<lparr>ses_out := out\<rparr>) = stream_inv env src k s" "stream_inv env src k (s\<lparr>ses_tx := q\<rparr>) = stream_inv env src k s"
  "stream_inv env src k (s\<lparr>ses_queueFullDrops := n\<rparr>) = stream_inv env src k s" "stream_inv env src k (s\<lparr>ses_macFailures := n\<rparr>) = stream_inv env src k s"
  "stream_inv env src k (s\<lparr>ses_replayDrops := n\<rparr>) = stream_inv env src k s" "stream_inv env src k (s\<lparr>ses_submitting := x\<rparr>) = stream_inv env src k s"
  "stream_inv env src k (s\<lparr>ses_sendPacketNo := no, ses_drawn := n\<rparr>) = stream_inv env src k s"
  "stream_inv env src k (s\<lparr>ses_lastActive := t\<rparr>) = stream_inv env src k s"
  by (simp_all add: stream_inv_def)

lemma stream_Close: "stream_inv env src k s \<Longrightarrow> stream_inv env src k (sess_Close s)"
  by (auto simp: stream_inv_def sess_Close_def buffer_close split: option.splits)

lemma stream_send [simp]:
  "stream_inv env src k (replyFromOrigPort port a w s) = stream_inv env src k s"
  "stream_inv env src k (sendToSession w s) = stream_inv env src k s"
  "stream_inv env src k (dispatchWire w s) = stream_inv env src k s"
  "stream_inv env src k (touch now s) = stream_inv env src k s"
  "stream_inv env src k (sess_setPath env' port a now s) = stream_inv env src k s"
  "stream_inv env src k (sess_updateRemoteAddr a allow s) = stream_inv env src k s"
  by (auto simp: replyFromOrigPort_def sendToSession_def dispatchWire_def touch_def sess_setPath_def sess_updateRemoteAddr_def
      Let_def split: prod.splits option.splits)

lemma stream_folds [simp]:
  "stream_inv env src k (fold dispatchWire ws s) = stream_inv env src k s"
  "stream_inv env src k (fold sendToSession ws s) = stream_inv env src k s"
  by (induction ws arbitrary: s) simp_all

lemma stream_draw: "stream_inv env src k s \<Longrightarrow> nextPacketNo s = (no, s1) \<Longrightarrow> stream_inv env src k s1"
  by (auto simp: nextPacketNo_def Let_def stream_Close split: if_splits)

lemma stream_sendControl:
  assumes "stream_inv env src k s" "\<And>w s. stream_inv env src k (send w s) = stream_inv env src k s"
  shows "stream_inv env src k (sendControl env' f send s)"
  using assms(2) stream_draw [OF assms(1)]
  by (cases "nextPacketNo s") (auto simp: sendControl_def Let_def split: option.splits)

lemma stream_encode: "stream_inv env src k s \<Longrightarrow> encodeFrame env' f s = (r, s1) \<Longrightarrow> stream_inv env src k s1"
  using stream_draw [of env src k s]
  by (cases "nextPacketNo s") (auto simp: encodeFrame_def Let_def split: option.splits if_splits)

lemma stream_cumulative: "stream_inv env src k s \<Longrightarrow> stream_inv env src k (sendCumulativeACK env' now ackSeq s)"
  by (auto simp: sendCumulativeACK_def emitFeedback_def Let_def stream_sendControl split: prod.splits if_splits)

lemma stream_acks: "stream_inv env src k s \<Longrightarrow> stream_inv env src k (fold (sendCumulativeACK env' now) acks s)"
  by (induction acks arbitrary: s) (simp_all add: stream_cumulative)

lemma stream_handleAck [simp]:
  "stream_inv env src k (handleAck now ackSeq s) = stream_inv env src k s"
  "stream_inv env src k (handleSACK now f s) = stream_inv env src k s"
proof -
  show one: "stream_inv env src k (handleAck now ackSeq s) = stream_inv env src k s" for ackSeq s
    by (simp add: handleAck_def split: prod.splits)
  show "stream_inv env src k (handleSACK now f s) = stream_inv env src k s"
    by (auto simp: handleSACK_def Let_def one split: option.splits prod.splits)
qed

lemma stream_challenge: "stream_inv env src k s \<Longrightarrow> stream_inv env src k (sendPathChallenge env' a port now rnd s)"
  by (auto simp: sendPathChallenge_def Let_def stream_sendControl split: prod.splits option.splits)

lemma stream_offer:
  assumes "stream_inv env src k s" "offer now (ses_delivery s) seq (src seq) = (ok, d, acks)"
  shows "stream_inv env src k (s\<lparr>ses_delivery := d\<rparr>)"
proof -
  obtain fresh where o: "offerObserved now (ses_delivery s) seq (src seq) = ((fresh, ok), d, acks)"
    using assms(2) by (auto simp: offer_def split: prod.splits)
  have "buffer_inv src (ses_delivery s)"
    using assms(1) by (simp add: stream_inv_def)
  from buffer_offer [OF this o] show ?thesis
    using assms(1) by (simp add: stream_inv_def)
qed

lemma stream_data:
  assumes "stream_inv env src k s" "Data f = src (Seq f)"
  shows "stream_inv env src k (snd (handleDataFromPath env' f a port now s))"
proof -
  define s2 where "s2 = (if Ack f > 0 then handleAck now (Ack f) (s\<lparr>ses_mtu := noteObservedPayload (ses_mtu s) (int (length (Data f)))\<rparr>)
      else s\<lparr>ses_mtu := noteObservedPayload (ses_mtu s) (int (length (Data f)))\<rparr>)"
  obtain ok d acks where o: "offer now (ses_delivery s2) (Seq f) (Data f) = (ok, d, acks)" by (metis prod.exhaust)
  have "stream_inv env src k s2"
    using assms(1) by (simp add: s2_def)
  then have "stream_inv env src k (s2\<lparr>ses_delivery := d\<rparr>)"
    using stream_offer o assms(2) by metis
  then have "stream_inv env src k (fold (sendCumulativeACK env' now) acks (s2\<lparr>ses_delivery := d\<rparr>))"
    by (rule stream_acks)
  then show ?thesis
    using o by (simp add: handleDataFromPath_def Let_def flip: s2_def)
qed

lemma stream_recovered:
  "stream_inv env src k s \<Longrightarrow> \<forall>(seq, p) \<in> set recovered. p = src seq
     \<Longrightarrow> stream_inv env src k (deliverRecoveredFEC env' recovered a port now s)"
  unfolding deliverRecoveredFEC_def
  by (induction recovered arbitrary: s) (auto simp: stream_data sessionFrame_def split_beta)

lemma stream_onData:
  assumes "stream_inv env src k s" "Data f = src (Seq f)"
  shows "stream_inv env src k (sess_onData env f a port now s)"
proof (cases "ses_fecRecv s")
  case (Some r)
  obtain r' out where o: "onData (ev_rs env) r (Seq f) (src (Seq f)) now = (r', out)" by (metis prod.exhaust)
  have "recv_inv (ev_rs env) src r"
    using assms(1) Some by (simp add: stream_inv_def)
  from onData_inv [OF this o]
  have "recv_inv (ev_rs env) src r' \<and> fr_extParity r' = fr_extParity r \<and> (\<forall>(seq, p) \<in> set out. p = src seq)" .
  moreover from this have "stream_inv env src k (s\<lparr>ses_fecRecv := Some r'\<rparr>)"
    using assms(1) Some by (simp add: stream_inv_def)
  ultimately show ?thesis
    using Some o assms(2) by (simp add: sess_onData_def stream_recovered)
qed (use assms in \<open>simp add: sess_onData_def\<close>)

lemma stream_onParity:
  assumes "stream_inv env src k s" "genuine_arrival (ev_rs env) src (fk_fecExt k) (ParityArrival f now)"
  shows "stream_inv env src k (sess_onParity env f a port now s)"
proof (cases "ses_fecRecv s")
  case (Some r)
  obtain r' out where o: "onParityFrame (ev_rs env) r f now = (r', out)" by (metis prod.exhaust)
  have "recv_inv (ev_rs env) src r" "fr_extParity r = fk_fecExt k"
    using assms(1) Some by (simp_all add: stream_inv_def)
  from onParityFrame_inv [OF this(1) _ o] this(2) assms(2)
  have "recv_inv (ev_rs env) src r' \<and> fr_extParity r' = fr_extParity r \<and> (\<forall>(seq, p) \<in> set out. p = src seq)" by simp
  moreover from this have "stream_inv env src k (s\<lparr>ses_fecRecv := Some r'\<rparr>)"
    using assms(1) Some by (simp add: stream_inv_def)
  ultimately show ?thesis
    using Some o by (simp add: sess_onParity_def stream_recovered)
qed (use assms in \<open>simp add: sess_onParity_def\<close>)

lemma stream_incoming:
  assumes "stream_inv env src k s" "Cmd f = CMD_DATA \<Longrightarrow> Data f = src (Seq f)"
    "Cmd f = CMD_FEC \<Longrightarrow> genuine_arrival (ev_rs env) src (fk_fecExt k) (ParityArrival f now)"
  shows "stream_inv env src k (snd (handleIncomingFrame env f a port now rnd s))"
proof -
  have "stream_inv env src k (handleControl env f a port now s1)" if "stream_inv env src k s1" for s1
    using that assms(3) by (simp add: handleControl_def stream_sendControl stream_Close stream_onParity)
  moreover have "stream_inv env src k (snd (handleDataFromPath env f a port now (sess_onData env f a port now s1)))"
    if "stream_inv env src k s1" "Cmd f = CMD_DATA" for s1
    using that assms(2) by (simp add: stream_data stream_onData)
  ultimately show ?thesis
    using assms(1) by (auto simp: handleIncomingFrame_def Let_def stream_challenge split: prod.splits)
qed

lemma stream_process:
  assumes "stream_inv env src k s" "genuine_event env src k (Inbound fp a port now rnd)"
  shows "stream_inv env src k (snd (processIncomingFrame env fp a port now rnd s))"
proof (cases rule: process_cases [of env fp a port now rnd s])
  case (handled f k' plain fs ok s')
  have "k' = k"
    using handled(2) assms(1) by (simp add: stream_inv_def)
  then have "stream_inv env src k s'"
    using stream_incoming [of env src k "s\<lparr>ses_replay := snd (Accept (ses_replay s) (PacketNo f)), ses_fecSend := fs\<rparr>"
        "f\<lparr>Data := plain\<rparr>" now a port rnd] assms handled(1,3,6) by simp
  then show ?thesis
    using handled(7) by simp
qed (use assms(1) in \<open>auto simp: reackDuplicateData_def Let_def stream_cumulative\<close>)

lemma stream_parity: "stream_inv env src k s \<Longrightarrow> stream_inv env src k (fold (sendFECParity env') shards s)"
proof (induction shards arbitrary: s)
  case (Cons p shards)
  have "stream_inv env src k (sendFECParity env' p s)"
    using Cons.prems stream_encode [OF Cons.prems]
    by (auto simp: sendFECParity_def split: option.splits prod.splits)
  then show ?case
    using Cons.IH by simp
qed simp

lemma stream_writer:
  assumes "stream_inv env src k s"
  shows "stream_inv env src k (writerTurn env' now s)"
proof (cases "runNext (ses_delivery s)")
  case (Some x)
  then obtain seq p where n: "runNext (ses_delivery s) = Some (seq, p)" by (cases x) auto
  obtain d acks where c: "runCommit (ses_delivery s) seq = (d, acks)" by (cases "runCommit (ses_delivery s) seq")
  have buf: "buffer_inv src (ses_delivery s)"
    using assms by (simp add: stream_inv_def)
  note n' = runNext_inv [OF buf n]
  have "buffer_inv src d" "od_delivered d = seq"
    using buffer_commit [OF buf n'(1)] runCommit_fields(2) [of "ses_delivery s" seq] c by simp_all
  then have "stream_inv env src k (s\<lparr>ses_delivery := d, ses_written := ses_written s @ [p]\<rparr>)"
    using assms stream_prefix_Suc [OF n'(1), of src] n'(2) by (simp add: stream_inv_def)
  then show ?thesis
    using n c by (simp add: writerTurn_def stream_acks)
qed (use assms in \<open>simp add: writerTurn_def\<close>)

lemma stream_ackTimer: "stream_inv env src k s \<Longrightarrow> stream_inv env src k (ackTimer env' now s)"
proof -
  assume inv: "stream_inv env src k s"
  obtain dl acks where f: "da_fire (od_delayed (ses_delivery s)) = (dl, acks)"
    by (cases "da_fire (od_delayed (ses_delivery s))")
  have "stream_inv env src k (s\<lparr>ses_delivery := (ses_delivery s)\<lparr>od_delayed := dl\<rparr>\<rparr>)"
    using inv by (simp add: stream_inv_def buffer_inv_def)
  then show ?thesis
    by (simp add: ackTimer_def f stream_acks)
qed

lemma stream_outgoing:
  assumes "stream_inv env src k s"
  shows "stream_inv env src k (snd (sealRecord env' payload now s))" "stream_inv env src k (submitRecord env' seq payload w s)"
    "stream_inv env src k (transmitTurn now sent s)" "stream_inv env src k (snd (retransmitTurn env' now s))"
    "stream_inv env src k (fecTimer env' gen s)"
proof -
  have "stream_inv env src k (s\<lparr>ses_send := st\<rparr>)" for st
    using assms by simp
  note enc = stream_encode [OF this]
  show "stream_inv env src k (snd (sealRecord env' payload now s))"
    using assms by (auto simp: sealRecord_def Let_def split: option.splits prod.splits dest: enc)
  show "stream_inv env src k (submitRecord env' seq payload w s)"
    using assms by (auto simp: submitRecord_def Let_def intro!: stream_parity split: option.splits prod.splits if_splits)
  show "stream_inv env src k (transmitTurn now sent s)"
    using assms by (auto simp: transmitTurn_def markBatchTransmitted_def sendToSessionBatch_def paceBurst_def Let_def
        split: option.splits)
  show "stream_inv env src k (snd (retransmitTurn env' now s))"
    using assms by (auto simp: retransmitTurn_def flushACK_def emitFeedback_def Let_def split_beta
        intro!: stream_sendControl stream_Close split: prod.splits)
  show "stream_inv env src k (fecTimer env' gen s)"
    using assms by (auto simp: fecTimer_def intro!: stream_parity split: option.splits prod.splits)
qed

lemma stream_step:
  assumes "stream_inv env src k s" "genuine_event env src k e"
  shows "stream_inv env src k (sess_step env e s)"
proof (cases e)
  case (Inbound fp a port now rnd)
  then show ?thesis
    using stream_process assms by simp
next
  case (Outgoing payload now)
  then show ?thesis
    using stream_outgoing(1) [OF assms(1), of env payload now] assms(1)
    by (cases "sealRecord env payload now s") (auto split: option.splits)
next
  case Submit
  then show ?thesis
    using stream_outgoing(2) [of env src k "s\<lparr>ses_submitting := None\<rparr>" env] assms(1) by (auto split: option.splits)
qed (simp_all add: stream_outgoing stream_writer stream_ackTimer stream_Close assms(1))

subsection \<open>What the handlers leave alone\<close>

text \<open>An observation that no update below the receive boundary affects.\<close>

locale session_observer =
  fixes obs :: "ServerSession \<Rightarrow> 'a"
  assumes obs_coalesce: "obs (s\<lparr>ses_coalesce := c\<rparr>) = obs s"
    and obs_fec: "obs (s\<lparr>ses_fecSend := fs\<rparr>) = obs s" "obs (s\<lparr>ses_fecRecv := fr\<rparr>) = obs s"
    and obs_send: "obs (s\<lparr>ses_send := st\<rparr>) = obs s" "obs (s\<lparr>ses_tx := q\<rparr>) = obs s" "obs (s\<lparr>ses_retryWake := r\<rparr>) = obs s"
    and obs_deliver: "obs (s\<lparr>ses_delivery := d\<rparr>) = obs s" "obs (s\<lparr>ses_mtu := m\<rparr>) = obs s" "obs (s\<lparr>ses_queueFullDrops := n\<rparr>) = obs s"
    and obs_record: "obs (s\<lparr>ses_sendPacketNo := no, ses_drawn := i\<rparr>) = obs s" "obs (s\<lparr>ses_sealed := ws\<rparr>) = obs s" "obs (s\<lparr>ses_out := out\<rparr>) = obs s"
    and obs_life: "obs (s\<lparr>ses_paths := p\<rparr>) = obs s" "obs (s\<lparr>ses_lastActive := t\<rparr>) = obs s"
      "\<not> ses_closed s \<Longrightarrow> obs (s\<lparr>ses_closed := True, ses_registered := False\<rparr>) = obs s"
begin

lemmas obs_updates = obs_coalesce obs_fec obs_send obs_deliver obs_record obs_life

lemma obs_primitives:
  "obs (sess_Close s) = obs s" "obs (touch now s) = obs s" "obs (replyFromOrigPort port a w s) = obs s"
  "obs (sendToSession w s) = obs s" "obs (dispatchWire w s) = obs s"
  "obs (sess_setPath env port a now s) = obs s" "obs (sess_updateRemoteAddr a allow s) = obs s"
  by (auto simp: obs_updates sess_Close_def touch_def replyFromOrigPort_def sendToSession_def dispatchWire_def sess_setPath_def
      sess_updateRemoteAddr_def Let_def split: prod.splits option.splits)

lemma obs_sendControl:
  assumes "\<And>w s. obs (send w s) = obs s"
  shows "obs (sendControl env f send s) = obs s"
  using assms by (auto simp: sendControl_def nextPacketNo_def Let_def obs_updates obs_primitives split: option.splits)

lemma obs_cumulative: "obs (sendCumulativeACK env now ackSeq s) = obs s"
  by (auto simp: sendCumulativeACK_def emitFeedback_def Let_def obs_updates obs_primitives obs_sendControl split: prod.splits if_splits)

lemma obs_acks: "obs (fold (sendCumulativeACK env now) acks s) = obs s"
  by (induction acks arbitrary: s) (simp_all add: obs_cumulative)

lemma obs_dispatches: "obs (fold dispatchWire ws s) = obs s"
  by (induction ws arbitrary: s) (simp_all add: obs_primitives)

lemma obs_handleAck: "obs (handleAck now ackSeq s) = obs s"
  by (simp add: handleAck_def obs_updates split: prod.splits)

lemma obs_handleSACK: "obs (handleSACK now f s) = obs s"
  by (auto simp: handleSACK_def Let_def obs_handleAck obs_dispatches obs_updates split: option.splits prod.splits)

lemma obs_data: "obs (snd (handleDataFromPath env f a port now s)) = obs s"
  by (auto simp: handleDataFromPath_def Let_def obs_updates obs_primitives obs_acks obs_handleAck split: prod.splits)

lemma obs_recovered: "obs (deliverRecoveredFEC env recovered a port now s) = obs s"
  unfolding deliverRecoveredFEC_def by (induction recovered arbitrary: s) (simp_all add: obs_data split_beta)

lemma obs_fec_arrivals: "obs (sess_onData env f a port now s) = obs s" "obs (sess_onParity env f a port now s) = obs s"
  by (auto simp: sess_onData_def sess_onParity_def obs_recovered obs_updates split: option.splits prod.splits)

lemma obs_challenge: "obs (sendPathChallenge env a port now rnd s) = obs s"
  by (auto simp: sendPathChallenge_def Let_def obs_sendControl obs_updates obs_primitives split: prod.splits option.splits)

lemma obs_incoming: "obs (snd (handleIncomingFrame env f a port now rnd s)) = obs s"
proof -
  have "obs (handleControl env f a port now s1) = obs s1" for s1
    by (simp add: handleControl_def obs_handleSACK obs_sendControl obs_primitives obs_fec_arrivals obs_updates)
  then show ?thesis
    by (auto simp: handleIncomingFrame_def Let_def obs_challenge obs_data obs_fec_arrivals obs_handleAck obs_primitives obs_updates
        split: prod.splits)
qed

end

text \<open>An observation that no step of the session affects.\<close>

locale session_constant = session_observer obs for obs :: "ServerSession \<Rightarrow> 'a" +
  assumes obs_boundary: "obs (s\<lparr>ses_replay := rf\<rparr>) = obs s" "obs (s\<lparr>ses_macFailures := n\<rparr>) = obs s" "obs (s\<lparr>ses_replayDrops := n\<rparr>) = obs s"
    and obs_trace: "obs (s\<lparr>ses_written := ws\<rparr>) = obs s" "obs (s\<lparr>ses_submitting := sub\<rparr>) = obs s"
begin

lemma obs_process: "obs (snd (processIncomingFrame env fp a port now rnd s)) = obs s"
proof (cases rule: process_cases [of env fp a port now rnd s])
  case (handled f k plain fs ok s')
  then show ?thesis
    using obs_incoming [of env "f\<lparr>Data := plain\<rparr>" a port now rnd
        "s\<lparr>ses_replay := snd (Accept (ses_replay s) (PacketNo f)), ses_fecSend := fs\<rparr>"]
    by (simp add: obs_updates obs_boundary)
qed (simp_all add: obs_updates obs_boundary reackDuplicateData_def obs_cumulative Let_def)

lemma obs_encode: "obs (snd (encodeFrame env f s)) = obs s"
  by (simp add: encodeFrame_def nextPacketNo_def obs_updates obs_primitives Let_def split: option.split)

lemma obs_parity: "obs (sendFECParity env p s) = obs s"
  using obs_encode by (auto simp: sendFECParity_def obs_primitives split: option.split prod.split) (metis snd_conv)+

lemma obs_parities: "obs (fold (sendFECParity env) ps s) = obs s"
  by (induction ps arbitrary: s) (simp_all add: obs_parity)

lemma obs_outgoing: "obs (snd (sealRecord env payload now s)) = obs s" "obs (submitRecord env seq payload encoded s) = obs s"
proof -
  define f where "f s1 = (sessionFrame env s1 CMD_DATA (currentAck s1) payload)
    \<lparr>Seq := ss_sendSeq (ses_send s), WindowSize := advertisedWindowFull\<rparr>" for s1
  define s1 where "s1 = s\<lparr>ses_send := (ses_send s)\<lparr>ss_sendSeq := ss_sendSeq (ses_send s) + 1\<rparr>\<rparr>"
  show "obs (snd (sealRecord env payload now s)) = obs s"
    using obs_encode [of env "f s1" s1]
    by (auto simp: sealRecord_def Let_def f_def s1_def obs_updates split: option.split prod.split)
  show "obs (submitRecord env seq payload encoded s) = obs s"
    by (simp add: submitRecord_def Let_def obs_updates obs_primitives obs_parities split: option.split prod.split)
qed

lemma obs_sends: "obs (fold sendToSession ws s) = obs s"
  by (induction ws arbitrary: s) (simp_all add: obs_primitives)

lemma obs_transmit: "obs (transmitTurn now sent s) = obs s"
  by (simp add: transmitTurn_def markBatchTransmitted_def sendToSessionBatch_def paceBurst_def Let_def obs_updates obs_sends
      split: option.split)

lemma obs_retransmit: "obs (snd (retransmitTurn env now s)) = obs s"
proof -
  have "obs (snd (flushACK env now s')) = obs s'" for s'
    by (simp add: flushACK_def emitFeedback_def Let_def obs_updates obs_sendControl obs_primitives split: prod.split option.split)
  then show ?thesis
    by (simp add: retransmitTurn_def Let_def obs_updates obs_primitives obs_dispatches obs_sendControl split_beta)
qed

lemma obs_step: "obs (sess_step env e s) = obs s"
proof (cases e)
  case (Outgoing payload now)
  then show ?thesis using obs_outgoing(1) [of env payload now s] by (auto simp: obs_trace split: option.split prod.split)
qed (simp_all add: obs_process obs_trace obs_outgoing obs_transmit obs_retransmit writerTurn_def ackTimer_def fecTimer_def obs_acks
    obs_parities obs_updates obs_primitives split: option.split prod.split)

end

interpretation replay_obs: session_observer ses_replay
  by unfold_locales simp_all

interpretation keys_obs: session_constant ses_frameKeys
  by unfold_locales simp_all

interpretation id_obs: session_constant ses_sessionID
  by unfold_locales simp_all

text \<open>A registered session is open: closing takes the registration away in the same step.\<close>

interpretation life_obs: session_constant "\<lambda>s. ses_registered s \<and> ses_closed s"
  by unfold_locales simp_all

lemma accept_remove:
  assumes "replay_inv rf" "fst (Accept rf p)"
  shows "replay_inv (Remove (snd (Accept rf p)) p)" "\<not> Seen (Remove (snd (Accept rf p)) p) p"
proof -
  note a = acceptLocked_refines [OF assms(1), of p]
  have inv: "replay_inv (snd (Accept rf p))"
    using a(1) by (simp add: Accept_def)
  show "replay_inv (Remove (snd (Accept rf p)) p)"
    by (rule Remove_refines(1) [OF inv])
  have "fst (spec_accept (replay_abs rf) (unat p))" "replay_abs (snd (Accept rf p)) = snd (spec_accept (replay_abs rf) (unat p))"
    using a(2) assms(2) by (simp_all add: Accept_def)
  then have "\<not> spec_rejects (spec_remove (replay_abs (snd (Accept rf p))) (unat p)) (unat p)"
    by (auto simp: spec_accept_def spec_rejects_def spec_remove_def Let_def replayWindowPackets_def max_def split: if_splits)
  then show "\<not> Seen (Remove (snd (Accept rf p)) p) p"
    using Seen_refines [OF Remove_refines(1) [OF inv, of p], of p] Remove_refines(2) [OF inv, of p] by simp
qed

subsection \<open>The sample session\<close>

lemma sample_data_facts:
  "OpenFrameAEAD sample_crypto (Some sample_data) (Some (replicate 32 2)) = Inr (sample_src 1)"
  "validSessionFrameShape (Some sample_data)"
  by (simp_all add: sample_data_def open_sealed_frame sample_crypto_ok(1))
    (simp add: validSessionFrameShape_def sample_frame_def cmd_defs)

lemma sample_session_facts:
  "ses_frameKeys sample_session = Some sample_keys" "ses_replay sample_session = newReplayFilter"
  "ss_flow (ses_send sample_session) = None" "ses_fecSend sample_session = None" "ses_fecRecv sample_session = None"
  "ses_sendPacketNo sample_session = 0" "ses_closed sample_session = False"
  by (simp_all add: sample_session_def newServerSession_def sample_keys_def)

lemma sample_accept: "Accept newReplayFilter 1 = (True, newReplayFilter\<lparr>seenMax := True, maxSeq := 1, window := (window newReplayFilter)[0 := 1]\<rparr>)"
  by (simp add: Accept_def acceptLocked_def newReplayFilter_def)

lemma sample_process:
  "processIncomingFrame sample_env (Some sample_data) a port now rnd sample_session =
     (case handleIncomingFrame sample_env (sample_data\<lparr>Data := sample_src 1\<rparr>) a port now rnd
          (sample_session\<lparr>ses_replay := newReplayFilter\<lparr>seenMax := True, maxSeq := 1, window := (window newReplayFilter)[0 := 1]\<rparr>\<rparr>) of
        (True, s) \<Rightarrow> (True, s) | (False, s) \<Rightarrow> (False, s\<lparr>ses_replay := Remove (ses_replay s) 1\<rparr>))"
  using sample_data_facts
  by (simp add: processIncomingFrame_def verifyInboundFrame_def sample_session_facts sample_keys_def sample_env_def Let_def)
    (simp add: sample_data_def sample_frame_def sample_accept cmd_defs split: prod.splits bool.splits)

section \<open>Properties\<close>



text \<open>C9: a refused DATA frame can be sent again.  When the receive boundary refuses an authentic DATA
  frame that was not seen before, because the delivery queue is full or the sender's new path is
  not validated yet, the replay filter treats the byte-identical retransmission as fresh and the
  session's keys are unchanged; an accepted one is not accepted a second time.\<close>

theorem data_replay_rollback:
  assumes "replay_inv (ses_replay s)" "processIncomingFrame env (Some f) remoteAddr origPort now rnd s = (ok, s')"
    "Cmd f = CMD_DATA" "\<not> Seen (ses_replay s) (PacketNo f)"
  shows "replay_inv (ses_replay s') \<and> Seen (ses_replay s') (PacketNo f) = ok \<and> ses_frameKeys s' = ses_frameKeys s"
proof (cases rule: process_cases [of env "Some f" remoteAddr origPort now rnd s])
  case (handled f' k plain fs ok' s1)
  define s0 where "s0 = s\<lparr>ses_replay := snd (Accept (ses_replay s) (PacketNo f)), ses_fecSend := fs\<rparr>"
  have h: "handleIncomingFrame env (f\<lparr>Data := plain\<rparr>) remoteAddr origPort now rnd s0 = (ok, s1)"
    and s': "s' = (if \<not> ok then s1\<lparr>ses_replay := Remove (ses_replay s1) (PacketNo f)\<rparr> else s1)"
    using handled(1,6,7) assms(2,3) by (auto simp: s0_def split: if_splits)
  have "ses_replay s1 = snd (Accept (ses_replay s) (PacketNo f))" "ses_frameKeys s1 = ses_frameKeys s"
    using replay_obs.obs_incoming [of env "f\<lparr>Data := plain\<rparr>" remoteAddr origPort now rnd s0]
      keys_obs.obs_incoming [of env "f\<lparr>Data := plain\<rparr>" remoteAddr origPort now rnd s0] h by (simp_all add: s0_def)
  moreover have acc: "fst (Accept (ses_replay s) (PacketNo f))"
    using handled(1,5) by simp
  moreover have "replay_inv (snd (Accept (ses_replay s) (PacketNo f)))" "Seen (snd (Accept (ses_replay s) (PacketNo f))) (PacketNo f)"
    using replay.accept_inv [OF assms(1)] replay.accept_marks [OF assms(1)] by auto
  ultimately show ?thesis
    using accept_remove [OF assms(1) acc] s' by simp
qed (use assms Accept_iff [OF assms(1)] in auto)

theorem data_replay_rollback_witness:
  "\<exists>s'. processIncomingFrame sample_env (Some sample_data) (sample_addr\<lparr>ap_addr := [10, 0, 0, 2]\<rparr>) 9000 5 None sample_session = (False, s')
     \<and> \<not> Seen (ses_replay s') 1"
proof -
  define a where "a = sample_addr\<lparr>ap_addr := [10, 0, 0, 2]\<rparr>"
  have "\<exists>s'. processIncomingFrame sample_env (Some sample_data) a 9000 5 None sample_session = (False, s')"
    by (simp add: sample_process)
      (simp add: sample_data_def sample_frame_def cmd_defs handleIncomingFrame_def sameRemoteIP_def sample_session_def
        newServerSession_def newPaths_def a_def sample_addr_def)
  then obtain s' where s': "processIncomingFrame sample_env (Some sample_data) a 9000 5 None sample_session = (False, s')" by blast
  have "replay_inv (ses_replay sample_session)" "Cmd sample_data = CMD_DATA" "PacketNo sample_data = 1"
    by (simp_all add: sample_session_facts replay_new sample_data_def sample_frame_def cmd_defs)
  moreover have "\<not> Seen (ses_replay sample_session) 1"
    by (simp add: sample_session_facts Seen_def newReplayFilter_def)
  ultimately show ?thesis
    using data_replay_rollback [of sample_session sample_env sample_data a 9000 5 None False s'] s' unfolding a_def [symmetric] by auto
qed

end
