(* ===== verification/SynGuard.thy ===== *)
theory SynGuard
  imports Prelude "HOL-Library.AList"
begin

text \<open>
  The two tables that protect the handshake (\<^verbatim>\<open>tunnel/server.go\<close>, lines 2685--2894): the cache of
  verified handshakes, which answers a repeated SYN without a second session, and the token
  bucket per source address.  Go maps are association lists with distinct keys whose order is
  the iteration order; each operation runs under the table's mutex and is one function.  Token
  counts are exact rationals.
\<close>

section \<open>Definitions\<close>

subsection \<open>The handshake cache\<close>

definition synCacheTTL :: duration where "synCacheTTL = 600 * second"
definition synCacheMax :: nat where "synCacheMax = 4096"
definition synTimestampWindow :: int where "synTimestampWindow = 300"

record synCacheKey =
  key_nonce :: bytes
  key_pskID :: bytes

definition makeSynCacheKey :: "bytes \<Rightarrow> bytes \<Rightarrow> synCacheKey" where
  "makeSynCacheKey nonce synMACKey = \<lparr> key_nonce = nonce, key_pskID = take 16 synMACKey \<rparr>"

record 'ip synRecord =
  rec_ackFrame :: "bytes option"
  rec_createdAt :: int
  rec_ownerIP :: 'ip

type_synonym synFIFOEntry = "synCacheKey \<times> int"

record 'ip synCache =
  sc_entries :: "(synCacheKey \<times> 'ip synRecord) list"
  sc_fifo :: "synFIFOEntry list"

definition newSynCache :: "'ip synCache" where
  "newSynCache = \<lparr> sc_entries = [], sc_fifo = [] \<rparr>"

definition liveItem :: "(synCacheKey \<times> 'ip synRecord) list \<Rightarrow> synFIFOEntry \<Rightarrow> bool" where
  "liveItem es item = (case map_of es (fst item) of None \<Rightarrow> False | Some r \<Rightarrow> rec_createdAt r = snd item)"

fun evictOldest :: "(synCacheKey \<times> 'ip synRecord) list \<Rightarrow> synFIFOEntry list \<Rightarrow> (synCacheKey \<times> 'ip synRecord) list \<times> synFIFOEntry list" where
  "evictOldest es [] = (es, [])"
| "evictOldest es (oldest # fifo) =
     (if synCacheMax \<le> length es
      then evictOldest (if liveItem es oldest then AList.delete (fst oldest) es else es) fifo
      else (es, oldest # fifo))"

definition makeSpaceLocked :: "int \<Rightarrow> 'ip synCache \<Rightarrow> 'ip synCache" where
  "makeSpaceLocked now c =
     (let fresh = filter (\<lambda>(_, r). \<not> synCacheTTL < now - rec_createdAt r) (sc_entries c);
          (es, fifo) = evictOldest fresh (sc_fifo c)
      in \<lparr> sc_entries = es, sc_fifo = (if 2 * synCacheMax < length fifo then filter (liveItem es) fifo else fifo) \<rparr>)"

definition reserve :: "'ip synCache \<Rightarrow> synCacheKey \<Rightarrow> int \<Rightarrow> 'ip \<Rightarrow> 'ip synCache" where
  "reserve c key now ip = (let c' = makeSpaceLocked now c in
     \<lparr> sc_entries = AList.update key \<lparr> rec_ackFrame = None, rec_createdAt = now, rec_ownerIP = ip \<rparr> (sc_entries c'),
       sc_fifo = sc_fifo c' @ [(key, now)] \<rparr>)"

definition Acquire :: "'ip synCache \<Rightarrow> synCacheKey \<Rightarrow> int \<Rightarrow> 'ip \<Rightarrow> (bytes option \<times> bool) \<times> 'ip synCache" where
  "Acquire c key now ip = (case map_of (sc_entries c) key of
       Some r \<Rightarrow>
         if now - rec_createdAt r \<le> synCacheTTL
         then (if rec_ackFrame r \<noteq> None \<and> rec_ownerIP r = ip then ((rec_ackFrame r, False), c) else ((None, False), c))
         else ((None, True), reserve (c\<lparr>sc_entries := AList.delete key (sc_entries c)\<rparr>) key now ip)
     | None \<Rightarrow> ((None, True), reserve c key now ip))"

definition Complete :: "'ip synCache \<Rightarrow> synCacheKey \<Rightarrow> bytes \<Rightarrow> 'ip synCache" where
  "Complete c key ack = (case map_of (sc_entries c) key of
       Some r \<Rightarrow> if rec_ackFrame r = None
         then c\<lparr>sc_entries := AList.update key (r\<lparr>rec_ackFrame := (if ack = [] then None else Some ack)\<rparr>) (sc_entries c)\<rparr>
         else c
     | None \<Rightarrow> c)"

definition Abort :: "'ip synCache \<Rightarrow> synCacheKey \<Rightarrow> 'ip synCache" where
  "Abort c key = (case map_of (sc_entries c) key of
       Some r \<Rightarrow> if rec_ackFrame r = None then c\<lparr>sc_entries := AList.delete key (sc_entries c)\<rparr> else c
     | None \<Rightarrow> c)"

text \<open>The clock check of \<^verbatim>\<open>handleHandshake\<close>: \<^verbatim>\<open>time.Now().Unix()\<close> drops the fraction of the second.\<close>

definition synTimeOk :: "int \<Rightarrow> int \<Rightarrow> bool" where
  "synTimeOk timestamp now = (let unix = now div second in
     \<not> (timestamp < unix - synTimestampWindow \<or> unix + synTimestampWindow < timestamp))"

subsection \<open>The token buckets\<close>

definition synRatePerSec :: rat where "synRatePerSec = 5"
definition synBurst :: rat where "synBurst = 20"
definition synLimiterMaxBuckets :: nat where "synLimiterMaxBuckets = 1024"

record synBucket =
  bk_tokens :: rat
  bk_last :: int

record synLimiter =
  lim_buckets :: "(string \<times> synBucket) list"
  lim_rate :: rat
  lim_burst :: rat

definition newSynLimiter :: "rat \<Rightarrow> rat \<Rightarrow> synLimiter" where
  "newSynLimiter ratePerSec burst =
     \<lparr> lim_buckets = [], lim_rate = (if ratePerSec \<le> 0 then 5 else ratePerSec), lim_burst = (if burst < 1 then 10 else burst) \<rparr>"

fun oldestBucket :: "(string \<times> int) option \<Rightarrow> (string \<times> synBucket) list \<Rightarrow> (string \<times> int) option" where
  "oldestBucket acc [] = acc"
| "oldestBucket acc ((k, ob) # bs) = oldestBucket (case acc of
       None \<Rightarrow> Some (k, bk_last ob)
     | Some (_, oldest) \<Rightarrow> if bk_last ob < oldest then Some (k, bk_last ob) else acc) bs"

definition pruneBuckets :: "int \<Rightarrow> (string \<times> synBucket) list \<Rightarrow> (string \<times> synBucket) list" where
  "pruneBuckets now bs =
     (if length bs < synLimiterMaxBuckets then bs
      else let fresh = filter (\<lambda>(_, ob). \<not> 60 * second < now - bk_last ob) bs in
        if length fresh < synLimiterMaxBuckets then fresh
        else case oldestBucket None fresh of None \<Rightarrow> AList.delete [] fresh | Some (k, _) \<Rightarrow> AList.delete k fresh)"

definition refill :: "synLimiter \<Rightarrow> int \<Rightarrow> synBucket \<Rightarrow> rat" where
  "refill l now b = (let tokens = bk_tokens b + of_int (now - bk_last b) / of_int second * lim_rate l in
     if lim_burst l < tokens then lim_burst l else tokens)"

definition Allow :: "synLimiter \<Rightarrow> string \<Rightarrow> int \<Rightarrow> bool \<times> synLimiter" where
  "Allow l ip now =
     (let (bs, b) = (case map_of (lim_buckets l) ip of
            Some b \<Rightarrow> (lim_buckets l, b)
          | None \<Rightarrow> (pruneBuckets now (lim_buckets l), \<lparr> bk_tokens = lim_burst l, bk_last = now \<rparr>));
          tokens = refill l now b
      in if tokens < 1 then (False, l\<lparr>lim_buckets := AList.update ip \<lparr> bk_tokens = tokens, bk_last = now \<rparr> bs\<rparr>)
         else (True, l\<lparr>lim_buckets := AList.update ip \<lparr> bk_tokens = tokens - 1, bk_last = now \<rparr> bs\<rparr>))"

subsection \<open>Histories\<close>

datatype 'ip syn_event = SynAcquire synCacheKey int 'ip | SynComplete synCacheKey bytes | SynAbort synCacheKey

fun syn_step :: "'ip syn_event \<Rightarrow> 'ip synCache \<Rightarrow> 'ip synCache" where
  "syn_step (SynAcquire key now ip) c = snd (Acquire c key now ip)"
| "syn_step (SynComplete key ack) c = Complete c key ack"
| "syn_step (SynAbort key) c = Abort c key"

definition syn_run :: "'ip syn_event list \<Rightarrow> 'ip synCache \<Rightarrow> 'ip synCache" where
  "syn_run es c = fold syn_step es c"

text \<open>The acknowledgement that a history publishes for a key: the first completion.\<close>

fun first_ack :: "synCacheKey \<Rightarrow> 'ip syn_event list \<Rightarrow> bytes option" where
  "first_ack key [] = None"
| "first_ack key (SynComplete k ack # es) = (if k = key \<and> ack \<noteq> [] then Some ack else first_ack key es)"
| "first_ack key (e # es) = first_ack key es"

text \<open>A history within the lifetime of a reservation made at \<open>t0\<close>: its acquisitions are not late,
  and it does not abort the key.\<close>

fun timely :: "synCacheKey \<Rightarrow> int \<Rightarrow> 'ip syn_event \<Rightarrow> bool" where
  "timely key t0 (SynAcquire k now ip) = (now \<le> t0 + synCacheTTL)"
| "timely key t0 (SynComplete k ack) = True"
| "timely key t0 (SynAbort k) = (k \<noteq> key)"

fun is_acquire :: "'ip syn_event \<Rightarrow> bool" where
  "is_acquire (SynAcquire k now ip) = True"
| "is_acquire (SynComplete k ack) = False"
| "is_acquire (SynAbort k) = False"

definition acquires :: "'ip syn_event list \<Rightarrow> nat" where
  "acquires es = length (filter is_acquire es)"

text \<open>Requests to the limiter in sequence, and the grants of one source.\<close>

fun allow_run :: "synLimiter \<Rightarrow> (string \<times> int) list \<Rightarrow> bool list \<times> synLimiter" where
  "allow_run l [] = ([], l)"
| "allow_run l ((ip, now) # reqs) = (case Allow l ip now of
     (ok, l') \<Rightarrow> (case allow_run l' reqs of (oks, l'') \<Rightarrow> (ok # oks, l'')))"

definition grants :: "string \<Rightarrow> (string \<times> int) list \<Rightarrow> bool list \<Rightarrow> nat" where
  "grants ip reqs oks = length (filter (\<lambda>((src, _), ok). src = ip \<and> ok) (zip reqs oks))"

text \<open>The credit of a source: what it may still be granted, less what time has refilled.\<close>

definition credit :: "string \<Rightarrow> int \<Rightarrow> synLimiter \<Rightarrow> rat" where
  "credit ip t0 l = (case map_of (lim_buckets l) ip of
       None \<Rightarrow> lim_burst l - of_int t0 / of_int second * lim_rate l
     | Some b \<Rightarrow> bk_tokens b - of_int (bk_last b) / of_int second * lim_rate l)"

definition buckets_ok :: "int \<Rightarrow> synLimiter \<Rightarrow> bool" where
  "buckets_ok t l \<longleftrightarrow> 0 < lim_rate l \<and> 1 \<le> lim_burst l \<and> distinct (map fst (lim_buckets l))
     \<and> (\<forall>ip b. map_of (lim_buckets l) ip = Some b \<longrightarrow> 0 \<le> bk_tokens b \<and> bk_last b \<le> t)"

text \<open>Every cached handshake is queued for eviction, and the cache is within its capacity.\<close>

definition queued :: "(synCacheKey \<times> 'ip synRecord) list \<Rightarrow> synFIFOEntry list \<Rightarrow> bool" where
  "queued es fifo \<longleftrightarrow> distinct (map fst es) \<and> (\<forall>k r. map_of es k = Some r \<longrightarrow> (k, rec_createdAt r) \<in> set fifo)"

definition cache_ok :: "'ip synCache \<Rightarrow> bool" where
  "cache_ok c \<longleftrightarrow> queued (sc_entries c) (sc_fifo c) \<and> length (sc_entries c) \<le> synCacheMax"

text \<open>The state of one reservation: still cached, with at most \<open>n\<close> later insertions queued
  behind it.\<close>

definition reserved :: "synCacheKey \<Rightarrow> int \<Rightarrow> 'ip \<Rightarrow> bytes option \<Rightarrow> nat \<Rightarrow> 'ip synCache \<Rightarrow> bool" where
  "reserved key t0 ip ack n c \<longleftrightarrow> cache_ok c
     \<and> map_of (sc_entries c) key = Some \<lparr> rec_ackFrame = ack, rec_createdAt = t0, rec_ownerIP = ip \<rparr>
     \<and> (\<exists>pre post. sc_fifo c = pre @ (key, t0) # post \<and> (key, t0) \<notin> set pre \<and> length post \<le> n)"

text \<open>A sample key.\<close>

definition syn_key :: synCacheKey where
  "syn_key = \<lparr> key_nonce = [1], key_pskID = [2] \<rparr>"

section \<open>Lemmas\<close>

lemma filter_lookup_iff:
  assumes "distinct (map fst xs)"
  shows "map_of (filter P xs) k = Some v \<longleftrightarrow> map_of xs k = Some v \<and> P (k, v)"
proof -
  have "distinct (map fst (filter P xs))" using assms by (rule distinct_map_filter)
  then show ?thesis using assms by auto
qed

lemma queuedD: "queued es fifo \<Longrightarrow> map_of es k = Some r \<Longrightarrow> (k, rec_createdAt r) \<in> set fifo"
  by (simp add: queued_def)

lemma queued_filter: "queued es fifo \<Longrightarrow> queued (filter P es) fifo"
  unfolding queued_def by (simp add: distinct_map_filter filter_lookup_iff del: map_of_eq_Some_iff)

lemma queued_pop:
  assumes "queued es (item # fifo)"
  shows "queued (if liveItem es item then AList.delete (fst item) es else es) fifo"
proof -
  obtain k0 t where item: "item = (k0, t)" by (cases item)
  define es' where "es' = (if liveItem es item then AList.delete (fst item) es else es)"
  have m: "map_of es' = (if liveItem es item then (map_of es)(k0 := None) else map_of es)"
    by (simp add: es'_def delete_conv' item)
  have "distinct (map fst es')" using assms by (simp add: queued_def es'_def distinct_delete)
  moreover have "(k, rec_createdAt r) \<in> set fifo" if r: "map_of es' k = Some r" for k r
  proof -
    have "map_of es k = Some r" using r by (auto simp: m split: if_splits)
    then have "(k, rec_createdAt r) = item \<or> (k, rec_createdAt r) \<in> set fifo" using queuedD [OF assms] by fastforce
    moreover have "(k, rec_createdAt r) \<noteq> item"
      using r \<open>map_of es k = Some r\<close> by (auto simp: m item liveItem_def split: if_splits)
    ultimately show ?thesis by blast
  qed
  ultimately show ?thesis by (simp add: queued_def es'_def)
qed

lemma queued_length: "queued es fifo \<Longrightarrow> length es \<le> length fifo"
proof -
  assume q: "queued es fifo"
  have "set (map fst es) \<subseteq> set (map fst fifo)"
  proof
    fix k assume "k \<in> set (map fst es)"
    then obtain r where "map_of es k = Some r" by (metis map_of_eq_None_iff not_None_eq set_map)
    then show "k \<in> set (map fst fifo)" using queuedD [OF q] by force
  qed
  then have "card (set (map fst es)) \<le> card (set (map fst fifo))" by (simp add: card_mono)
  also have "\<dots> \<le> length fifo" using card_length [of "map fst fifo"] by simp
  finally show ?thesis using q by (simp add: queued_def distinct_card flip: set_map)
qed

lemma evictOldest_ok:
  assumes "queued es fifo" "evictOldest es fifo = (es', fifo')"
  shows "queued es' fifo'" "length es' < synCacheMax" "length fifo' \<le> length fifo"
proof -
  have "queued es' fifo' \<and> length es' < synCacheMax \<and> length fifo' \<le> length fifo"
    using assms
  proof (induction es fifo rule: evictOldest.induct)
    case (1 es)
    then show ?case using queued_length [OF 1(1)] by (auto simp: synCacheMax_def)
  next
    case (2 es oldest fifo)
    then show ?case using queued_pop [OF 2(2)] by (auto split: if_splits)
  qed
  then show "queued es' fifo'" "length es' < synCacheMax" "length fifo' \<le> length fifo" by auto
qed

lemma evictOldest_keeps:
  "queued es fifo \<Longrightarrow> evictOldest es fifo = (es', fifo') \<Longrightarrow> map_of es key = Some r \<Longrightarrow> rec_createdAt r = t0 \<Longrightarrow>
   fifo = pre @ (key, t0) # post \<Longrightarrow> (key, t0) \<notin> set pre \<Longrightarrow> Suc (length post) < synCacheMax \<Longrightarrow>
   map_of es' key = Some r \<and> (\<exists>pre'. fifo' = pre' @ (key, t0) # post \<and> (key, t0) \<notin> set pre')"
proof (induction es fifo arbitrary: pre rule: evictOldest.induct)
  case (2 es oldest fifo)
  show ?case
  proof (cases "synCacheMax \<le> length es")
    case True
    have "pre \<noteq> []" using queued_length [OF 2(2)] True 2(6,8) by auto
    then obtain p where p: "pre = oldest # p" using 2(6) by (cases pre) auto
    define es1 where "es1 = (if liveItem es oldest then AList.delete (fst oldest) es else es)"
    have "oldest \<noteq> (key, t0)" using 2(7) p by auto
    then have "map_of es1 key = Some r"
      using 2(4,5) by (cases oldest) (auto simp: es1_def liveItem_def delete_conv)
    moreover have "queued es1 fifo" using queued_pop [OF 2(2)] by (simp add: es1_def)
    moreover have "evictOldest es1 fifo = (es', fifo')" using 2(3) True by (simp add: es1_def)
    ultimately show ?thesis using 2(1) [OF True] 2(5-8) p by (auto simp: es1_def)
  next
    case False
    then have "es' = es" "fifo' = oldest # fifo" using 2(3) by simp_all
    then show ?thesis using 2(4-7) by auto
  qed
qed simp

lemma makeSpace_ok:
  assumes "queued (sc_entries c) (sc_fifo c)"
  shows "queued (sc_entries (makeSpaceLocked now c)) (sc_fifo (makeSpaceLocked now c))"
    "length (sc_entries (makeSpaceLocked now c)) < synCacheMax"
proof -
  define fresh where "fresh = filter (\<lambda>(_, r). \<not> synCacheTTL < now - rec_createdAt r) (sc_entries c)"
  obtain es fifo where ev: "evictOldest fresh (sc_fifo c) = (es, fifo)" by (cases "evictOldest fresh (sc_fifo c)")
  have "queued fresh (sc_fifo c)" unfolding fresh_def by (rule queued_filter [OF assms])
  note ok = evictOldest_ok [OF this ev]
  have c': "makeSpaceLocked now c = \<lparr> sc_entries = es, sc_fifo = (if 2 * synCacheMax < length fifo then filter (liveItem es) fifo else fifo) \<rparr>"
    using ev by (simp add: makeSpaceLocked_def fresh_def)
  have "queued es (filter (liveItem es) fifo)" using ok(1) by (auto simp: queued_def liveItem_def)
  then show "queued (sc_entries (makeSpaceLocked now c)) (sc_fifo (makeSpaceLocked now c))"
    "length (sc_entries (makeSpaceLocked now c)) < synCacheMax" using ok by (auto simp: c')
qed

lemma makeSpace_keeps:
  assumes "queued (sc_entries c) (sc_fifo c)" "map_of (sc_entries c) key = Some r" "rec_createdAt r = t0" "now \<le> t0 + synCacheTTL"
    and "sc_fifo c = pre @ (key, t0) # post" "(key, t0) \<notin> set pre" "Suc (length post) < synCacheMax"
  shows "map_of (sc_entries (makeSpaceLocked now c)) key = Some r"
    "\<exists>pre' post'. sc_fifo (makeSpaceLocked now c) = pre' @ (key, t0) # post' \<and> (key, t0) \<notin> set pre' \<and> length post' \<le> length post"
proof -
  define fresh where "fresh = filter (\<lambda>(_, r). \<not> synCacheTTL < now - rec_createdAt r) (sc_entries c)"
  obtain es fifo where ev: "evictOldest fresh (sc_fifo c) = (es, fifo)" by (cases "evictOldest fresh (sc_fifo c)")
  have q: "queued fresh (sc_fifo c)" unfolding fresh_def by (rule queued_filter [OF assms(1)])
  have "map_of fresh key = Some r" unfolding fresh_def
    using assms(1-4) by (subst filter_lookup_iff) (simp_all add: queued_def)
  from evictOldest_keeps [OF q ev this assms(3,5-7)]
  obtain pre' where k: "map_of es key = Some r" "fifo = pre' @ (key, t0) # post" "(key, t0) \<notin> set pre'" by blast
  have c': "makeSpaceLocked now c = \<lparr> sc_entries = es, sc_fifo = (if 2 * synCacheMax < length fifo then filter (liveItem es) fifo else fifo) \<rparr>"
    using ev by (simp add: makeSpaceLocked_def fresh_def)
  show "map_of (sc_entries (makeSpaceLocked now c)) key = Some r" using k by (simp add: c')
  have "liveItem es (key, t0)" using k(1) assms(3) by (simp add: liveItem_def)
  then have f: "filter (liveItem es) fifo = filter (liveItem es) pre' @ (key, t0) # filter (liveItem es) post" using k(2) by simp
  show "\<exists>pre' post'. sc_fifo (makeSpaceLocked now c) = pre' @ (key, t0) # post' \<and> (key, t0) \<notin> set pre' \<and> length post' \<le> length post"
  proof (cases "2 * synCacheMax < length fifo")
    case True
    then show ?thesis using f k(3) by (intro exI [of _ "filter (liveItem es) pre'"] exI [of _ "filter (liveItem es) post"]) (simp add: c')
  next
    case False
    then show ?thesis using k by (intro exI [of _ pre'] exI [of _ post]) (simp add: c')
  qed
qed

text \<open>The three outcomes of an acquisition.\<close>

lemma Acquire_cases:
  obtains (hit) r where "map_of (sc_entries c) key = Some r" "now - rec_createdAt r \<le> synCacheTTL"
      "Acquire c key now ip = ((if rec_ownerIP r = ip then rec_ackFrame r else None, False), c)"
  | (stale) r where "map_of (sc_entries c) key = Some r" "synCacheTTL < now - rec_createdAt r"
      "Acquire c key now ip = ((None, True), reserve (c\<lparr>sc_entries := AList.delete key (sc_entries c)\<rparr>) key now ip)"
  | (new) "map_of (sc_entries c) key = None" "Acquire c key now ip = ((None, True), reserve c key now ip)"
proof (cases "map_of (sc_entries c) key")
  case None
  then show ?thesis using new by (simp add: Acquire_def)
next
  case (Some r)
  then show ?thesis
    using hit [of r] stale [of r] by (cases "now - rec_createdAt r \<le> synCacheTTL") (auto simp: Acquire_def)
qed

lemma queued_delete: "queued es fifo \<Longrightarrow> queued (AList.delete k es) fifo"
  using distinct_delete by (auto simp: queued_def delete_conv' split: if_splits)

lemma length_update_le: "length (AList.update k v es) \<le> Suc (length es)"
  by (induction es) auto

lemma length_update_mem: "k \<in> fst ` set es \<Longrightarrow> length (AList.update k v es) = length es"
  by (induction es) auto

lemma reserve_ok: "queued (sc_entries c) (sc_fifo c) \<Longrightarrow> cache_ok (reserve c key now ip)"
  using makeSpace_ok [of c now] length_update_le [of key "\<lparr> rec_ackFrame = None, rec_createdAt = now, rec_ownerIP = ip \<rparr>" "sc_entries (makeSpaceLocked now c)"]
  by (auto simp: reserve_def cache_ok_def Let_def queued_def distinct_update update_conv' simp del: map_of_eq_Some_iff)

lemma cache_ok_step: "cache_ok c \<Longrightarrow> cache_ok (syn_step e c)"
proof (cases e)
  case (SynAcquire k now ip)
  assume ok: "cache_ok c"
  then have "queued (sc_entries c) (sc_fifo c)" by (simp add: cache_ok_def)
  then show ?thesis
    using ok SynAcquire by (cases rule: Acquire_cases [of c k now ip]) (auto intro!: reserve_ok simp: queued_delete)
next
  case (SynComplete k ack)
  assume ok: "cache_ok c"
  show ?thesis
  proof (cases "map_of (sc_entries c) k")
    case (Some r)
    then have "k \<in> fst ` set (sc_entries c)" by (force dest: map_of_SomeD)
    then have "length (AList.update k v (sc_entries c)) = length (sc_entries c)" for v
      by (rule length_update_mem)
    then show ?thesis using ok Some SynComplete
      by (auto simp: Complete_def cache_ok_def queued_def distinct_update update_conv' simp del: map_of_eq_Some_iff)
  qed (use ok SynComplete in \<open>simp add: Complete_def\<close>)
next
  case (SynAbort k)
  assume ok: "cache_ok c"
  then show ?thesis
    using SynAbort length_delete_le [of k "sc_entries c"]
    by (auto simp: Abort_def cache_ok_def queued_delete split: option.splits)
qed

lemma cache_ok_run: "cache_ok c \<Longrightarrow> cache_ok (syn_run es c)"
  by (induction es arbitrary: c) (simp_all add: syn_run_def cache_ok_step)

lemma cache_ok_new: "cache_ok newSynCache"
  by (simp add: cache_ok_def newSynCache_def queued_def synCacheMax_def)

lemma reserved_reserve:
  assumes "reserved key t0 ip ack n c" "k \<noteq> key" "now \<le> t0 + synCacheTTL" "Suc n < synCacheMax"
    and "es = sc_entries c \<or> es = AList.delete k (sc_entries c)"
  shows "reserved key t0 ip ack (Suc n) (reserve (c\<lparr>sc_entries := es\<rparr>) k now ip')"
proof -
  define c1 where "c1 = c\<lparr>sc_entries := es\<rparr>"
  obtain pre post where f: "sc_fifo c1 = pre @ (key, t0) # post" "(key, t0) \<notin> set pre" "length post \<le> n"
    using assms(1) by (auto simp: reserved_def c1_def)
  have q: "queued (sc_entries c1) (sc_fifo c1)" using assms(1,5) queued_delete by (auto simp: reserved_def cache_ok_def c1_def)
  have m: "map_of (sc_entries c1) key = Some \<lparr> rec_ackFrame = ack, rec_createdAt = t0, rec_ownerIP = ip \<rparr>"
    using assms(1,2,5) by (auto simp: reserved_def c1_def delete_conv' simp del: map_of_eq_Some_iff)
  have "Suc (length post) < synCacheMax" using f(3) assms(4) by simp
  note k = makeSpace_keeps [OF q m _ assms(3) f(1,2) this]
  then obtain pre' post' where f': "sc_fifo (makeSpaceLocked now c1) = pre' @ (key, t0) # post'" "(key, t0) \<notin> set pre'" "length post' \<le> length post"
    by auto
  have "sc_fifo (reserve c1 k now ip') = pre' @ (key, t0) # (post' @ [(k, now)])" by (simp add: reserve_def Let_def f')
  moreover have "length (post' @ [(k, now)]) \<le> Suc n" using f'(3) f(3) by simp
  moreover have "map_of (sc_entries (reserve c1 k now ip')) key = Some \<lparr> rec_ackFrame = ack, rec_createdAt = t0, rec_ownerIP = ip \<rparr>"
    using k(1) assms(2) by (simp add: reserve_def Let_def update_conv' del: map_of_eq_Some_iff)
  ultimately show ?thesis using f'(2) reserve_ok [OF q] unfolding reserved_def c1_def [symmetric] by blast
qed

lemma reserved_mono: "reserved key t0 ip ack n c \<Longrightarrow> reserved key t0 ip ack (Suc n) c"
  unfolding reserved_def by (meson le_SucI)

lemma reserved_step:
  assumes "reserved key t0 ip ack n c" "timely key t0 e" "n + acquires [e] < synCacheMax"
  shows "reserved key t0 ip (if ack = None then first_ack key [e] else ack) (n + acquires [e]) (syn_step e c)"
proof (cases e)
  case (SynAcquire k now ip')
  have t: "now \<le> t0 + synCacheTTL" "Suc n < synCacheMax" using assms(2,3) by (simp_all add: SynAcquire acquires_def)
  have m: "map_of (sc_entries c) key = Some \<lparr> rec_ackFrame = ack, rec_createdAt = t0, rec_ownerIP = ip \<rparr>"
    using assms(1) by (simp add: reserved_def)
  have "reserved key t0 ip ack (Suc n) (snd (Acquire c k now ip'))"
  proof (cases rule: Acquire_cases [of c k now ip'])
    case (hit r)
    then show ?thesis using reserved_mono [OF assms(1)] by simp
  next
    case (stale r)
    then have "k \<noteq> key" using m t by auto
    then show ?thesis using stale reserved_reserve [OF assms(1) _ t] by simp
  next
    case new
    then have "k \<noteq> key" using m by auto
    then show ?thesis using new reserved_reserve [OF assms(1) _ t, where es = "sc_entries c"] by simp
  qed
  then show ?thesis by (cases ack) (simp_all add: SynAcquire acquires_def)
next
  case (SynComplete k a)
  define ack' where "ack' = (if ack = None then first_ack key [e] else ack)"
  have "map_of (sc_entries (Complete c k a)) key = Some \<lparr> rec_ackFrame = ack', rec_createdAt = t0, rec_ownerIP = ip \<rparr>"
    using assms(1) by (auto simp: reserved_def Complete_def ack'_def SynComplete update_conv' simp del: map_of_eq_Some_iff split: option.split)
  moreover have "sc_fifo (Complete c k a) = sc_fifo c" by (simp add: Complete_def split: option.split)
  moreover have "cache_ok (Complete c k a)" using assms(1) cache_ok_step [of c e] by (simp add: reserved_def SynComplete)
  ultimately show ?thesis using assms(1) unfolding reserved_def ack'_def by (simp add: SynComplete acquires_def)
next
  case (SynAbort k)
  then have "k \<noteq> key" using assms(2) by simp
  then have "map_of (sc_entries (Abort c k)) key = map_of (sc_entries c) key"
    by (auto simp: Abort_def delete_conv' split: option.split)
  moreover have "sc_fifo (Abort c k) = sc_fifo c" by (simp add: Abort_def split: option.split)
  moreover have "cache_ok (Abort c k)" using assms(1) cache_ok_step [of c e] by (simp add: reserved_def SynAbort)
  ultimately show ?thesis using assms(1) unfolding reserved_def by (simp add: SynAbort acquires_def)
qed

lemma first_ack_Cons: "first_ack key (e # es) = (if first_ack key [e] = None then first_ack key es else first_ack key [e])"
  by (cases e) auto

lemma acquires_Cons: "acquires (e # es) = acquires [e] + acquires es"
  by (simp add: acquires_def)

lemma reserved_run:
  "reserved key t0 ip ack n c \<Longrightarrow> \<forall>e \<in> set es. timely key t0 e \<Longrightarrow> n + acquires es < synCacheMax \<Longrightarrow>
   reserved key t0 ip (if ack = None then first_ack key es else ack) (n + acquires es) (syn_run es c)"
proof (induction es arbitrary: n c ack)
  case Nil
  then show ?case by (cases ack) (simp_all add: syn_run_def acquires_def)
next
  case (Cons e es)
  have "reserved key t0 ip (if ack = None then first_ack key [e] else ack) (n + acquires [e]) (syn_step e c)"
    using Cons.prems by (intro reserved_step) (simp_all add: acquires_Cons [of e es])
  from Cons.IH [OF this] Cons.prems show ?case
    by (cases ack; cases "first_ack key [e]") (simp_all add: acquires_Cons [of e es] first_ack_Cons [of key e es] add.assoc syn_run_def)
qed

lemma evictOldest_subset: "set (snd (evictOldest es fifo)) \<subseteq> set fifo"
  by (induction es fifo rule: evictOldest.induct) auto

lemma makeSpace_subset: "set (sc_fifo (makeSpaceLocked now c)) \<subseteq> set (sc_fifo c)"
proof -
  define fresh where "fresh = filter (\<lambda>(_, r). \<not> synCacheTTL < now - rec_createdAt r) (sc_entries c)"
  show ?thesis using evictOldest_subset [of fresh "sc_fifo c"] by (auto simp: makeSpaceLocked_def fresh_def Let_def split_beta)
qed

lemma reserved_new:
  assumes "queued (sc_entries c) (sc_fifo c)" "(key, t0) \<notin> set (sc_fifo c)"
  shows "reserved key t0 ip None 0 (reserve c key t0 ip)"
  using reserve_ok [OF assms(1)] makeSpace_subset [of t0 c] assms(2) unfolding reserved_def
  by (auto simp: reserve_def Let_def update_conv')

lemma reserved_Acquire:
  assumes "cache_ok c" "(key, t0) \<notin> set (sc_fifo c)" "Acquire c key t0 ip = ((ack, True), c')"
  shows "reserved key t0 ip None 0 c'"
proof -
  have q: "queued (sc_entries c) (sc_fifo c)" using assms(1) by (simp add: cache_ok_def)
  show ?thesis
  proof (cases rule: Acquire_cases [of c key t0 ip])
    case (stale r)
    then show ?thesis
      using assms(2,3) reserved_new [of "c\<lparr>sc_entries := AList.delete key (sc_entries c)\<rparr>"] queued_delete [OF q] by simp
  qed (use assms(2,3) reserved_new [OF q] in auto)
qed

subsection \<open>Buckets\<close>

lemma oldestBucket_mem:
  "oldestBucket acc bs = Some (k, t) \<Longrightarrow> acc = Some (k, t) \<or> k \<in> fst ` set bs"
  by (induction acc bs rule: oldestBucket.induct) (fastforce split: option.splits if_splits)+

lemma oldestBucket_None: "oldestBucket acc bs = None \<longleftrightarrow> acc = None \<and> bs = []"
  by (induction acc bs rule: oldestBucket.induct) (auto split: option.splits if_splits)

lemma pruneBuckets_length:
  assumes "length bs \<le> synLimiterMaxBuckets"
  shows "length (pruneBuckets now bs) < synLimiterMaxBuckets"
proof (cases "length bs < synLimiterMaxBuckets")
  case False
  define fresh where "fresh = filter (\<lambda>(_, ob). \<not> 60 * second < now - bk_last ob) bs"
  have p: "pruneBuckets now bs = (if length fresh < synLimiterMaxBuckets then fresh
      else case oldestBucket None fresh of None \<Rightarrow> AList.delete [] fresh | Some (k, _) \<Rightarrow> AList.delete k fresh)"
    unfolding pruneBuckets_def Let_def fresh_def using False by simp
  have len: "length fresh \<le> synLimiterMaxBuckets" using assms length_filter_le le_trans unfolding fresh_def by blast
  show ?thesis
  proof (cases "length fresh < synLimiterMaxBuckets")
    case short: False
    then obtain k t where k: "oldestBucket None fresh = Some (k, t)"
      using oldestBucket_None [of None fresh] by (cases "oldestBucket None fresh") (auto simp: synLimiterMaxBuckets_def)
    then have "length (AList.delete k fresh) < length fresh" using oldestBucket_mem [OF k] by (simp add: delete_shorter)
    then show ?thesis using short k len by (simp add: p)
  qed (simp add: p)
qed (simp add: pruneBuckets_def)

lemma Allow_length:
  assumes "length (lim_buckets l) \<le> synLimiterMaxBuckets"
  shows "length (lim_buckets (snd (Allow l ip now))) \<le> synLimiterMaxBuckets"
proof (cases "map_of (lim_buckets l) ip")
  case None
  have "length (AList.update ip v (pruneBuckets now (lim_buckets l))) \<le> synLimiterMaxBuckets" for v
    using pruneBuckets_length [OF assms, of now] length_update_le [of ip v "pruneBuckets now (lim_buckets l)"] by linarith
  then show ?thesis using None by (simp add: Allow_def Let_def)
next
  case (Some b)
  then have "ip \<in> fst ` set (lim_buckets l)" by (force dest: map_of_SomeD)
  then show ?thesis using Some assms by (simp add: Allow_def Let_def length_update_mem)
qed

text \<open>While the table is not full, one request touches only its own bucket.\<close>

lemma Allow_own:
  assumes "map_of (lim_buckets l) ip = None \<longrightarrow> length (lim_buckets l) < synLimiterMaxBuckets"
    and "Allow l ip now = (ok, l')"
  obtains b where "map_of (lim_buckets l) ip = Some b \<or> map_of (lim_buckets l) ip = None \<and> b = \<lparr> bk_tokens = lim_burst l, bk_last = now \<rparr>"
    "ok \<longleftrightarrow> 1 \<le> refill l now b"
    "l' = l\<lparr>lim_buckets := AList.update ip \<lparr> bk_tokens = refill l now b - (if ok then 1 else 0), bk_last = now \<rparr> (lim_buckets l)\<rparr>"
proof (cases "map_of (lim_buckets l) ip")
  case None
  then have "pruneBuckets now (lim_buckets l) = lim_buckets l" using assms(1) by (simp add: pruneBuckets_def)
  then show ?thesis
    using assms(2) None that [of "\<lparr> bk_tokens = lim_burst l, bk_last = now \<rparr>"]
    by (auto simp: Allow_def Let_def split: if_splits)
next
  case (Some b)
  then show ?thesis using assms(2) that [of b] by (auto simp: Allow_def Let_def split: if_splits)
qed

lemma refill_bounds:
  assumes "buckets_ok t l" "0 \<le> bk_tokens b" "bk_last b \<le> now"
  shows "0 \<le> refill l now b" "refill l now b \<le> bk_tokens b + of_int (now - bk_last b) / of_int second * lim_rate l"
proof -
  have "0 \<le> (of_int (now - bk_last b) :: rat)" "0 < lim_rate l" "1 \<le> lim_burst l" using assms by (simp_all add: buckets_ok_def)
  then have "0 \<le> (of_int (now - bk_last b) :: rat) / of_int second * lim_rate l" by simp
  then show "0 \<le> refill l now b" "refill l now b \<le> bk_tokens b + of_int (now - bk_last b) / of_int second * lim_rate l"
    using assms(2) \<open>1 \<le> lim_burst l\<close> by (auto simp: refill_def Let_def)
qed

lemma Allow_credit:
  assumes "buckets_ok t l" "t \<le> now" "t0 \<le> now" "map_of (lim_buckets l) src = None \<longrightarrow> length (lim_buckets l) < synLimiterMaxBuckets"
    and "Allow l src now = (ok, l')"
  shows "buckets_ok now l'" "fst ` set (lim_buckets l') = insert src (fst ` set (lim_buckets l))"
    "lim_rate l' = lim_rate l" "lim_burst l' = lim_burst l"
    "(if src = ip \<and> ok then 1 else 0) + credit ip t0 l' \<le> credit ip t0 l"
proof -
  obtain b where b: "map_of (lim_buckets l) src = Some b \<or> map_of (lim_buckets l) src = None \<and> b = \<lparr> bk_tokens = lim_burst l, bk_last = now \<rparr>"
    "ok \<longleftrightarrow> 1 \<le> refill l now b"
    "l' = l\<lparr>lim_buckets := AList.update src \<lparr> bk_tokens = refill l now b - (if ok then 1 else 0), bk_last = now \<rparr> (lim_buckets l)\<rparr>"
    using Allow_own [OF assms(4,5)] by blast
  have bt: "0 \<le> bk_tokens b" "bk_last b \<le> now" using b(1) assms(1,2) by (fastforce simp: buckets_ok_def)+
  note r = refill_bounds [OF assms(1) bt]
  have m: "map_of (lim_buckets l') = (map_of (lim_buckets l))(src \<mapsto> \<lparr> bk_tokens = refill l now b - (if ok then 1 else 0), bk_last = now \<rparr>)"
    using b(3) by (simp add: update_conv')
  have "dom (map_of (lim_buckets l')) = insert src (dom (map_of (lim_buckets l)))" by (simp add: m)
  then show "fst ` set (lim_buckets l') = insert src (fst ` set (lim_buckets l))" by (simp add: dom_map_of_conv_image_fst)
  show rt: "lim_rate l' = lim_rate l" "lim_burst l' = lim_burst l" using b(3) by simp_all
  have "distinct (map fst (lim_buckets l'))" "0 < lim_rate l'" "1 \<le> lim_burst l'"
    using assms(1) b(3) by (simp_all add: buckets_ok_def distinct_update)
  moreover have "0 \<le> bk_tokens b' \<and> bk_last b' \<le> now" if "map_of (lim_buckets l') ip' = Some b'" for ip' b'
  proof (cases "ip' = src")
    case True
    then show ?thesis using that r(1) b(2) by (auto simp: m split: if_splits)
  next
    case False
    then have "map_of (lim_buckets l) ip' = Some b'" using that by (simp add: m)
    then show ?thesis using assms(1,2) by (fastforce simp: buckets_ok_def)
  qed
  ultimately show "buckets_ok now l'" by (simp add: buckets_ok_def)
  show "(if src = ip \<and> ok then 1 else 0) + credit ip t0 l' \<le> credit ip t0 l"
  proof (cases "src = ip")
    case True
    have "(of_int t0 :: rat) / of_int second * lim_rate l \<le> of_int now / of_int second * lim_rate l"
      using assms(1,3) by (simp add: buckets_ok_def divide_right_mono mult_right_mono)
    then have "bk_tokens b - of_int (bk_last b) / of_int second * lim_rate l \<le> credit ip t0 l"
      using True b(1) by (auto simp: credit_def)
    moreover have "credit ip t0 l' = refill l now b - (if ok then 1 else 0) - of_int now / of_int second * lim_rate l"
      using True rt by (simp add: credit_def m)
    ultimately show ?thesis using True r(2) by (simp add: diff_divide_distrib left_diff_distrib)
  qed (simp add: credit_def m rt split: option.split)
qed

lemma allow_run_credit:
  "buckets_ok t l \<Longrightarrow> sorted (t # map snd reqs) \<Longrightarrow> t0 \<le> t \<Longrightarrow> card (fst ` set (lim_buckets l) \<union> fst ` set reqs) \<le> synLimiterMaxBuckets \<Longrightarrow>
   allow_run l reqs = (oks, l') \<Longrightarrow>
   of_nat (grants ip reqs oks) + credit ip t0 l' \<le> credit ip t0 l \<and> buckets_ok (last (t # map snd reqs)) l'
     \<and> lim_rate l' = lim_rate l \<and> lim_burst l' = lim_burst l"
proof (induction l reqs arbitrary: t oks l' rule: allow_run.induct)
  case (1 l)
  then show ?case by (simp add: grants_def)
next
  case (2 l src now reqs)
  obtain ok l1 where a: "Allow l src now = (ok, l1)" by (cases "Allow l src now")
  obtain oks' where r: "allow_run l1 reqs = (oks', l')" "oks = ok # oks'" using 2(6) a by (auto split: prod.splits)
  have dist: "length (lim_buckets l) = card (fst ` set (lim_buckets l))"
    using 2(2) distinct_card [of "map fst (lim_buckets l)"] by (simp add: buckets_ok_def)
  have room: "map_of (lim_buckets l) src = None \<longrightarrow> length (lim_buckets l) < synLimiterMaxBuckets"
  proof
    assume "map_of (lim_buckets l) src = None"
    then have "src \<notin> fst ` set (lim_buckets l)" by (simp add: map_of_eq_None_iff)
    then have "Suc (length (lim_buckets l)) = card (insert src (fst ` set (lim_buckets l)))" by (simp add: dist)
    also have "\<dots> \<le> card (fst ` set (lim_buckets l) \<union> fst ` set ((src, now) # reqs))" by (intro card_mono) auto
    finally show "length (lim_buckets l) < synLimiterMaxBuckets" using 2(5) by simp
  qed
  have t: "t \<le> now" "t0 \<le> now" using 2(3,4) by auto
  note c = Allow_credit [OF 2(2) t room a]
  have "fst ` set (lim_buckets l1) \<union> fst ` set reqs = fst ` set (lim_buckets l) \<union> fst ` set ((src, now) # reqs)" using c(2) by auto
  then have ih: "of_nat (grants ip reqs oks') + credit ip t0 l' \<le> credit ip t0 l1 \<and> buckets_ok (last (now # map snd reqs)) l'
     \<and> lim_rate l' = lim_rate l1 \<and> lim_burst l' = lim_burst l1"
    using 2(1) [OF a [symmetric] c(1) _ t(2) _ r(1)] 2(3,5) by simp
  have "grants ip ((src, now) # reqs) oks = (if src = ip \<and> ok then 1 else 0) + grants ip reqs oks'" by (simp add: grants_def r(2))
  then show ?case using ih c(3,4) c(5) [of ip] by (auto split: if_splits)
qed

lemma allow_run_length:
  "length (lim_buckets l) \<le> synLimiterMaxBuckets \<Longrightarrow> length (lim_buckets (snd (allow_run l reqs))) \<le> synLimiterMaxBuckets"
proof (induction l reqs rule: allow_run.induct)
  case (2 l ip now reqs)
  then show ?case using Allow_length [OF 2(2), of ip now] by (cases "Allow l ip now") (auto simp: split_beta)
qed simp

text \<open>The lifetime of an entry equals the width of the timestamp window, and the window check
  truncates to seconds: a SYN first used as early as its timestamp allows is accepted again,
  with a fresh reservation, in the last second of its window.\<close>

lemma syn_replay_gap:
  assumes "t0 = (ts - 300) * second" "t1 = (ts + 300) * second + 500 * millisecond"
  shows "synTimeOk ts t0 \<and> synTimeOk ts t1
    \<and> fst (Acquire (snd (Acquire newSynCache key t0 ip)) key t1 ip') = (None, True)"
proof -
  have "t0 div second = ts - 300" "t1 div second = ts + 300" using assms by simp_all
  moreover have "synCacheTTL < t1 - t0" using assms by (simp add: synCacheTTL_def)
  ultimately show ?thesis
    by (simp add: synTimeOk_def synTimestampWindow_def Acquire_def newSynCache_def reserve_def Let_def update_conv' makeSpaceLocked_def)
qed

section \<open>Properties\<close>





text \<open>Neither table can be grown without bound: after any history of handshakes the cache holds at
  most 4096 entries, and after any requests the limiter holds at most 1024 buckets.\<close>

lemma syn_tables_bounded:
  "length (sc_entries (syn_run es newSynCache)) \<le> 4096
   \<and> length (lim_buckets (snd (allow_run (newSynLimiter r b) reqs))) \<le> 1024"
  using cache_ok_run [OF cache_ok_new, of es] allow_run_length [of "newSynLimiter r b" reqs]
  by (simp add: cache_ok_def synCacheMax_def synLimiterMaxBuckets_def newSynLimiter_def)

end
