(* ===== verification/Handshake.thy ===== *)
theory Handshake
  imports ServerSession Targets SynGuard
begin

text \<open>
  The two ends of the handshake as functions (\<^verbatim>\<open>tunnel/server.go\<close>, \<open>handleHandshake\<close>, and
  \<^verbatim>\<open>tunnel/client.go\<close>, \<open>handshake\<close> and the acknowledgement branch of \<open>dispatch\<close>): the checks on a
  SYN, the negotiation of the optional features, the session keys and the acknowledgement on the
  server; the SYN, the table of pending handshakes and the waiting loop on the client.  The table of
  sessions these feed is in \<open>ServerTable\<close>.  Clock readings are in nanoseconds; random reads are
  arguments, \<open>None\<close> a failed one.
\<close>

section \<open>Definitions\<close>

subsection \<open>The server's side\<close>

record serverCfg =
  sc_env :: serverEnv
  sc_passwords :: "string list"
  sc_privKey :: "bytes option"
  sc_allowedTargets :: "string list"
  sc_targetAddr :: string
  sc_maxSessions :: int
  sc_FEC :: "bool option"
  sc_FECExtParity :: "bool option"
  sc_Recovery :: "bool option"
  sc_WideWindow :: "bool option"

datatype hs_error =
    InvalidLength | ExpiredTimestamp | BadPayload payload_error | TrailingBytes | TargetDenied | SessionCapReached

text \<open>A SYN that passed the checks: what the rest of \<open>handleHandshake\<close> uses of it.\<close>

record hsRequest =
  hr_flags :: uint16
  hr_psk :: string
  hr_clientNonce :: bytes
  hr_target :: string
  hr_noiseMsg1 :: bytes

definition checkSyn :: "serverCfg \<Rightarrow> int \<Rightarrow> UDPCFrame \<Rightarrow> string \<Rightarrow> int \<Rightarrow> hs_error + hsRequest" where
  "checkSyn cfg liveSessions f matchedPSK now = (
     let hasPrivKey = (sc_privKey cfg \<noteq> None);
         expectedLen = (if hasPrivKey then synPayloadBase + noiseMsg1Size else synPayloadBase);
         timestamp = sint (get_be (bslice clientNonceSize synPayloadBase (Data f)) :: uint64)
     in if matchedPSK = [] \<or> length (Data f) < expectedLen
           \<or> length (Data f) > synPayloadBase + targetRequestTLVLen + TargetMaxLen + noiseMsg1Size then Inl InvalidLength
        else if \<not> synTimeOk timestamp now then Inl ExpiredTimestamp
        else (case splitSynPayload (Data f) hasPrivKey of
            Inl e \<Rightarrow> Inl (BadPayload e)
          | Inr (requestedTarget, noiseMsg1) \<Rightarrow>
              if length (Data f) \<noteq> synPayloadBase + length (requestedTargetTLV requestedTarget) + length noiseMsg1 then Inl TrailingBytes
              else if requestedTarget \<noteq> [] \<and> targetAllowed requestedTarget (sc_allowedTargets cfg) \<noteq> Some True then Inl TargetDenied
              else if sc_maxSessions cfg > 0 \<and> liveSessions \<ge> sc_maxSessions cfg then Inl SessionCapReached
              else Inr \<lparr> hr_flags = Flags f, hr_psk = matchedPSK, hr_clientNonce = take clientNonceSize (Data f),
                         hr_target = requestedTarget, hr_noiseMsg1 = noiseMsg1 \<rparr>))"

text \<open>The key of the handshake cache, and the endpoint the session is dialled to.\<close>

definition handshakeKeys :: "serverCfg \<Rightarrow> hsRequest \<Rightarrow> PSKHandshakeKeys" where
  "handshakeKeys cfg r = DerivePSKHandshakeKeys (ev_crypto (sc_env cfg)) (hr_psk r) (hr_clientNonce r)"

definition cacheKey :: "serverCfg \<Rightarrow> hsRequest \<Rightarrow> synCacheKey" where
  "cacheKey cfg r = makeSynCacheKey (hr_clientNonce r) (SynMAC (handshakeKeys cfg r))"

definition forwardTarget :: "serverCfg \<Rightarrow> hsRequest \<Rightarrow> target_network \<times> string" where
  "forwardTarget cfg r = parseTargetNetworkAndAddr (if hr_target r \<noteq> [] then hr_target r else sc_targetAddr cfg)"

definition serverNoise :: "serverCfg \<Rightarrow> hsRequest \<Rightarrow> bytes option \<Rightarrow> noise_error + (NoiseSession \<times> bytes) option" where
  "serverNoise cfg r rnd = (case sc_privKey cfg of
     None \<Rightarrow> Inr None
   | Some priv \<Rightarrow> (case NewServerNoiseSession (ev_crypto (sc_env cfg)) rnd priv (hr_noiseMsg1 r) of
       Inl e \<Rightarrow> Inl e
     | Inr p \<Rightarrow> Inr (Some p)))"

text \<open>The loop that draws a session number until it is free; a failed read ends it.\<close>

fun allocSid :: "(uint32 \<times> 's) list \<Rightarrow> uint32 option list \<Rightarrow> uint32 option" where
  "allocSid sessions [] = None"
| "allocSid sessions (None # draws) = None"
| "allocSid sessions (Some sid # draws) =
     (if sid \<noteq> 0 \<and> map_of sessions sid = None then Some sid else allocSid sessions draws)"

definition negotiate :: "serverCfg \<Rightarrow> uint16 \<Rightarrow> FrameKeys \<Rightarrow> FrameKeys" where
  "negotiate cfg flags k = (
     let fecNegotiated = (fecEnabled (sc_FEC cfg) \<and> flags AND FLAG_FEC_CAPABLE \<noteq> 0)
     in k\<lparr>fk_fec := fecNegotiated,
          fk_fecExt := (fecNegotiated \<and> fecEnabled (sc_FECExtParity cfg) \<and> flags AND FLAG_FEC_EXT_PARITY \<noteq> 0),
          fk_recovery := (fecEnabled (sc_Recovery cfg) \<and> flags AND FLAG_RECOVERY_CAPABLE \<noteq> 0),
          fk_wideWindow := (fecEnabled (sc_WideWindow cfg) \<and> flags AND FLAG_WIDE_WINDOW \<noteq> 0)\<rparr>)"

definition noiseFrameKeys :: "NoiseSession \<Rightarrow> FrameKeys" where
  "noiseFrameKeys ns = \<lparr> Send = SendCipher ns, Recv = RecvCipher ns, fk_fec = False, fk_fecExt = False,
     fk_wideWindow = False, fk_recovery = False \<rparr>"

definition serverFrameKeys :: "serverCfg \<Rightarrow> hsRequest \<Rightarrow> (NoiseSession \<times> bytes) option \<Rightarrow> bytes \<Rightarrow> uint32 \<Rightarrow> noise_error + FrameKeys" where
  "serverFrameKeys cfg r noise serverNonce sid = (case noise of
     Some (ns, _) \<Rightarrow> Inr (negotiate cfg (hr_flags r) (noiseFrameKeys ns))
   | None \<Rightarrow> (case ServerFrameCiphers (DerivePSKSessionKeys (ev_crypto (sc_env cfg)) (hr_psk r) (hr_clientNonce r) serverNonce sid) of
       Inl e \<Rightarrow> Inl e
     | Inr k \<Rightarrow> Inr (negotiate cfg (hr_flags r) k)))"

definition ackFlags :: "FrameKeys \<Rightarrow> uint16" where
  "ackFlags k = (
     let a1 = (if fk_recovery k then 0 OR FLAG_RECOVERY_CAPABLE else 0);
         a2 = (if fk_wideWindow k then a1 OR FLAG_WIDE_WINDOW else a1);
         a3 = (if fk_fec k then a2 OR FLAG_FEC_CAPABLE else a2)
     in if fk_fec k \<and> fk_fecExt k then a3 OR FLAG_FEC_EXT_PARITY else a3)"

definition ackFrame :: "serverCfg \<Rightarrow> hsRequest \<Rightarrow> (NoiseSession \<times> bytes) option \<Rightarrow> bytes \<Rightarrow> uint32 \<Rightarrow> FrameKeys \<Rightarrow> UDPCFrame" where
  "ackFrame cfg r noise serverNonce sid k = \<lparr> Magic = ev_magic (sc_env cfg), Version = UDPC_VERSION,
     Cmd = CMD_HANDSHAKE_ACK, Flags = ackFlags k, SessionID = sid, PacketNo = 0, Seq = 0, Ack = 0,
     WindowSize = advertisedWindowFull,
     Data = appendTargetTLV (hr_clientNonce r @ serverNonce) (hr_target r) @ (case noise of None \<Rightarrow> [] | Some (_, msg2) \<Rightarrow> msg2),
     raw = [] \<rparr>"

text \<open>\<open>SealFrameMAC\<close> returns nil when the frame cannot be marshalled.\<close>

definition ackEncoded :: "serverCfg \<Rightarrow> hsRequest \<Rightarrow> (NoiseSession \<times> bytes) option \<Rightarrow> bytes \<Rightarrow> uint32 \<Rightarrow> FrameKeys \<Rightarrow> bytes" where
  "ackEncoded cfg r noise serverNonce sid k =
     (case SealFrameMAC (Some (ackFrame cfg r noise serverNonce sid k)) (Some (AckMAC (handshakeKeys cfg r))) of
        None \<Rightarrow> [] | Some w \<Rightarrow> w)"

subsection \<open>The client's side\<close>

record clientCfg =
  cc_crypto :: crypto
  cc_magic :: uint32
  cc_passwords :: "string list"
  cc_serverPub :: bytes
  cc_FEC :: "bool option"
  cc_FECExtParity :: "bool option"
  cc_Recovery :: "bool option"
  cc_WideWindow :: "bool option"

definition clientMaxHandshakeAttempts :: nat where "clientMaxHandshakeAttempts = 8"
definition ackQueueSize :: nat where "ackQueueSize = 8"
definition clientHandshakeBackoff :: duration where "clientHandshakeBackoff = 300 * millisecond"
definition clientHandshakeBackoffMax :: duration where "clientHandshakeBackoffMax = 2 * second"

datatype client_error =
    TargetTooLong | NKFailed noise_error | NonceFailed | NonceCollision | SealFailed | BadAckPayload payload_error
  | CipherInit noise_error | NoiseFinish noise_error | ClientClosed | Cancelled | HandshakeTimeout

record pendingHandshake =
  ph_ackMACs :: "bytes list"
  ph_ch :: "UDPCFrame list"

text \<open>The local variables of \<open>handshake\<close> once the pending entry is filed.\<close>

record clientHs =
  ch_nonce :: bytes
  ch_nk :: "ClientNK option"
  ch_payload :: bytes
  ch_flags :: uint16

definition encrypted :: "clientCfg \<Rightarrow> bool" where
  "encrypted cfg \<longleftrightarrow> cc_serverPub cfg \<noteq> replicate 32 0"

definition synFlags :: "clientCfg \<Rightarrow> uint16" where
  "synFlags cfg = (
     let a1 = (if fecEnabled (cc_Recovery cfg) then 0 OR FLAG_RECOVERY_CAPABLE else 0);
         a2 = (if fecEnabled (cc_WideWindow cfg) then a1 OR FLAG_WIDE_WINDOW else a1);
         a3 = (if fecEnabled (cc_FEC cfg) then a2 OR FLAG_FEC_CAPABLE else a2)
     in if fecEnabled (cc_FEC cfg) \<and> fecEnabled (cc_FECExtParity cfg) then a3 OR FLAG_FEC_EXT_PARITY else a3)"

definition clientNK :: "clientCfg \<Rightarrow> bytes option \<Rightarrow> client_error + (bytes \<times> ClientNK option)" where
  "clientNK cfg rnd = (
     if \<not> encrypted cfg then Inr ([], None)
     else (case NewClientNK (cc_crypto cfg) rnd (cc_serverPub cfg) of
         Inl e \<Rightarrow> Inl (NKFailed e)
       | Inr nk \<Rightarrow> (case Message1 (cc_crypto cfg) nk of
           (Inl e, _) \<Rightarrow> Inl (NKFailed e)
         | (Inr msg1, nk') \<Rightarrow> Inr (msg1, Some nk'))))"

definition synPayload :: "bytes \<Rightarrow> int \<Rightarrow> string \<Rightarrow> bytes \<Rightarrow> bytes" where
  "synPayload clientNonce now target msg1 =
     appendTargetTLV (clientNonce @ put_be 8 (word_of_int (now div second) :: uint64)) target @ msg1"

definition ackMACs :: "clientCfg \<Rightarrow> bytes \<Rightarrow> bytes list" where
  "ackMACs cfg clientNonce = map (\<lambda>psk. AckMAC (DerivePSKHandshakeKeys (cc_crypto cfg) psk clientNonce)) (cc_passwords cfg)"

definition startHandshake ::
  "clientCfg \<Rightarrow> (bytes \<times> pendingHandshake) list \<Rightarrow> string \<Rightarrow> bytes option \<Rightarrow> bytes option \<Rightarrow> int
     \<Rightarrow> (client_error + clientHs) \<times> (bytes \<times> pendingHandshake) list" where
  "startHandshake cfg pendingAcks target rnd nonceRead now = (
     if length target > TargetMaxLen then (Inl TargetTooLong, pendingAcks)
     else (case clientNK cfg rnd of
         Inl e \<Rightarrow> (Inl e, pendingAcks)
       | Inr (msg1, nk) \<Rightarrow>
           (case nonceRead of
              None \<Rightarrow> (Inl NonceFailed, pendingAcks)
            | Some clientNonce \<Rightarrow>
                if map_of pendingAcks clientNonce \<noteq> None then (Inl NonceCollision, pendingAcks)
                else (Inr \<lparr> ch_nonce = clientNonce, ch_nk = nk, ch_payload = synPayload clientNonce now target msg1,
                            ch_flags = synFlags cfg \<rparr>,
                      AList.update clientNonce \<lparr> ph_ackMACs = ackMACs cfg clientNonce, ph_ch = [] \<rparr> pendingAcks))))"

text \<open>The deferred removal of the entry when \<open>handshake\<close> returns.\<close>

definition releasePending :: "clientHs \<Rightarrow> (bytes \<times> pendingHandshake) list \<Rightarrow> (bytes \<times> pendingHandshake) list" where
  "releasePending h pendingAcks = AList.delete (ch_nonce h) pendingAcks"

text \<open>The SYN of the \<open>attempt\<close>-th try, sealed under the next key of the list, and how long it waits.\<close>

definition attemptPSK :: "clientCfg \<Rightarrow> nat \<Rightarrow> string" where
  "attemptPSK cfg attempt = cc_passwords cfg ! ((attempt - 1) mod length (cc_passwords cfg))"

definition synFrame :: "clientCfg \<Rightarrow> clientHs \<Rightarrow> UDPCFrame" where
  "synFrame cfg h = \<lparr> Magic = cc_magic cfg, Version = UDPC_VERSION, Cmd = CMD_HANDSHAKE_SYN, Flags = ch_flags h,
     SessionID = 0, PacketNo = 0, Seq = 0, Ack = 0, WindowSize = 0, Data = ch_payload h, raw = [] \<rparr>"

definition sealSyn :: "clientCfg \<Rightarrow> clientHs \<Rightarrow> nat \<Rightarrow> bytes option" where
  "sealSyn cfg h attempt = SealFrameMAC (Some (synFrame cfg h))
     (Some (SynMAC (DerivePSKHandshakeKeys (cc_crypto cfg) (attemptPSK cfg attempt) (ch_nonce h))))"

definition attemptTimeout :: "nat \<Rightarrow> duration" where
  "attemptTimeout attempt = min (clientHandshakeBackoff * 2 ^ (attempt - 1)) clientHandshakeBackoffMax"

text \<open>The acknowledgement branch of \<open>dispatch\<close>: the candidate joins the bounded queue only after its
  MAC verified.\<close>

definition verifyAck :: "pendingHandshake \<Rightarrow> bytes \<Rightarrow> bool" where
  "verifyAck p w \<longleftrightarrow> list_ex (\<lambda>mac. VerifyFrameAuth w (Some mac) = Inr ()) (ph_ackMACs p)"

definition dispatchAck :: "UDPCFrame \<Rightarrow> (bytes \<times> pendingHandshake) list \<Rightarrow> (bytes \<times> pendingHandshake) list" where
  "dispatchAck f pendingAcks = (
     if SessionID f = 0 \<or> PacketNo f \<noteq> 0 \<or> Seq f \<noteq> 0 \<or> Ack f \<noteq> 0 \<or> length (Data f) < ackPayloadBase then pendingAcks
     else (let clientNonce = take clientNonceSize (Data f)
           in case map_of pendingAcks clientNonce of
                None \<Rightarrow> pendingAcks
              | Some p \<Rightarrow>
                  if verifyAck p (raw f) \<and> length (ph_ch p) < ackQueueSize
                  then AList.update clientNonce (p\<lparr>ph_ch := ph_ch p @ [f]\<rparr>) pendingAcks
                  else pendingAcks))"

fun matchAckPSK :: "clientCfg \<Rightarrow> bytes \<Rightarrow> bytes \<Rightarrow> string list \<Rightarrow> string" where
  "matchAckPSK cfg clientNonce w [] = []"
| "matchAckPSK cfg clientNonce w (psk # passwords) =
     (if VerifyFrameAuth w (Some (AckMAC (DerivePSKHandshakeKeys (cc_crypto cfg) psk clientNonce))) = Inr () then psk
      else matchAckPSK cfg clientNonce w passwords)"

definition clientNegotiate :: "clientCfg \<Rightarrow> uint16 \<Rightarrow> FrameKeys \<Rightarrow> FrameKeys" where
  "clientNegotiate cfg flags k = (
     let fec = (fecEnabled (cc_FEC cfg) \<and> flags AND FLAG_FEC_CAPABLE \<noteq> 0)
     in k\<lparr>fk_fec := fec,
          fk_fecExt := (fec \<and> flags AND FLAG_FEC_EXT_PARITY \<noteq> 0),
          fk_recovery := (fecEnabled (cc_Recovery cfg) \<and> flags AND FLAG_RECOVERY_CAPABLE \<noteq> 0),
          fk_wideWindow := (fecEnabled (cc_WideWindow cfg) \<and> flags AND FLAG_WIDE_WINDOW \<noteq> 0)\<rparr>)"

text \<open>The result of \<open>handshake\<close>: the session number, the keys and the target the server granted.
  \<open>None\<close> from \<open>onAck\<close> keeps waiting.\<close>

type_synonym hs_result = "client_error + (uint32 \<times> FrameKeys \<times> string)"

definition onAck :: "clientCfg \<Rightarrow> clientHs \<Rightarrow> UDPCFrame \<Rightarrow> hs_result option" where
  "onAck cfg h ack = (
     let matchedPSK = matchAckPSK cfg (ch_nonce h) (raw ack) (cc_passwords cfg)
     in if matchedPSK = [] then None
        else (case splitAckPayload (Data ack) (encrypted cfg) of
            Inl e \<Rightarrow> Some (Inl (BadAckPayload e))
          | Inr (granted, noiseMsg2) \<Rightarrow>
              if take clientNonceSize (Data ack) \<noteq> ch_nonce h then None
              else (let serverNonce = bslice clientNonceSize ackPayloadBase (Data ack)
                    in case ch_nk h of
                         None \<Rightarrow>
                           (case ClientFrameCiphers (DerivePSKSessionKeys (cc_crypto cfg) matchedPSK (ch_nonce h) serverNonce (SessionID ack)) of
                              Inl e \<Rightarrow> Some (Inl (CipherInit e))
                            | Inr k \<Rightarrow> Some (Inr (SessionID ack, clientNegotiate cfg (Flags ack) k, granted)))
                       | Some nk \<Rightarrow>
                           (case fst (Finish (cc_crypto cfg) nk noiseMsg2) of
                              Inl e \<Rightarrow> Some (Inl (NoiseFinish e))
                            | Inr ns \<Rightarrow> Some (Inr (SessionID ack, clientNegotiate cfg (Flags ack) (noiseFrameKeys ns), granted))))))"

text \<open>The waiting loop: the number of the current attempt, or the result.  Each timer starts the next
  attempt with its own SYN, which joins the list of datagrams sent.\<close>

datatype hs_signal = AckArrived UDPCFrame | TimerFired | CloseSeen | CtxDone

record hsLoop =
  hl_attempt :: nat
  hl_sent :: "bytes list"
  hl_result :: "hs_result option"

definition beginAttempt :: "clientCfg \<Rightarrow> clientHs \<Rightarrow> nat \<Rightarrow> hsLoop \<Rightarrow> hsLoop" where
  "beginAttempt cfg h attempt l = (
     if attempt > clientMaxHandshakeAttempts then l\<lparr>hl_result := Some (Inl HandshakeTimeout)\<rparr>
     else (case sealSyn cfg h attempt of
         None \<Rightarrow> l\<lparr>hl_attempt := attempt, hl_result := Some (Inl SealFailed)\<rparr>
       | Some w \<Rightarrow> l\<lparr>hl_attempt := attempt, hl_sent := hl_sent l @ [w]\<rparr>))"

definition handshakeLoop_step :: "clientCfg \<Rightarrow> clientHs \<Rightarrow> hs_signal \<Rightarrow> hsLoop \<Rightarrow> hsLoop" where
  "handshakeLoop_step cfg h sig l = (
     if hl_result l \<noteq> None then l
     else (case sig of
         AckArrived ack \<Rightarrow> l\<lparr>hl_result := onAck cfg h ack\<rparr>
       | TimerFired \<Rightarrow> beginAttempt cfg h (Suc (hl_attempt l)) l
       | CloseSeen \<Rightarrow> l\<lparr>hl_result := Some (Inl ClientClosed)\<rparr>
       | CtxDone \<Rightarrow> l\<lparr>hl_result := Some (Inl Cancelled)\<rparr>))"

definition handshakeLoop :: "clientCfg \<Rightarrow> clientHs \<Rightarrow> hs_signal list \<Rightarrow> hsLoop" where
  "handshakeLoop cfg h sigs = fold (handshakeLoop_step cfg h) sigs
     (beginAttempt cfg h 1 \<lparr> hl_attempt = 0, hl_sent = [], hl_result = None \<rparr>)"

subsection \<open>Vocabulary of the properties\<close>

text \<open>Client and server are configured for each other: one protocol number, and either no Noise key on
  both sides or the client holds the public key of the server's private one.\<close>

definition matching_configs :: "serverCfg \<Rightarrow> clientCfg \<Rightarrow> bool" where
  "matching_configs cfg c \<longleftrightarrow> cc_crypto c = ev_crypto (sc_env cfg) \<and> cc_magic c = ev_magic (sc_env cfg)
     \<and> (case sc_privKey cfg of
          None \<Rightarrow> \<not> encrypted c
        | Some priv \<Rightarrow> encrypted c \<and> cr_x25519 (cc_crypto c) priv (cr_basepoint (cc_crypto c)) = Some (cc_serverPub c))"

text \<open>A frame's MAC verifies under no other key of the list: keys of different passwords do not collide
  on it.\<close>

definition sole_key :: "(string \<Rightarrow> bytes) \<Rightarrow> string list \<Rightarrow> string \<Rightarrow> bytes \<Rightarrow> bool" where
  "sole_key mac passwords psk w \<longleftrightarrow> list_all (\<lambda>p. VerifyFrameAuth w (Some (mac p)) = Inr () \<longrightarrow> p = psk) passwords"

definition synMAC :: "crypto \<Rightarrow> bytes \<Rightarrow> string \<Rightarrow> bytes" where
  "synMAC cr nonce psk = SynMAC (DerivePSKHandshakeKeys cr psk nonce)"

definition ackMAC :: "crypto \<Rightarrow> bytes \<Rightarrow> string \<Rightarrow> bytes" where
  "ackMAC cr nonce psk = AckMAC (DerivePSKHandshakeKeys cr psk nonce)"

text \<open>After \<open>k\<close> timers an unfinished loop is in attempt \<open>k + 1\<close>, and the SYNs sent are those of the
  attempts so far, in order.\<close>

definition attemptSyns :: "clientCfg \<Rightarrow> clientHs \<Rightarrow> nat \<Rightarrow> bytes list" where
  "attemptSyns c h n = map (\<lambda>a. the (sealSyn c h a)) [1..<Suc n]"

definition loop_inv :: "clientCfg \<Rightarrow> clientHs \<Rightarrow> nat \<Rightarrow> hsLoop \<Rightarrow> bool" where
  "loop_inv c h k l \<longleftrightarrow> length (hl_sent l) \<le> clientMaxHandshakeAttempts \<and> hl_sent l = attemptSyns c h (length (hl_sent l))
     \<and> (hl_result l = None \<longrightarrow> length (hl_sent l) = Suc k \<and> hl_attempt l = Suc k)"

text \<open>A sample pair of configurations, with Noise.\<close>

definition sample_server :: serverCfg where
  "sample_server = \<lparr> sc_env = sample_env, sc_passwords = [''key''], sc_privKey = Some (replicate 32 7), sc_allowedTargets = [],
     sc_targetAddr = ''tcp://a:1'', sc_maxSessions = 10, sc_FEC = None, sc_FECExtParity = None, sc_Recovery = None, sc_WideWindow = Some False \<rparr>"

definition sample_client :: clientCfg where
  "sample_client = \<lparr> cc_crypto = sample_crypto, cc_magic = 7, cc_passwords = [''key''],
     cc_serverPub = the (cr_x25519 sample_crypto (replicate 32 7) (cr_basepoint sample_crypto)),
     cc_FEC = None, cc_FECExtParity = Some False, cc_Recovery = None, cc_WideWindow = None \<rparr>"

section \<open>Lemmas\<close>

lemmas flag_defs = FLAG_FEC_CAPABLE_def FLAG_RECOVERY_CAPABLE_def FLAG_FEC_EXT_PARITY_def FLAG_WIDE_WINDOW_def

lemma synFlags_bits:
  "synFlags c AND FLAG_RECOVERY_CAPABLE \<noteq> 0 \<longleftrightarrow> fecEnabled (cc_Recovery c)"
  "synFlags c AND FLAG_WIDE_WINDOW \<noteq> 0 \<longleftrightarrow> fecEnabled (cc_WideWindow c)"
  "synFlags c AND FLAG_FEC_CAPABLE \<noteq> 0 \<longleftrightarrow> fecEnabled (cc_FEC c)"
  "synFlags c AND FLAG_FEC_EXT_PARITY \<noteq> 0 \<longleftrightarrow> fecEnabled (cc_FEC c) \<and> fecEnabled (cc_FECExtParity c)"
  by (simp_all add: synFlags_def Let_def flag_defs)

lemma ackFlags_bits:
  "ackFlags k AND FLAG_RECOVERY_CAPABLE \<noteq> 0 \<longleftrightarrow> fk_recovery k"
  "ackFlags k AND FLAG_WIDE_WINDOW \<noteq> 0 \<longleftrightarrow> fk_wideWindow k"
  "ackFlags k AND FLAG_FEC_CAPABLE \<noteq> 0 \<longleftrightarrow> fk_fec k"
  "ackFlags k AND FLAG_FEC_EXT_PARITY \<noteq> 0 \<longleftrightarrow> fk_fec k \<and> fk_fecExt k"
  by (simp_all add: ackFlags_def Let_def flag_defs)

text \<open>Both sides end with the same features: what the client offered and the server allows.\<close>

lemma negotiated:
  "clientNegotiate c (ackFlags (negotiate cfg (synFlags c) k)) k' =
     k'\<lparr>fk_fec := fk_fec (negotiate cfg (synFlags c) k), fk_fecExt := fk_fecExt (negotiate cfg (synFlags c) k),
        fk_recovery := fk_recovery (negotiate cfg (synFlags c) k), fk_wideWindow := fk_wideWindow (negotiate cfg (synFlags c) k)\<rparr>"
  unfolding clientNegotiate_def Let_def ackFlags_bits
  by (rule FrameKeys.equality) (auto simp: negotiate_def Let_def synFlags_bits)

lemma negotiate_keys [simp]: "Send (negotiate cfg fl k) = Send k" "Recv (negotiate cfg fl k) = Recv k"
  by (simp_all add: negotiate_def Let_def)

lemma sealed_handshake:
  assumes "SealFrameMAC (Some f) (Some k) = Some w" "Version f = UDPC_VERSION" "validUDPCCommand (Cmd f)"
  shows "parseUDPCFrame w (Magic f) = Inr (f\<lparr>raw := w\<rparr>)" "VerifyFrameAuth w (Some k) = Inr ()"
proof -
  define tag where "tag = frameMACInto k (encodeHeaderInto f (length (Data f)) @ Data f)"
  have w: "length (Data f) \<le> 1394" "w = frame_wire f tag" "length tag = 16"
    using assms(1) by (simp_all add: SealFrameMAC_eq tag_def)
  show "parseUDPCFrame w (Magic f) = Inr (f\<lparr>raw := w\<rparr>)"
    unfolding w(2) using w(1,3) assms(2,3) by (intro parse_frame_wire) simp_all
  show "VerifyFrameAuth w (Some k) = Inr ()"
    unfolding w(2) by (simp only: VerifyFrameAuth_wire [OF w(3)]) (simp add: tag_def)
qed

lemma matchSynPSK_sole:
  assumes "VerifyFrameAuth w (Some (synMAC cr nonce psk)) = Inr ()" "psk \<in> set passwords" "sole_key (synMAC cr nonce) passwords psk w"
  shows "matchSynPSK cr w passwords nonce = psk"
  using assms(2,3) by (induction passwords) (use assms(1) in \<open>auto simp: sole_key_def synMAC_def\<close>)

lemma matchAckPSK_sole:
  assumes "VerifyFrameAuth w (Some (ackMAC (cc_crypto c) nonce psk)) = Inr ()" "psk \<in> set passwords"
    "sole_key (ackMAC (cc_crypto c) nonce) passwords psk w"
  shows "matchAckPSK c nonce w passwords = psk"
  using assms(2,3) by (induction passwords) (use assms(1) in \<open>auto simp: sole_key_def ackMAC_def\<close>)

lemma length_appendTargetTLV:
  "length t \<le> TargetMaxLen \<Longrightarrow> length (appendTargetTLV p t) = length p + length (requestedTargetTLV t)"
  by (auto simp: appendTargetTLV_def requestedTargetTLV_def size_defs)

lemma requestedTargetTLV_bound: "length t \<le> TargetMaxLen \<Longrightarrow> length (requestedTargetTLV t) \<le> 257"
  by (auto simp: requestedTargetTLV_def size_defs)

lemma payload_base:
  assumes "b \<le> length p"
  shows "take b (appendTargetTLV p t @ m) = take b p" "bslice a b (appendTargetTLV p t @ m) = bslice a b p"
  using assms by (simp_all add: appendTargetTLV_append [of p] bslice_append_left)

text \<open>What \<open>startHandshake\<close> leaves for the attempts.\<close>

lemma startHandshake_Inr:
  assumes "startHandshake c pend target rnd (Some nonce) now = (Inr h, pend')"
  obtains msg1 nk where "clientNK c rnd = Inr (msg1, nk)" "length target \<le> TargetMaxLen" "map_of pend nonce = None"
    "h = \<lparr> ch_nonce = nonce, ch_nk = nk, ch_payload = synPayload nonce now target msg1, ch_flags = synFlags c \<rparr>"
    "pend' = AList.update nonce \<lparr> ph_ackMACs = ackMACs c nonce, ph_ch = [] \<rparr> pend"
  using assms by (auto simp: startHandshake_def split: if_splits sum.splits prod.splits)

lemma clientNK_msg1:
  assumes "clientNK c rnd = Inr (msg1, nk)"
  shows "if encrypted c then length msg1 = 48 else msg1 = []" "encrypted c \<longleftrightarrow> nk \<noteq> None"
proof -
  have "length m = 48" if "NewClientNK (cc_crypto c) rnd (cc_serverPub c) = Inr nk0" "Message1 (cc_crypto c) nk0 = (Inr m, nk1)" for nk0 m nk1
  proof -
    have "nk_msg1 nk0 = None" by (rule NewClientNK_Inr [OF that(1)])
    then show ?thesis using that(2) by (auto simp: Message1_def noiseMsg1Size_def Let_def split: if_splits prod.splits)
  qed
  then show "if encrypted c then length msg1 = 48 else msg1 = []" "encrypted c \<longleftrightarrow> nk \<noteq> None"
    using assms by (auto simp: clientNK_def split: if_splits sum.splits prod.splits)
qed

text \<open>A handshake leaves the table of pending handshakes as it found it.\<close>

lemma pending_restored:
  assumes "startHandshake c pend target rnd (Some nonce) now = (Inr h, pend')"
  shows "releasePending h pend' = pend"
proof -
  have "AList.delete k (AList.update k v xs) = AList.delete k xs" for k :: bytes and v :: pendingHandshake and xs
    by (induction xs) auto
  then show ?thesis using startHandshake_Inr [OF assms] by (metis clientHs.select_convs(1) delete_absent releasePending_def)
qed

text \<open>The payload of a client's SYN, as the server reads it.\<close>

lemma synPayload_fields:
  assumes "length nonce = clientNonceSize" "length target \<le> TargetMaxLen" "if hasNoise then length msg1 = 48 else msg1 = []"
  shows "splitSynPayload (synPayload nonce now target msg1) hasNoise = Inr (target, msg1)"
    "take clientNonceSize (synPayload nonce now target msg1) = nonce"
    "get_be (bslice clientNonceSize synPayloadBase (synPayload nonce now target msg1)) = (word_of_int (now div second) :: uint64)"
    "length (synPayload nonce now target msg1) = synPayloadBase + length (requestedTargetTLV target) + length msg1"
  using assms split_syn [of target "nonce @ put_be 8 (word_of_int (now div second) :: uint64)" hasNoise msg1]
  by (simp_all add: synPayload_def payload_base payload_base(1) [where m = "[]", simplified] length_appendTargetTLV size_defs bslice_append_right bslice_full)

text \<open>The payload of the server's acknowledgement, as the client reads it.\<close>

lemma ackFrame_fields:
  assumes "length (hr_clientNonce r) = clientNonceSize" "length serverNonce = serverNonceSize" "length (hr_target r) \<le> TargetMaxLen"
    "case noise of None \<Rightarrow> \<not> hasNoise | Some (_, msg2) \<Rightarrow> hasNoise \<and> length msg2 = 48"
  shows "splitAckPayload (Data (ackFrame cfg r noise serverNonce sid k)) hasNoise
      = Inr (hr_target r, case noise of None \<Rightarrow> [] | Some (_, msg2) \<Rightarrow> msg2)"
    "take clientNonceSize (Data (ackFrame cfg r noise serverNonce sid k)) = hr_clientNonce r"
    "bslice clientNonceSize ackPayloadBase (Data (ackFrame cfg r noise serverNonce sid k)) = serverNonce"
    "ackPayloadBase \<le> length (Data (ackFrame cfg r noise serverNonce sid k))"
    "length (Data (ackFrame cfg r noise serverNonce sid k)) \<le> 1394"
  using assms split_ack [of "hr_target r" "hr_clientNonce r @ serverNonce" hasNoise "case noise of None \<Rightarrow> [] | Some (_, msg2) \<Rightarrow> msg2"]
    requestedTargetTLV_bound [OF assms(3)]
  by (auto simp: ackFrame_def payload_base payload_base(1) [where m = "[]", simplified] length_appendTargetTLV size_defs bslice_append_right bslice_full
      split: option.splits)

lemma frameCiphers_agree:
  assumes "kdf_sizes cr"
  shows "\<exists>ks kc. ServerFrameCiphers (DerivePSKSessionKeys cr psk n1 n2 sid) = Inr ks
    \<and> ClientFrameCiphers (DerivePSKSessionKeys cr psk n1 n2 sid) = Inr kc \<and> Send kc = Recv ks \<and> Recv kc = Send ks"
  using assms by (simp add: ServerFrameCiphers_def ClientFrameCiphers_def frameCiphers_def newAEADCipherState_def
      DerivePSKSessionKeys_def Let_def kdf_sizes_def)

lemma timestamp_in_range: "0 \<le> t \<Longrightarrow> t < 2 ^ 63 \<Longrightarrow> sint (word_of_int t :: uint64) = t"
  by transfer (simp add: signed_take_bit_int_eq_self)

text \<open>What the server reads from a SYN that a client sealed.\<close>

lemma checkSyn_request:
  assumes "startHandshake c pend target rnd (Some nonce) now = (Inr h, pend')" "length nonce = clientNonceSize" "matching_configs cfg c"
    "sealSyn c h attempt = Some w" "parseUDPCFrame w (ev_magic (sc_env cfg)) = Inr f" "checkSyn cfg live f psk now' = Inr r"
  obtains msg1 nk where "clientNK c rnd = Inr (msg1, nk)" "length target \<le> TargetMaxLen" "ch_nonce h = nonce" "ch_nk h = nk"
    "map_of pend' nonce = Some \<lparr> ph_ackMACs = ackMACs c nonce, ph_ch = [] \<rparr>" "psk \<noteq> []"
    "r = \<lparr> hr_flags = synFlags c, hr_psk = psk, hr_clientNonce = nonce, hr_target = target, hr_noiseMsg1 = msg1 \<rparr>"
proof -
  obtain msg1 nk where h: "clientNK c rnd = Inr (msg1, nk)" "length target \<le> TargetMaxLen" "map_of pend nonce = None"
    "h = \<lparr> ch_nonce = nonce, ch_nk = nk, ch_payload = synPayload nonce now target msg1, ch_flags = synFlags c \<rparr>"
    "pend' = AList.update nonce \<lparr> ph_ackMACs = ackMACs c nonce, ph_ch = [] \<rparr> pend"
    using startHandshake_Inr [OF assms(1)] by metis
  have noise: "if sc_privKey cfg \<noteq> None then length msg1 = 48 else msg1 = []"
    using clientNK_msg1(1) [OF h(1)] assms(3) by (auto simp: matching_configs_def split: option.splits)
  note fields = synPayload_fields [OF assms(2) h(2) noise, of now]
  have "f = (synFrame c h)\<lparr>raw := w\<rparr>"
    using sealed_handshake(1) [OF assms(4) [unfolded sealSyn_def]] assms(3,5)
    by (simp add: synFrame_def validUDPCCommand_def cmd_defs matching_configs_def)
  then have dat: "Data f = synPayload nonce now target msg1" "Flags f = synFlags c"
    by (simp_all add: synFrame_def h(4))
  have "psk \<noteq> []" "r = \<lparr> hr_flags = synFlags c, hr_psk = psk, hr_clientNonce = nonce, hr_target = target, hr_noiseMsg1 = msg1 \<rparr>"
    using assms(6) unfolding checkSyn_def Let_def dat fields by (auto split: if_splits)
  then show ?thesis using that h(1,2) by (simp add: h(4,5) update_conv')
qed

text \<open>The Noise parts of both sides agree, and the second message has its fixed size.\<close>

lemma noise_parts_agree:
  assumes "aead_correct (cc_crypto c)" "dh_correct (cc_crypto c)" "kdf_sizes (cc_crypto c)" "matching_configs cfg c"
    "clientNK c rnd = Inr (msg1, nk)" "hr_noiseMsg1 r = msg1" "serverNoise cfg r rnd' = Inr noise"
  shows "(noise = None \<and> nk = None \<and> \<not> encrypted c) \<or> (\<exists>ss msg2 nk1 cs. noise = Some (ss, msg2) \<and> nk = Some nk1 \<and> encrypted c
     \<and> length msg2 = 48 \<and> fst (Finish (cc_crypto c) nk1 msg2) = Inr cs \<and> SendCipher cs = RecvCipher ss \<and> RecvCipher cs = SendCipher ss)"
proof (cases "sc_privKey cfg")
  case None
  then show ?thesis using assms(4,5,7) by (auto simp: matching_configs_def serverNoise_def clientNK_def)
next
  case (Some priv)
  then have enc: "encrypted c" "cr_x25519 (cc_crypto c) priv (cr_basepoint (cc_crypto c)) = Some (cc_serverPub c)"
      "ev_crypto (sc_env cfg) = cc_crypto c"
    using assms(4) by (auto simp: matching_configs_def)
  obtain nk0 nk1 where nk: "NewClientNK (cc_crypto c) rnd (cc_serverPub c) = Inr nk0" "Message1 (cc_crypto c) nk0 = (Inr msg1, nk1)" "nk = Some nk1"
    using assms(5) enc(1) by (auto simp: clientNK_def split: sum.splits prod.splits)
  obtain ss msg2 where ss: "NewServerNoiseSession (cc_crypto c) rnd' priv msg1 = Inr (ss, msg2)" "noise = Some (ss, msg2)"
    using assms(6,7) Some enc(3) by (auto simp: serverNoise_def split: sum.splits)
  obtain cs c2 where fin: "Finish (cc_crypto c) nk1 msg2 = (Inr cs, c2)" "SendCipher cs = RecvCipher ss" "RecvCipher cs = SendCipher ss"
    using noise_keys_agree [OF assms(1-3) enc(2) nk(1), of rnd'] nk(2) ss(1) by auto
  have "length msg2 = 48"
    using fin(1) by (auto simp: Finish_def noiseMsg2Size_def split: if_splits)
  then show ?thesis using enc(1) nk(3) ss(2) fin by auto
qed

lemma ack_wire:
  assumes "length (Data (ackFrame cfg r noise serverNonce sid k)) \<le> 1394"
  shows "parseUDPCFrame (ackEncoded cfg r noise serverNonce sid k) (ev_magic (sc_env cfg))
      = Inr ((ackFrame cfg r noise serverNonce sid k)\<lparr>raw := ackEncoded cfg r noise serverNonce sid k\<rparr>)"
    "VerifyFrameAuth (ackEncoded cfg r noise serverNonce sid k) (Some (AckMAC (handshakeKeys cfg r))) = Inr ()"
proof -
  have "\<exists>w. SealFrameMAC (Some (ackFrame cfg r noise serverNonce sid k)) (Some (AckMAC (handshakeKeys cfg r))) = Some w"
    using assms by (simp add: SealFrameMAC_eq)
  then have "SealFrameMAC (Some (ackFrame cfg r noise serverNonce sid k)) (Some (AckMAC (handshakeKeys cfg r)))
      = Some (ackEncoded cfg r noise serverNonce sid k)"
    by (auto simp: ackEncoded_def)
  note wire = sealed_handshake [OF this]
  show "parseUDPCFrame (ackEncoded cfg r noise serverNonce sid k) (ev_magic (sc_env cfg))
      = Inr ((ackFrame cfg r noise serverNonce sid k)\<lparr>raw := ackEncoded cfg r noise serverNonce sid k\<rparr>)"
    "VerifyFrameAuth (ackEncoded cfg r noise serverNonce sid k) (Some (AckMAC (handshakeKeys cfg r))) = Inr ()"
    using wire by (simp_all add: ackFrame_def validUDPCCommand_def cmd_defs)
qed

text \<open>The client takes the acknowledgement's keys: the server's, with the directions exchanged.\<close>

lemma onAck_keys:
  assumes crypto: "aead_correct (cc_crypto c)" "dh_correct (cc_crypto c)" "kdf_sizes (cc_crypto c)" "matching_configs cfg c"
    and client: "clientNK c rnd = Inr (msg1, ch_nk h)" "hr_noiseMsg1 r = msg1" "hr_flags r = synFlags c" "hr_clientNonce r = ch_nonce h"
    and server: "serverNoise cfg r rnd' = Inr noise" "serverFrameKeys cfg r noise serverNonce (SessionID ack) = Inr k"
    and ack: "matchAckPSK c (ch_nonce h) (raw ack) (cc_passwords c) = hr_psk r" "hr_psk r \<noteq> []"
      "splitAckPayload (Data ack) (encrypted c) = Inr (target, case noise of None \<Rightarrow> [] | Some (_, msg2) \<Rightarrow> msg2)"
      "take clientNonceSize (Data ack) = ch_nonce h" "bslice clientNonceSize ackPayloadBase (Data ack) = serverNonce" "Flags ack = ackFlags k"
  shows "\<exists>kc. onAck c h ack = Some (Inr (SessionID ack, kc, target)) \<and> Send kc = Recv k \<and> Recv kc = Send k
     \<and> fk_fec kc = fk_fec k \<and> fk_fecExt kc = fk_fecExt k \<and> fk_recovery kc = fk_recovery k \<and> fk_wideWindow kc = fk_wideWindow k"
proof -
  have env: "ev_crypto (sc_env cfg) = cc_crypto c" using crypto(4) by (simp add: matching_configs_def)
  have result: ?thesis if "onAck c h ack = Some (Inr (SessionID ack, clientNegotiate c (ackFlags k) kc, target))"
    "Send kc = Recv k" "Recv kc = Send k" "k = negotiate cfg (synFlags c) k0" for kc k0
    using that by (intro exI [of _ "clientNegotiate c (ackFlags k) kc"]) (simp add: negotiated)
  from noise_parts_agree [OF crypto client(1,2) server(1)] show ?thesis
  proof (elim disjE conjE exE)
    assume none: "noise = None" "ch_nk h = None" "\<not> encrypted c"
    obtain ks kc where ks: "ServerFrameCiphers (DerivePSKSessionKeys (cc_crypto c) (hr_psk r) (ch_nonce h) serverNonce (SessionID ack)) = Inr ks"
      "ClientFrameCiphers (DerivePSKSessionKeys (cc_crypto c) (hr_psk r) (ch_nonce h) serverNonce (SessionID ack)) = Inr kc"
      "Send kc = Recv ks" "Recv kc = Send ks"
      using frameCiphers_agree [OF crypto(3)] by blast
    have "k = negotiate cfg (synFlags c) ks" using server(2) none(1) ks(1) client(3,4) by (simp add: serverFrameKeys_def env)
    then show ?thesis using ks none ack by (intro result [of kc ks]) (simp_all add: onAck_def Let_def)
  next
    fix ss msg2 nk1 cs
    assume some: "noise = Some (ss, msg2)" "ch_nk h = Some nk1" "encrypted c" "fst (Finish (cc_crypto c) nk1 msg2) = Inr cs"
      "SendCipher cs = RecvCipher ss" "RecvCipher cs = SendCipher ss"
    have "k = negotiate cfg (synFlags c) (noiseFrameKeys ss)" using server(2) some(1) client(3) by (simp add: serverFrameKeys_def)
    then show ?thesis using some ack
      by (intro result [of "noiseFrameKeys cs" "noiseFrameKeys ss"]) (simp_all add: onAck_def Let_def noiseFrameKeys_def)
  qed
qed

lemma syn_accepted:
  assumes cfg: "matching_configs cfg c"
    and start: "startHandshake c pend target rnd (Some nonce) now = (Inr h, pend')" "length nonce = clientNonceSize"
    and syn: "sealSyn c h attempt = Some w" "attemptPSK c attempt \<in> set (sc_passwords cfg)" "attemptPSK c attempt \<noteq> []"
      "sole_key (synMAC (cc_crypto c) nonce) (sc_passwords cfg) (attemptPSK c attempt) w"
    and clocks: "0 \<le> now div second" "now div second < 2 ^ 63" "\<bar>now div second - now' div second\<bar> \<le> synTimestampWindow"
    and granted: "target = [] \<or> targetAllowed target (sc_allowedTargets cfg) = Some True"
      "sc_maxSessions cfg \<le> 0 \<or> live < sc_maxSessions cfg"
  shows "\<exists>f msg1 nk. parseUDPCFrame w (ev_magic (sc_env cfg)) = Inr f \<and> clientNK c rnd = Inr (msg1, nk)
     \<and> matchSynPSK (cc_crypto c) (raw f) (sc_passwords cfg) (take clientNonceSize (Data f)) = attemptPSK c attempt
     \<and> checkSyn cfg live f (attemptPSK c attempt) now' = Inr \<lparr> hr_flags = synFlags c, hr_psk = attemptPSK c attempt,
         hr_clientNonce = nonce, hr_target = target, hr_noiseMsg1 = msg1 \<rparr>"
proof -
  obtain msg1 nk where h: "clientNK c rnd = Inr (msg1, nk)" "length target \<le> TargetMaxLen"
    "h = \<lparr> ch_nonce = nonce, ch_nk = nk, ch_payload = synPayload nonce now target msg1, ch_flags = synFlags c \<rparr>"
    using startHandshake_Inr [OF start(1)] by metis
  have noise: "if sc_privKey cfg \<noteq> None then length msg1 = 48 else msg1 = []"
    using clientNK_msg1(1) [OF h(1)] cfg by (auto simp: matching_configs_def split: option.splits)
  note fields = synPayload_fields [OF start(2) h(2) noise, of now]
  define f where "f = (synFrame c h)\<lparr>raw := w\<rparr>"
  have parsed: "parseUDPCFrame w (ev_magic (sc_env cfg)) = Inr f" "VerifyFrameAuth w (Some (synMAC (cc_crypto c) nonce (attemptPSK c attempt))) = Inr ()"
    using sealed_handshake [OF syn(1) [unfolded sealSyn_def]] cfg
    by (simp_all add: synFrame_def f_def synMAC_def h(3) validUDPCCommand_def cmd_defs matching_configs_def)
  have dat: "Data f = synPayload nonce now target msg1" "Flags f = synFlags c" "raw f = w"
    by (simp_all add: f_def synFrame_def h(3))
  have "matchSynPSK (cc_crypto c) (raw f) (sc_passwords cfg) (take clientNonceSize (Data f)) = attemptPSK c attempt"
    using matchSynPSK_sole [OF parsed(2) syn(2,4)] by (simp add: dat fields)
  moreover have "synTimeOk (sint (word_of_int (now div second) :: uint64)) now'"
    using clocks by (simp add: timestamp_in_range synTimeOk_def Let_def abs_le_iff)
  then have "checkSyn cfg live f (attemptPSK c attempt) now' = Inr \<lparr> hr_flags = synFlags c, hr_psk = attemptPSK c attempt,
         hr_clientNonce = nonce, hr_target = target, hr_noiseMsg1 = msg1 \<rparr>"
    using syn(3) granted noise requestedTargetTLV_bound [OF h(2)]
    unfolding checkSyn_def Let_def dat fields by (auto simp: size_defs split: if_splits)
  ultimately show ?thesis using parsed(1) h(1) by blast
qed

subsection \<open>The client's loop\<close>

lemma attemptSyns_simps: "attemptSyns c h 0 = []" "attemptSyns c h (Suc n) = attemptSyns c h n @ [the (sealSyn c h (Suc n))]"
  by (simp_all add: attemptSyns_def)

lemma length_attemptSyns: "length (attemptSyns c h n) = n"
  by (simp add: attemptSyns_def)

lemma loop_begin:
  assumes "hl_sent l = attemptSyns c h n" "length (hl_sent l) = n" "n \<le> clientMaxHandshakeAttempts" "hl_result l = None"
  shows "loop_inv c h n (beginAttempt c h (Suc n) l)"
proof (cases "clientMaxHandshakeAttempts < Suc n")
  case True
  then show ?thesis using assms by (simp add: loop_inv_def beginAttempt_def)
next
  case False
  then show ?thesis using assms by (cases "sealSyn c h (Suc n)") (simp_all add: loop_inv_def beginAttempt_def attemptSyns_simps)
qed

lemma loop_step:
  assumes "loop_inv c h k l"
  shows "loop_inv c h (k + (if sig = TimerFired then 1 else 0)) (handshakeLoop_step c h sig l)"
proof (cases "hl_result l")
  case None
  have l: "hl_sent l = attemptSyns c h (Suc k)" "length (hl_sent l) = Suc k" "Suc k \<le> clientMaxHandshakeAttempts" "hl_attempt l = Suc k"
    using assms None unfolding loop_inv_def by metis+
  show ?thesis
  proof (cases sig)
    case TimerFired
    then show ?thesis using loop_begin [OF l(1-3) None] l(4) None by (simp add: handshakeLoop_step_def)
  qed (use l None in \<open>simp_all add: handshakeLoop_step_def loop_inv_def length_attemptSyns\<close>)
next
  case (Some r)
  then have "handshakeLoop_step c h sig l = l" by (simp add: handshakeLoop_step_def)
  then show ?thesis using assms Some unfolding loop_inv_def by simp
qed

lemma loop_run: "loop_inv c h k l \<Longrightarrow> loop_inv c h (k + length (filter ((=) TimerFired) sigs)) (fold (handshakeLoop_step c h) sigs l)"
proof (induction sigs arbitrary: k l)
  case (Cons sig sigs)
  from Cons.IH [OF loop_step [OF Cons.prems, of sig]] show ?case by (cases "sig = TimerFired") auto
qed simp

subsection \<open>The sample exchange\<close>

lemma sample_matching: "matching_configs sample_server sample_client"
proof -
  obtain xs where x: "cr_x25519 sample_crypto (replicate 32 7) (cr_basepoint sample_crypto) = Some (1 # xs)"
    by (simp add: sample_crypto_def)
  have "(1 :: byte) # xs \<noteq> replicate 32 0"
    by (metis hd_replicate list.sel(1) zero_neq_numeral zero_neq_one)
  then show ?thesis using x by (simp add: matching_configs_def sample_server_def sample_client_def sample_env_def encrypted_def)
qed

lemma sample_start:
  obtains h pend' w where "startHandshake sample_client [] [] (Some (replicate 32 1)) (Some (replicate 16 5)) 0 = (Inr h, pend')"
    "sealSyn sample_client h 1 = Some w" "attemptPSK sample_client 1 = ''key''"
proof -
  define pub where "pub = the (cr_x25519 sample_crypto (replicate 32 7) (cr_basepoint sample_crypto))"
  have pub: "cr_x25519 sample_crypto (replicate 32 7) (cr_basepoint sample_crypto) = Some pub"
    by (simp add: pub_def sample_crypto_def)
  have cl: "cc_crypto sample_client = sample_crypto" "cc_serverPub sample_client = pub" "encrypted sample_client"
    using sample_matching by (simp_all add: sample_client_def pub_def matching_configs_def sample_server_def)
  obtain nk where nk: "NewClientNK sample_crypto (Some (replicate 32 1)) pub = Inr nk" using sample_no_error(1) by blast
  obtain msg1 nk1 where m: "Message1 sample_crypto nk = (Inr msg1, nk1)"
    using noise_keys_agree [OF sample_crypto_ok pub nk, of "Some (replicate 32 2)"] by blast
  have client: "clientNK sample_client (Some (replicate 32 1)) = Inr (msg1, Some nk1)"
    by (simp add: clientNK_def cl nk m)
  define h where "h = \<lparr> ch_nonce = replicate 16 (5 :: byte), ch_nk = Some nk1, ch_payload = synPayload (replicate 16 5) 0 [] msg1,
    ch_flags = synFlags sample_client \<rparr>"
  obtain pend' where st: "startHandshake sample_client [] [] (Some (replicate 32 1)) (Some (replicate 16 5)) 0 = (Inr h, pend')"
    by (simp add: startHandshake_def client h_def)
  have "length (synPayload (replicate 16 5) 0 [] msg1) = 72"
    using clientNK_msg1(1) [OF client] cl(3) by (simp add: synPayload_def appendTargetTLV_def)
  then obtain w where "sealSyn sample_client h 1 = Some w"
    by (simp add: sealSyn_def SealFrameMAC_eq synFrame_def h_def)
  then show ?thesis using that st by (simp add: attemptPSK_def sample_client_def)
qed

lemma sample_server_noise:
  assumes "clientNK sample_client (Some (replicate 32 1)) = Inr (hr_noiseMsg1 r, nk)"
  shows "\<exists>noise. serverNoise sample_server r (Some (replicate 32 2)) = Inr noise \<and> noise \<noteq> None"
proof -
  have cl: "cc_crypto sample_client = sample_crypto" "encrypted sample_client" "sc_privKey sample_server = Some (replicate 32 7)"
      "ev_crypto (sc_env sample_server) = sample_crypto"
      "cr_x25519 sample_crypto (replicate 32 7) (cr_basepoint sample_crypto) = Some (cc_serverPub sample_client)"
    using sample_matching by (simp_all add: sample_client_def matching_configs_def sample_server_def sample_env_def)
  obtain nk0 nk1 where nk: "NewClientNK sample_crypto (Some (replicate 32 1)) (cc_serverPub sample_client) = Inr nk0"
      "Message1 sample_crypto nk0 = (Inr (hr_noiseMsg1 r), nk1)"
    using assms by (auto simp: clientNK_def cl split: sum.splits prod.splits)
  have "case NewServerNoiseSession sample_crypto (Some (replicate 32 2)) (replicate 32 7) (hr_noiseMsg1 r) of
      Inl e \<Rightarrow> e \<in> {RandomFailed, CurveFailed, DegenerateDH} | Inr _ \<Rightarrow> True"
    using noise_keys_agree [OF sample_crypto_ok cl(5) nk(1), of "Some (replicate 32 2)"] nk(2) by (auto split: sum.splits)
  then show ?thesis
    using sample_no_error(2) [of "replicate 32 2" "replicate 32 7" "hr_noiseMsg1 r"] by (auto simp: serverNoise_def cl split: sum.splits)
qed

lemma sample_sole: "sole_key mac [''key''] ''key'' w"
  by (simp add: sole_key_def)

section \<open>Properties\<close>

text \<open>C14: a genuine SYN is accepted.  When the configurations match, the clocks agree within the
  window, the requested target is allowed (or the default) and the session cap is not reached, the
  SYN of every attempt whose key the server lists parses, selects that key and passes every check, and
  the server reads from it exactly the client's nonce, features, target and Noise message.\<close>

theorem genuine_syn_accepted:
  assumes cfg: "matching_configs cfg c"
    and start: "startHandshake c pend target rnd (Some nonce) now = (Inr h, pend')" "length nonce = clientNonceSize"
    and syn: "sealSyn c h attempt = Some w" "attemptPSK c attempt \<in> set (sc_passwords cfg)" "attemptPSK c attempt \<noteq> []"
      "sole_key (synMAC (cc_crypto c) nonce) (sc_passwords cfg) (attemptPSK c attempt) w"
    and clocks: "0 \<le> now div second" "now div second < 2 ^ 63" "\<bar>now div second - now' div second\<bar> \<le> synTimestampWindow"
    and granted: "target = [] \<or> targetAllowed target (sc_allowedTargets cfg) = Some True"
      "sc_maxSessions cfg \<le> 0 \<or> live < sc_maxSessions cfg"
  shows "\<exists>f msg1 nk. parseUDPCFrame w (ev_magic (sc_env cfg)) = Inr f \<and> clientNK c rnd = Inr (msg1, nk)
     \<and> matchSynPSK (cc_crypto c) (raw f) (sc_passwords cfg) (take clientNonceSize (Data f)) = attemptPSK c attempt
     \<and> checkSyn cfg live f (attemptPSK c attempt) now' = Inr \<lparr> hr_flags = synFlags c, hr_psk = attemptPSK c attempt,
         hr_clientNonce = nonce, hr_target = target, hr_noiseMsg1 = msg1 \<rparr>"
  by (rule syn_accepted [OF assms])

theorem genuine_syn_accepted_witness:
  "\<exists>h pend' w f msg1. startHandshake sample_client [] [] (Some (replicate 32 1)) (Some (replicate 16 5)) 0 = (Inr h, pend')
     \<and> sealSyn sample_client h 1 = Some w \<and> parseUDPCFrame w 7 = Inr f
     \<and> checkSyn sample_server 3 f ''key'' (200 * second) = Inr \<lparr> hr_flags = synFlags sample_client, hr_psk = ''key'',
         hr_clientNonce = replicate 16 5, hr_target = [], hr_noiseMsg1 = msg1 \<rparr>"
proof -
  obtain h pend' w where s: "startHandshake sample_client [] [] (Some (replicate 32 1)) (Some (replicate 16 5)) 0 = (Inr h, pend')"
    "sealSyn sample_client h 1 = Some w" "attemptPSK sample_client 1 = ''key''"
    by (rule sample_start)
  show ?thesis
    using genuine_syn_accepted [OF sample_matching s(1) _ s(2), of "200 * second" 3] s sample_sole
    by (auto simp: clientNonceSize_def sample_server_def sample_env_def synTimestampWindow_def)
qed

text \<open>C10: the handshake agrees.  Let the server build a session from a SYN that the client sealed,
  under a password the client knows.  The acknowledgement it sends parses, is queued for exactly
  that handshake, and ends the client's wait with the session number the server chose and the target
  the client asked for.  Each side's sending key is the other's receiving key, and both sides hold
  the same answer for each of the four optional features, with Noise and without.\<close>

theorem handshake_agrees:
  assumes crypto: "aead_correct (cc_crypto c)" "dh_correct (cc_crypto c)" "kdf_sizes (cc_crypto c)"
    and start: "startHandshake c pend target rnd (Some nonce) now = (Inr h, pend')" "length nonce = clientNonceSize" "matching_configs cfg c"
    and syn: "sealSyn c h attempt = Some w" "parseUDPCFrame w (ev_magic (sc_env cfg)) = Inr f" "checkSyn cfg live f psk now' = Inr r"
      "psk \<in> set (cc_passwords c)"
    and server: "serverNoise cfg r rnd' = Inr noise" "length serverNonce = serverNonceSize" "sid \<noteq> 0"
      "serverFrameKeys cfg r noise serverNonce sid = Inr k"
      "sole_key (ackMAC (cc_crypto c) nonce) (cc_passwords c) psk (ackEncoded cfg r noise serverNonce sid k)"
  shows "\<exists>ack kc. parseUDPCFrame (ackEncoded cfg r noise serverNonce sid k) (cc_magic c) = Inr ack
     \<and> map_option ph_ch (map_of (dispatchAck ack pend') nonce) = Some [ack]
     \<and> onAck c h ack = Some (Inr (sid, kc, target))
     \<and> Send kc = Recv k \<and> Recv kc = Send k
     \<and> fk_fec kc = fk_fec k \<and> fk_fecExt kc = fk_fecExt k \<and> fk_recovery kc = fk_recovery k \<and> fk_wideWindow kc = fk_wideWindow k"
proof -
  obtain msg1 nk where h: "clientNK c rnd = Inr (msg1, nk)" "length target \<le> TargetMaxLen" "ch_nonce h = nonce" "ch_nk h = nk"
    "map_of pend' nonce = Some \<lparr> ph_ackMACs = ackMACs c nonce, ph_ch = [] \<rparr>" "psk \<noteq> []"
    and r: "r = \<lparr> hr_flags = synFlags c, hr_psk = psk, hr_clientNonce = nonce, hr_target = target, hr_noiseMsg1 = msg1 \<rparr>"
    using checkSyn_request [OF start syn(1-3)] by metis
  define w' where "w' = ackEncoded cfg r noise serverNonce sid k"
  define ack where "ack = (ackFrame cfg r noise serverNonce sid k)\<lparr>raw := w'\<rparr>"
  have "case noise of None \<Rightarrow> \<not> encrypted c | Some (_, msg2) \<Rightarrow> encrypted c \<and> length msg2 = 48"
    using noise_parts_agree [OF crypto start(3) h(1) _ server(1)] r by auto
  note dat = ackFrame_fields [where r = r and noise = noise and cfg = cfg and sid = sid and k = k, OF _ server(2) _ this,
      unfolded r, simplified, OF start(2) h(2), folded r]
  have ack: "SessionID ack = sid" "PacketNo ack = 0" "Seq ack = 0" "Ack ack = 0" "raw ack = w'" "Flags ack = ackFlags k"
      "Data ack = Data (ackFrame cfg r noise serverNonce sid k)"
    by (simp_all add: ack_def ackFrame_def)
  have wire: "parseUDPCFrame w' (cc_magic c) = Inr ack" "VerifyFrameAuth w' (Some (ackMAC (cc_crypto c) nonce psk)) = Inr ()"
    using ack_wire [OF dat(5)] start(3) by (simp_all add: w'_def ack_def matching_configs_def ackMAC_def handshakeKeys_def) (simp add: r)
  have queued: "map_option ph_ch (map_of (dispatchAck ack pend') nonce) = Some [ack]"
    using wire(2) syn(4) server(3) dat h(5)
    by (auto simp: dispatchAck_def Let_def ack verifyAck_def ackMACs_def list_ex_iff ackMAC_def ackQueueSize_def update_conv')
  have matched: "matchAckPSK c nonce (raw ack) (cc_passwords c) = psk"
    using matchAckPSK_sole [OF wire(2) syn(4)] server(5) by (simp add: ack w'_def)
  have req: "hr_noiseMsg1 r = msg1" "hr_flags r = synFlags c" "hr_clientNonce r = ch_nonce h" "hr_psk r = psk"
    by (simp_all add: r h(3))
  have keys: "\<exists>kc. onAck c h ack = Some (Inr (SessionID ack, kc, target)) \<and> Send kc = Recv k \<and> Recv kc = Send k
     \<and> fk_fec kc = fk_fec k \<and> fk_fecExt kc = fk_fecExt k \<and> fk_recovery kc = fk_recovery k \<and> fk_wideWindow kc = fk_wideWindow k"
    by (rule onAck_keys [OF crypto start(3) h(1) [folded h(4)] req(1-3) server(1)]; (unfold ack req h(3))?; fact server(4) matched [unfolded ack] h(6) dat(1-3) refl)
  obtain kc where "onAck c h ack = Some (Inr (sid, kc, target))" "Send kc = Recv k" "Recv kc = Send k" "fk_fec kc = fk_fec k"
      "fk_fecExt kc = fk_fecExt k" "fk_recovery kc = fk_recovery k" "fk_wideWindow kc = fk_wideWindow k"
    using keys unfolding ack(1) by blast
  with wire(1) queued show ?thesis by (auto simp: w'_def)
qed

theorem handshake_agrees_witness:
  "\<exists>h pend' w f r noise k ack kc. startHandshake sample_client [] [] (Some (replicate 32 1)) (Some (replicate 16 5)) 0 = (Inr h, pend')
     \<and> sealSyn sample_client h 1 = Some w \<and> parseUDPCFrame w 7 = Inr f \<and> checkSyn sample_server 3 f ''key'' 0 = Inr r
     \<and> serverNoise sample_server r (Some (replicate 32 2)) = Inr noise
     \<and> serverFrameKeys sample_server r noise (replicate 16 6) 9 = Inr k
     \<and> parseUDPCFrame (ackEncoded sample_server r noise (replicate 16 6) 9 k) 7 = Inr ack
     \<and> onAck sample_client h ack = Some (Inr (9, kc, [])) \<and> Send kc = Recv k \<and> Recv kc = Send k"
proof -
  obtain h pend' w where s: "startHandshake sample_client [] [] (Some (replicate 32 1)) (Some (replicate 16 5)) 0 = (Inr h, pend')"
    "sealSyn sample_client h 1 = Some w" "attemptPSK sample_client 1 = ''key''"
    by (rule sample_start)
  have c: "cc_crypto sample_client = sample_crypto" "cc_magic sample_client = 7" "cc_passwords sample_client = [''key'']"
    by (simp_all add: sample_client_def)
  obtain f msg1 nk r where f: "parseUDPCFrame w (ev_magic (sc_env sample_server)) = Inr f" "clientNK sample_client (Some (replicate 32 1)) = Inr (msg1, nk)"
      "checkSyn sample_server 3 f ''key'' 0 = Inr r" "hr_noiseMsg1 r = msg1"
    using syn_accepted [OF sample_matching s(1) _ s(2), of 0 3] s(3) sample_sole
    by (auto simp: clientNonceSize_def sample_server_def sample_env_def synTimestampWindow_def)
  obtain noise where noise: "serverNoise sample_server r (Some (replicate 32 2)) = Inr noise" "noise \<noteq> None"
    using sample_server_noise [OF f(2) [folded f(4)]] by blast
  then obtain k where k: "serverFrameKeys sample_server r noise (replicate 16 6) 9 = Inr k"
    by (auto simp: serverFrameKeys_def)
  show ?thesis
    using handshake_agrees [of sample_client, unfolded c, OF sample_crypto_ok s(1) _ sample_matching s(2) f(1,3) _ noise(1) _ _ k _]
      s(1,2) f noise(1) k sample_sole
    by (auto simp: size_defs sample_server_def sample_env_def)
qed

text \<open>C37: the client's handshake returns.  Whatever else it receives, once its timer has fired eight
  times the handshake has a result.  The SYNs it sent are those of the attempts 1, 2, ... in order, at
  most eight.\<close>

theorem handshake_returns:
  assumes "clientMaxHandshakeAttempts \<le> length (filter ((=) TimerFired) sigs)"
  shows "hl_result (handshakeLoop c h sigs) \<noteq> None \<and> length (hl_sent (handshakeLoop c h sigs)) \<le> clientMaxHandshakeAttempts
     \<and> hl_sent (handshakeLoop c h sigs) = map (\<lambda>a. the (sealSyn c h a)) [1..<Suc (length (hl_sent (handshakeLoop c h sigs)))]"
proof -
  have "loop_inv c h 0 (beginAttempt c h (Suc 0) \<lparr> hl_attempt = 0, hl_sent = [], hl_result = None \<rparr>)"
    by (rule loop_begin) (simp_all add: attemptSyns_simps)
  from loop_run [OF this, of sigs] have inv: "loop_inv c h (length (filter ((=) TimerFired) sigs)) (handshakeLoop c h sigs)"
    by (simp add: handshakeLoop_def)
  then show ?thesis using assms unfolding loop_inv_def attemptSyns_def by linarith
qed

theorem handshake_returns_witness:
  "\<exists>h pend'. startHandshake sample_client [] [] (Some (replicate 32 1)) (Some (replicate 16 5)) 0 = (Inr h, pend')
     \<and> hl_result (handshakeLoop sample_client h (replicate 8 TimerFired)) \<noteq> None
     \<and> length (hl_sent (handshakeLoop sample_client h (replicate 8 TimerFired))) \<le> clientMaxHandshakeAttempts"
proof -
  obtain h pend' w where s: "startHandshake sample_client [] [] (Some (replicate 32 1)) (Some (replicate 16 5)) 0 = (Inr h, pend')"
    by (rule sample_start)
  have "clientMaxHandshakeAttempts \<le> length (filter ((=) TimerFired) (replicate 8 TimerFired))"
    by (simp add: clientMaxHandshakeAttempts_def)
  from handshake_returns [OF this, of sample_client h] s show ?thesis by blast
qed

end
