(* ===== verification/ServerTable.thy ===== *)
theory ServerTable
  imports ServerStream Handshake
begin

text \<open>
  The server as a whole (\<^verbatim>\<open>tunnel/server.go\<close>: \<open>serveConn\<close>, \<open>handleHandshake\<close>, \<open>cleanupLoop\<close>, \<open>Close\<close>):
  the table of sessions, the handshakes under way, the handshake cache and the limiter.  Each SYN that
  passes the gates runs as its own goroutine; it is a value of \<open>hsPhase\<close> and advances one turn at a
  time, so that handshakes interleave with each other, with the sessions and with the server's end.
  A turn reaches from one point where the goroutine waits, or another may overtake it, to the next.
  What a turn reads from its surroundings is a record of inputs.  \<open>sv_out\<close> (the handshake replies) and
  \<open>sv_log\<close> (the cache keys of the completed handshakes) are traces, not fields of the Go struct.
  Storing a session, registering it and counting it are one turn; the source documents the short
  interval between them, in which a closing session may leave the counter one too high.
\<close>

section \<open>Definitions\<close>

record liveSession =
  ls_sess :: ServerSession
  ls_target :: "target_network \<times> string"

datatype hsPhase =
    Started UDPCFrame string
  | AwaitSlot hsRequest
  | AwaitDial hsRequest "(NoiseSession \<times> bytes) option" uint32
  | Built hsRequest "(NoiseSession \<times> bytes) option" uint32 bytes FrameKeys ServerSession

record handshake =
  hs_remoteAddr :: AddrPort
  hs_origPort :: int
  hs_phase :: hsPhase

text \<open>\<open>sv_addrString\<close> is the text form of an address, \<^verbatim>\<open>netip.Addr.String\<close>.\<close>

record Server =
  sv_cfg :: serverCfg
  sv_addrString :: "ip \<Rightarrow> string"
  sv_sessions :: "(uint32 \<times> liveSession) list"
  sv_liveSessions :: int
  sv_synCache :: "ip synCache"
  sv_synLimiter :: synLimiter
  sv_handshakes :: "handshake list"
  sv_closed :: bool
  sv_decodeFailures :: nat
  sv_out :: "outbound list"
  sv_log :: "synCacheKey list"

definition newServer :: "serverCfg \<Rightarrow> (ip \<Rightarrow> string) \<Rightarrow> Server" where
  "newServer cfg addrString = \<lparr> sv_cfg = cfg, sv_addrString = addrString, sv_sessions = [], sv_liveSessions = 0,
     sv_synCache = newSynCache, sv_synLimiter = newSynLimiter synRatePerSec synBurst, sv_handshakes = [],
     sv_closed = False, sv_decodeFailures = 0, sv_out = [], sv_log = [] \<rparr>"

definition handshakeMaxConcurrent :: nat where "handshakeMaxConcurrent = 64"
definition sessionIdleTimeout :: duration where "sessionIdleTimeout = 180 * second"

subsection \<open>Sessions of the table\<close>

text \<open>An operation on one session.  When it closes a registered session, \<open>Close\<close> also releases the
  session's place in the table and in the count.\<close>

definition onSession :: "uint32 \<Rightarrow> (ServerSession \<Rightarrow> ServerSession) \<Rightarrow> Server \<Rightarrow> Server" where
  "onSession sid g sv = (case map_of (sv_sessions sv) sid of
     None \<Rightarrow> sv
   | Some ls \<Rightarrow>
       (let s' = g (ls_sess ls)
        in if ses_registered (ls_sess ls) \<and> \<not> ses_registered s'
           then sv\<lparr>sv_sessions := AList.delete sid (sv_sessions sv), sv_liveSessions := sv_liveSessions sv - 1\<rparr>
           else sv\<lparr>sv_sessions := AList.update sid (ls\<lparr>ls_sess := s'\<rparr>) (sv_sessions sv)\<rparr>))"

definition cleanup :: "int \<Rightarrow> Server \<Rightarrow> Server" where
  "cleanup now sv = (if sv_closed sv then sv
     else fold (\<lambda>sid. onSession sid (\<lambda>s. if now - ses_lastActive s > sessionIdleTimeout then sess_Close s else s))
            (map fst (sv_sessions sv)) sv)"

definition closeServer :: "Server \<Rightarrow> Server" where
  "closeServer sv = (if sv_closed sv then sv
     else fold (\<lambda>sid. onSession sid sess_Close) (map fst (sv_sessions sv)) (sv\<lparr>sv_closed := True\<rparr>))"

subsection \<open>Handshakes\<close>

fun holdsSlot :: "hsPhase \<Rightarrow> bool" where
  "holdsSlot (AwaitDial _ _ _) = True"
| "holdsSlot (Built _ _ _ _ _ _) = True"
| "holdsSlot _ = False"

definition slotsHeld :: "Server \<Rightarrow> nat" where
  "slotsHeld sv = length (filter (\<lambda>h. holdsSlot (hs_phase h)) (sv_handshakes sv))"

datatype slot_choice = TakeSlot | SeeClose | WaitOver

record hsInput =
  in_now :: int
  in_choice :: slot_choice
  in_ephemeral :: "bytes option"
  in_sids :: "uint32 option list"
  in_dialed :: bool
  in_serverNonce :: "bytes option"

definition endHandshake :: "nat \<Rightarrow> Server \<Rightarrow> Server" where
  "endHandshake i sv = sv\<lparr>sv_handshakes := take i (sv_handshakes sv) @ drop (Suc i) (sv_handshakes sv)\<rparr>"

definition setPhase :: "nat \<Rightarrow> hsPhase \<Rightarrow> Server \<Rightarrow> Server" where
  "setPhase i p sv = sv\<lparr>sv_handshakes := (sv_handshakes sv)[i := (sv_handshakes sv ! i)\<lparr>hs_phase := p\<rparr>]\<rparr>"

text \<open>A failed handshake: the deferred release of its place in the cache and of its slot.\<close>

definition abortHandshake :: "nat \<Rightarrow> hsRequest \<Rightarrow> Server \<Rightarrow> Server" where
  "abortHandshake i r sv = endHandshake i (sv\<lparr>sv_synCache := Abort (sv_synCache sv) (cacheKey (sv_cfg sv) r)\<rparr>)"

definition sv_reply :: "handshake \<Rightarrow> bytes \<Rightarrow> Server \<Rightarrow> Server" where
  "sv_reply h w sv = sv\<lparr>sv_out := sv_out sv @ [Reply (hs_origPort h) (hs_remoteAddr h) w]\<rparr>"

text \<open>The checks and the cache.\<close>

definition startTurn :: "nat \<Rightarrow> handshake \<Rightarrow> UDPCFrame \<Rightarrow> string \<Rightarrow> hsInput \<Rightarrow> Server \<Rightarrow> Server" where
  "startTurn i h f matchedPSK inp sv = (case checkSyn (sv_cfg sv) (sv_liveSessions sv) f matchedPSK (in_now inp) of
     Inl e \<Rightarrow> endHandshake i sv
   | Inr r \<Rightarrow>
       (case Acquire (sv_synCache sv) (cacheKey (sv_cfg sv) r) (in_now inp) (ap_addr (hs_remoteAddr h)) of
          ((Some ack, _), c) \<Rightarrow> endHandshake i (sv_reply h ack (sv\<lparr>sv_synCache := c\<rparr>))
        | ((None, owner), c) \<Rightarrow>
            if owner then setPhase i (AwaitSlot r) (sv\<lparr>sv_synCache := c\<rparr>) else endHandshake i (sv\<lparr>sv_synCache := c\<rparr>)))"

text \<open>The wait for a slot; with it, the Noise message and the session number.\<close>

definition slotTurn :: "nat \<Rightarrow> hsRequest \<Rightarrow> hsInput \<Rightarrow> Server \<Rightarrow> Server" where
  "slotTurn i r inp sv = (case in_choice inp of
     WaitOver \<Rightarrow> abortHandshake i r sv
   | SeeClose \<Rightarrow> if sv_closed sv then abortHandshake i r sv else sv
   | TakeSlot \<Rightarrow>
       if slotsHeld sv \<ge> handshakeMaxConcurrent then sv
       else (case serverNoise (sv_cfg sv) r (in_ephemeral inp) of
           Inl e \<Rightarrow> abortHandshake i r sv
         | Inr noise \<Rightarrow>
             (case allocSid (sv_sessions sv) (in_sids inp) of
                None \<Rightarrow> abortHandshake i r sv
              | Some sid \<Rightarrow> setPhase i (AwaitDial r noise sid) sv)))"

text \<open>The target's answer; the keys and the session.\<close>

definition dialTurn :: "nat \<Rightarrow> handshake \<Rightarrow> hsRequest \<Rightarrow> (NoiseSession \<times> bytes) option \<Rightarrow> uint32 \<Rightarrow> hsInput \<Rightarrow> Server \<Rightarrow> Server" where
  "dialTurn i h r noise sid inp sv = (
     if \<not> in_dialed inp then abortHandshake i r sv
     else if sv_closed sv then abortHandshake i r sv
     else (case in_serverNonce inp of
         None \<Rightarrow> abortHandshake i r sv
       | Some serverNonce \<Rightarrow>
           (case serverFrameKeys (sv_cfg sv) r noise serverNonce sid of
              Inl e \<Rightarrow> abortHandshake i r sv
            | Inr k \<Rightarrow> setPhase i (Built r noise sid serverNonce k
                (newServerSession (sc_env (sv_cfg sv)) sid (hs_remoteAddr h) (hs_origPort h) k (in_now inp))) sv)))"

text \<open>The registration and the acknowledgement.\<close>

definition registerTurn ::
  "nat \<Rightarrow> handshake \<Rightarrow> hsRequest \<Rightarrow> (NoiseSession \<times> bytes) option \<Rightarrow> uint32 \<Rightarrow> bytes \<Rightarrow> FrameKeys \<Rightarrow> ServerSession \<Rightarrow> hsInput \<Rightarrow> Server \<Rightarrow> Server" where
  "registerTurn i h r noise sid serverNonce k sess inp sv = (
     if map_of (sv_sessions sv) sid \<noteq> None then abortHandshake i r sv
     else (let target = forwardTarget (sv_cfg sv) r
           in if sv_closed sv
              then abortHandshake i r (sv\<lparr>sv_sessions := (sid, \<lparr> ls_sess = sess_Close sess, ls_target = target \<rparr>) # sv_sessions sv\<rparr>)
              else (let sess1 = sess_setPath (sc_env (sv_cfg sv)) (hs_origPort h) (hs_remoteAddr h) (in_now inp) (sess\<lparr>ses_registered := True\<rparr>);
                        ack = ackEncoded (sv_cfg sv) r noise serverNonce sid k;
                        key = cacheKey (sv_cfg sv) r
                    in endHandshake i (sv_reply h ack
                         (sv\<lparr>sv_sessions := (sid, \<lparr> ls_sess = sess1, ls_target = target \<rparr>) # sv_sessions sv,
                             sv_liveSessions := sv_liveSessions sv + 1,
                             sv_synCache := Complete (sv_synCache sv) key ack,
                             sv_log := sv_log sv @ [key]\<rparr>)))))"

definition handshakeTurn :: "nat \<Rightarrow> hsInput \<Rightarrow> Server \<Rightarrow> Server" where
  "handshakeTurn i inp sv = (
     if i < length (sv_handshakes sv)
     then (let h = sv_handshakes sv ! i
           in case hs_phase h of
                Started f psk \<Rightarrow> startTurn i h f psk inp sv
              | AwaitSlot r \<Rightarrow> slotTurn i r inp sv
              | AwaitDial r noise sid \<Rightarrow> dialTurn i h r noise sid inp sv
              | Built r noise sid serverNonce k sess \<Rightarrow> registerTurn i h r noise sid serverNonce k sess inp sv)
     else sv)"

subsection \<open>Datagrams and runs\<close>

definition spawnHandshake :: "AddrPort \<Rightarrow> int \<Rightarrow> UDPCFrame \<Rightarrow> int \<Rightarrow> Server \<Rightarrow> Server" where
  "spawnHandshake remoteAddr origPort f now sv = (
     case Allow (sv_synLimiter sv) (sv_addrString sv (ap_addr remoteAddr)) now of (ok, l) \<Rightarrow>
       (let sv1 = sv\<lparr>sv_synLimiter := l\<rparr>
        in if \<not> ok then sv1
           else if SessionID f \<noteq> 0 \<or> PacketNo f \<noteq> 0 \<or> Seq f \<noteq> 0 \<or> Ack f \<noteq> 0 \<or> length (Data f) < synPayloadBase then sv1
           else if slotsHeld sv1 \<ge> handshakeMaxConcurrent then sv1
           else (let psk = matchSynPSK (ev_crypto (sc_env (sv_cfg sv))) (raw f) (sc_passwords (sv_cfg sv)) (take clientNonceSize (Data f))
                 in if psk = [] then sv1
                    else sv1\<lparr>sv_handshakes := sv_handshakes sv1 @
                           [\<lparr> hs_remoteAddr = remoteAddr, hs_origPort = origPort, hs_phase = Started f psk \<rparr>]\<rparr>)))"

definition servePacket :: "bytes \<Rightarrow> AddrPort \<Rightarrow> int \<Rightarrow> int \<Rightarrow> bytes option \<Rightarrow> Server \<Rightarrow> Server" where
  "servePacket buf remoteAddr origPort now rnd sv = (
     if sv_closed sv then sv
     else (case parseUDPCFrame buf (ev_magic (sc_env (sv_cfg sv))) of
         Inl e \<Rightarrow> sv\<lparr>sv_decodeFailures := sv_decodeFailures sv + 1\<rparr>
       | Inr f \<Rightarrow>
           if Cmd f = CMD_HANDSHAKE_SYN then spawnHandshake remoteAddr origPort f now sv
           else onSession (SessionID f) (\<lambda>s. snd (processIncomingFrame (sc_env (sv_cfg sv)) (Some f) remoteAddr origPort now rnd s)) sv))"

text \<open>A session's goroutines start when it is registered and end with the server.\<close>

datatype server_event =
    Packet bytes AddrPort int int "bytes option"
  | HandshakeTurn nat hsInput
  | SessionTurn uint32 sess_event
  | CleanupTick int
  | CloseServer

fun server_step :: "server_event \<Rightarrow> Server \<Rightarrow> Server" where
  "server_step (Packet buf a port now rnd) sv = servePacket buf a port now rnd sv"
| "server_step (HandshakeTurn i inp) sv = handshakeTurn i inp sv"
| "server_step (SessionTurn sid e) sv = (if sv_closed sv then sv else onSession sid (sess_step (sc_env (sv_cfg sv)) e) sv)"
| "server_step (CleanupTick now) sv = cleanup now sv"
| "server_step CloseServer sv = closeServer sv"

definition server_run :: "serverCfg \<Rightarrow> (ip \<Rightarrow> string) \<Rightarrow> server_event list \<Rightarrow> Server" where
  "server_run cfg addrString es = fold server_step es (newServer cfg addrString)"

subsection \<open>Vocabulary of the properties\<close>

text \<open>The numbers of the handshakes under way are those of the sessions they build.\<close>

fun phase_ok :: "hsPhase \<Rightarrow> bool" where
  "phase_ok (AwaitDial r noise sid) \<longleftrightarrow> sid \<noteq> 0"
| "phase_ok (Built r noise sid serverNonce k sess) \<longleftrightarrow> sid \<noteq> 0 \<and> ses_sessionID sess = sid \<and> \<not> ses_closed sess \<and> \<not> ses_registered sess"
| "phase_ok _ \<longleftrightarrow> True"

definition table_inv :: "Server \<Rightarrow> bool" where
  "table_inv sv \<longleftrightarrow> distinct (map fst (sv_sessions sv))
     \<and> (\<forall>sid ls. map_of (sv_sessions sv) sid = Some ls \<longrightarrow> sid \<noteq> 0 \<and> ses_sessionID (ls_sess ls) = sid
          \<and> (ses_registered (ls_sess ls) \<longleftrightarrow> \<not> sv_closed sv) \<and> (ses_closed (ls_sess ls) \<longleftrightarrow> sv_closed sv))
     \<and> sv_liveSessions sv = (if sv_closed sv then 0 else int (length (sv_sessions sv)))
     \<and> slotsHeld sv \<le> handshakeMaxConcurrent \<and> list_all (\<lambda>h. phase_ok (hs_phase h)) (sv_handshakes sv)"

text \<open>A request the server admitted: a datagram of the run parses to a SYN whose MAC verifies under one
  of the server's passwords, and the checks passed when the handshake took its first turn.\<close>

definition admitted :: "serverCfg \<Rightarrow> server_event set \<Rightarrow> hsRequest \<Rightarrow> bool" where
  "admitted cfg H r \<longleftrightarrow> (\<exists>w a port t rnd f i inp live. Packet w a port t rnd \<in> H \<and> HandshakeTurn i inp \<in> H
     \<and> parseUDPCFrame w (ev_magic (sc_env cfg)) = Inr f \<and> hr_psk r \<in> set (sc_passwords cfg)
     \<and> VerifyFrameAuth w (Some (synMAC (ev_crypto (sc_env cfg)) (hr_clientNonce r) (hr_psk r))) = Inr ()
     \<and> checkSyn cfg live f (hr_psk r) (in_now inp) = Inr r)"

fun phase_admitted :: "serverCfg \<Rightarrow> server_event set \<Rightarrow> hsPhase \<Rightarrow> bool" where
  "phase_admitted cfg H (Started f psk) \<longleftrightarrow> psk \<in> set (sc_passwords cfg) \<and> (\<exists>w a port t rnd. Packet w a port t rnd \<in> H
     \<and> parseUDPCFrame w (ev_magic (sc_env cfg)) = Inr f
     \<and> VerifyFrameAuth w (Some (synMAC (ev_crypto (sc_env cfg)) (take clientNonceSize (Data f)) psk)) = Inr ())"
| "phase_admitted cfg H (AwaitSlot r) \<longleftrightarrow> admitted cfg H r"
| "phase_admitted cfg H (AwaitDial r noise sid) \<longleftrightarrow> admitted cfg H r"
| "phase_admitted cfg H (Built r noise sid serverNonce k sess) \<longleftrightarrow> admitted cfg H r \<and> ses_frameKeys sess = Some k
     \<and> serverFrameKeys cfg r noise serverNonce sid = Inr k"

definition session_admitted :: "serverCfg \<Rightarrow> server_event set \<Rightarrow> uint32 \<Rightarrow> liveSession \<Rightarrow> bool" where
  "session_admitted cfg H sid ls \<longleftrightarrow> (\<exists>r noise serverNonce k. admitted cfg H r \<and> ls_target ls = forwardTarget cfg r
     \<and> ses_frameKeys (ls_sess ls) = Some k \<and> serverFrameKeys cfg r noise serverNonce sid = Inr k)"

definition auth_inv :: "serverCfg \<Rightarrow> server_event set \<Rightarrow> Server \<Rightarrow> bool" where
  "auth_inv cfg H sv \<longleftrightarrow> sv_cfg sv = cfg \<and> list_all (\<lambda>h. phase_admitted cfg H (hs_phase h)) (sv_handshakes sv)
     \<and> (\<forall>sid ls. map_of (sv_sessions sv) sid = Some ls \<longrightarrow> session_admitted cfg H sid ls)"

text \<open>The handshakes under way and the completed ones, per key of the cache.\<close>

fun phase_request :: "hsPhase \<Rightarrow> hsRequest option" where
  "phase_request (Started f psk) = None"
| "phase_request (AwaitSlot r) = Some r"
| "phase_request (AwaitDial r noise sid) = Some r"
| "phase_request (Built r noise sid serverNonce k sess) = Some r"

definition owns :: "serverCfg \<Rightarrow> synCacheKey \<Rightarrow> handshake \<Rightarrow> bool" where
  "owns cfg key h \<longleftrightarrow> map_option (cacheKey cfg) (phase_request (hs_phase h)) = Some key"

definition claims :: "Server \<Rightarrow> synCacheKey \<Rightarrow> nat" where
  "claims sv key = length (filter (owns (sv_cfg sv) key) (sv_handshakes sv)) + length (filter ((=) key) (sv_log sv))"

definition fresh_hs :: "handshake \<Rightarrow> bool" where
  "fresh_hs h \<longleftrightarrow> phase_request (hs_phase h) = None"

fun is_syn :: "uint32 \<Rightarrow> server_event \<Rightarrow> bool" where
  "is_syn magic (Packet w a port now rnd) \<longleftrightarrow> (case parseUDPCFrame w magic of Inl _ \<Rightarrow> False | Inr f \<Rightarrow> Cmd f = CMD_HANDSHAKE_SYN)"
| "is_syn magic _ \<longleftrightarrow> False"

fun turn_in :: "int \<Rightarrow> server_event \<Rightarrow> bool" where
  "turn_in t0 (HandshakeTurn i inp) \<longleftrightarrow> t0 \<le> in_now inp \<and> in_now inp \<le> t0 + synCacheTTL"
| "turn_in t0 _ \<longleftrightarrow> True"

text \<open>Within one lifetime of the cache and its capacity: no entry is lost, and each key has at most one
  handshake, which holds the key's entry.\<close>

definition once_inv :: "int \<Rightarrow> nat \<Rightarrow> Server \<Rightarrow> bool" where
  "once_inv t0 n sv \<longleftrightarrow> distinct (map fst (sc_entries (sv_synCache sv)))
     \<and> (\<forall>key e. map_of (sc_entries (sv_synCache sv)) key = Some e \<longrightarrow> t0 \<le> rec_createdAt e)
     \<and> length (sc_entries (sv_synCache sv)) + length (filter fresh_hs (sv_handshakes sv)) \<le> n
     \<and> (\<forall>key. claims sv key \<le> 1 \<and> (map_of (sc_entries (sv_synCache sv)) key = None \<longrightarrow> claims sv key = 0))"

text \<open>A sample run: the client's SYN arrives twice and the handshakes of the copies interleave.\<close>

definition sample_input :: hsInput where
  "sample_input = \<lparr> in_now = 0, in_choice = TakeSlot, in_ephemeral = Some (replicate 32 2), in_sids = [Some 9], in_dialed = True,
     in_serverNonce = Some (replicate 16 6) \<rparr>"

definition sample_events :: "bytes \<Rightarrow> server_event list" where
  "sample_events w = [Packet w sample_addr 9000 0 None, Packet w sample_addr 9000 0 None, HandshakeTurn 0 sample_input, HandshakeTurn 1 sample_input,
     HandshakeTurn 0 sample_input, HandshakeTurn 0 sample_input, HandshakeTurn 0 sample_input]"

section \<open>Lemmas\<close>

lemma length_delete_mem:
  assumes "distinct (map fst xs)" "k \<in> fst ` set xs"
  shows "Suc (length (AList.delete k xs)) = length xs"
  using assms
proof (induction xs)
  case (Cons x xs)
  then show ?case by (cases "fst x = k") (auto simp: delete_absent map_of_eq_None_iff)
qed simp

lemma filter_updated:
  assumes "i < length xs"
  shows "length (filter P (xs[i := x])) + (if P (xs ! i) then 1 else 0) = length (filter P xs) + (if P x then 1 else 0)"
proof -
  have "length (filter P xs) = length (filter P (take i xs)) + (if P (xs ! i) then 1 else 0) + length (filter P (drop (Suc i) xs))"
    by (subst (1) id_take_nth_drop [OF assms]) simp
  then show ?thesis by (simp add: upd_conv_take_nth_drop [OF assms])
qed

lemma filter_removed:
  assumes "i < length xs"
  shows "length (filter P (take i xs @ drop (Suc i) xs)) + (if P (xs ! i) then 1 else 0) = length (filter P xs)"
  by (subst (3) id_take_nth_drop [OF assms]) simp

subsection \<open>Operations on one session\<close>

text \<open>What the table relies on of an operation on a session: the session's number, its keys, and that
  the registration goes with the closing.\<close>

locale table_op =
  fixes g :: "ServerSession \<Rightarrow> ServerSession"
  assumes op_id: "ses_sessionID (g s) = ses_sessionID s"
    and op_keys: "ses_frameKeys (g s) = ses_frameKeys s"
    and op_life: "(ses_registered (g s) \<and> ses_closed (g s)) = (ses_registered s \<and> ses_closed s)"
begin

lemma inv_onSession:
  assumes "table_inv sv" "\<not> sv_closed sv"
  shows "table_inv (onSession sid g sv)"
proof (cases "map_of (sv_sessions sv) sid")
  case None
  then show ?thesis using assms(1) by (simp add: onSession_def)
next
  case (Some ls)
  have mem: "sid \<in> fst ` set (sv_sessions sv)" using Some by (metis domI dom_map_of_conv_image_fst)
  have d: "distinct (map fst (sv_sessions sv))" using assms(1) by (simp add: table_inv_def)
  have "slotsHeld (onSession sid g sv) = slotsHeld sv"
    by (simp add: onSession_def slotsHeld_def Some Let_def)
  then show ?thesis
    using assms Some op_id [of "ls_sess ls"] op_life [of "ls_sess ls"] length_update_mem [OF mem] length_delete_mem [OF d mem] d
    by (auto simp: table_inv_def onSession_def Let_def distinct_delete distinct_update update_conv' delete_conv' restrict_map_def
        simp del: map_of_eq_Some_iff split: if_splits)
qed

end

lemma close_life: "(ses_registered (sess_Close s) \<and> ses_closed (sess_Close s)) = (ses_registered s \<and> ses_closed s)"
  by (rule life_obs.obs_primitives(1))

interpretation step_op: table_op "sess_step env e" for env e
  by unfold_locales (rule id_obs.obs_step keys_obs.obs_step life_obs.obs_step)+

interpretation packet_op: table_op "\<lambda>s. snd (processIncomingFrame env fp a port now rnd s)" for env fp a port now rnd
  by unfold_locales (rule id_obs.obs_process keys_obs.obs_process life_obs.obs_process)+

interpretation idle_op: table_op "\<lambda>s. if now - ses_lastActive s > sessionIdleTimeout then sess_Close s else s" for now
  by unfold_locales (use id_obs.obs_primitives(1) keys_obs.obs_primitives(1) close_life in auto)

lemma onSession_frame [simp]:
  "sv_closed (onSession sid g sv) = sv_closed sv" "sv_cfg (onSession sid g sv) = sv_cfg sv"
  "sv_handshakes (onSession sid g sv) = sv_handshakes sv" "sv_synCache (onSession sid g sv) = sv_synCache sv"
  "sv_log (onSession sid g sv) = sv_log sv"
  by (simp_all add: onSession_def Let_def split: option.split)

lemma onSessions_frame [simp]:
  "sv_closed (fold (\<lambda>sid. onSession sid g) sids sv) = sv_closed sv" "sv_cfg (fold (\<lambda>sid. onSession sid g) sids sv) = sv_cfg sv"
  "sv_handshakes (fold (\<lambda>sid. onSession sid g) sids sv) = sv_handshakes sv"
  "sv_synCache (fold (\<lambda>sid. onSession sid g) sids sv) = sv_synCache sv" "sv_log (fold (\<lambda>sid. onSession sid g) sids sv) = sv_log sv"
  by (induction sids arbitrary: sv) simp_all

subsection \<open>The table\<close>

lemma table_inv_frame [simp]:
  "table_inv (sv\<lparr>sv_synCache := c\<rparr>) = table_inv sv" "table_inv (sv\<lparr>sv_synLimiter := l\<rparr>) = table_inv sv"
  "table_inv (sv\<lparr>sv_decodeFailures := n\<rparr>) = table_inv sv" "table_inv (sv\<lparr>sv_out := out\<rparr>) = table_inv sv" "table_inv (sv\<lparr>sv_log := ks\<rparr>) = table_inv sv"
  "table_inv (sv_reply h w sv) = table_inv sv"
  by (simp_all add: table_inv_def slotsHeld_def sv_reply_def)

lemma inv_endHandshake:
  assumes "table_inv sv" "i < length (sv_handshakes sv)"
  shows "table_inv (endHandshake i sv)"
proof -
  have "slotsHeld (endHandshake i sv) \<le> slotsHeld sv"
    using filter_removed [OF assms(2), of "\<lambda>h. holdsSlot (hs_phase h)"] by (simp add: slotsHeld_def endHandshake_def)
  moreover have "set (take i xs @ drop (Suc i) xs) \<subseteq> set xs" for xs :: "handshake list"
    by (auto dest: in_set_takeD in_set_dropD)
  ultimately show ?thesis using assms(1) by (fastforce simp: table_inv_def endHandshake_def list_all_iff)
qed

lemma inv_abort: "table_inv sv \<Longrightarrow> i < length (sv_handshakes sv) \<Longrightarrow> table_inv (abortHandshake i r sv)"
  unfolding abortHandshake_def by (rule inv_endHandshake) simp_all

lemma inv_setPhase:
  assumes "table_inv sv" "i < length (sv_handshakes sv)" "phase_ok p"
    "holdsSlot p \<Longrightarrow> holdsSlot (hs_phase (sv_handshakes sv ! i)) \<or> slotsHeld sv < handshakeMaxConcurrent"
  shows "table_inv (setPhase i p sv)"
proof -
  have "slotsHeld (setPhase i p sv) \<le> handshakeMaxConcurrent"
    using filter_updated [OF assms(2), of "\<lambda>h. holdsSlot (hs_phase h)" "(sv_handshakes sv ! i)\<lparr>hs_phase := p\<rparr>"] assms(1,4)
    by (auto simp: slotsHeld_def setPhase_def table_inv_def split: if_splits)
  then show ?thesis
    using assms(1-3) by (auto simp: table_inv_def setPhase_def list_all_iff dest!: set_update_subset_insert [THEN subsetD])
qed

lemma allocSid_free: "allocSid sessions draws = Some sid \<Longrightarrow> sid \<noteq> 0 \<and> map_of sessions sid = None"
  by (induction sessions draws rule: allocSid.induct) (auto split: if_splits)

lemma inv_register:
  assumes "table_inv sv" "i < length (sv_handshakes sv)" "phase_ok (Built r noise sid serverNonce k sess)"
  shows "table_inv (registerTurn i h r noise sid serverNonce k sess inp sv)"
proof -
  have refuses: "table_inv (sv\<lparr>sv_sessions := (sid, \<lparr> ls_sess = sess_Close sess, ls_target = t \<rparr>) # sv_sessions sv\<rparr>)"
    if "map_of (sv_sessions sv) sid = None" "sv_closed sv" for t
    using that assms(1,3) by (auto simp: table_inv_def sess_Close_def slotsHeld_def map_of_eq_None_iff)
  have admits: "table_inv (sv\<lparr>sv_sessions := (sid, \<lparr> ls_sess = sess_setPath env port a now (sess\<lparr>ses_registered := True\<rparr>), ls_target = t \<rparr>) # sv_sessions sv,
      sv_liveSessions := sv_liveSessions sv + 1, sv_synCache := c, sv_log := ks, sv_out := out\<rparr>)"
    if "map_of (sv_sessions sv) sid = None" "\<not> sv_closed sv" for env port a now t c ks out
    using that assms(1,3) by (auto simp: table_inv_def sess_setPath_def slotsHeld_def map_of_eq_None_iff)
  show ?thesis
    using assms(1,2) inv_abort [OF refuses] inv_endHandshake [OF admits] by (simp add: registerTurn_def Let_def sv_reply_def inv_abort)
qed

lemma inv_handshakeTurn:
  assumes "table_inv sv"
  shows "table_inv (handshakeTurn i inp sv)"
proof (cases "i < length (sv_handshakes sv)")
  case True
  define h where "h = sv_handshakes sv ! i"
  have ok: "phase_ok (hs_phase h)" using assms True by (simp add: table_inv_def list_all_length h_def)
  show ?thesis
  proof (cases "hs_phase h")
    case (Started f psk)
    have "table_inv (startTurn i h f psk inp sv)"
      unfolding startTurn_def using assms True
      by (auto intro!: inv_endHandshake inv_setPhase simp: sv_reply_def split: sum.split prod.split option.split)
    then show ?thesis using True Started by (simp add: handshakeTurn_def h_def)
  next
    case (AwaitSlot r)
    have "table_inv (slotTurn i r inp sv)"
      unfolding slotTurn_def using assms True
      by (auto intro!: inv_abort inv_setPhase dest: allocSid_free split: sum.split option.split slot_choice.split)
    then show ?thesis using True AwaitSlot by (simp add: handshakeTurn_def h_def)
  next
    case (AwaitDial r noise sid)
    have "table_inv (dialTurn i h r noise sid inp sv)"
      unfolding dialTurn_def using assms True ok AwaitDial
      by (auto intro!: inv_abort inv_setPhase simp: newServerSession_def h_def split: sum.split option.split)
    then show ?thesis using True AwaitDial by (simp add: handshakeTurn_def h_def)
  next
    case (Built r noise sid serverNonce k sess)
    then show ?thesis using True inv_register [OF assms True ok [unfolded Built]] by (simp add: handshakeTurn_def h_def)
  qed
qed (simp add: handshakeTurn_def assms)

lemma inv_onSessions:
  assumes "\<And>sid sv. table_inv sv \<Longrightarrow> \<not> sv_closed sv \<Longrightarrow> table_inv (onSession sid g sv)" "table_inv sv" "\<not> sv_closed sv"
  shows "table_inv (fold (\<lambda>sid. onSession sid g) sids sv)"
  using assms(2,3) by (induction sids arbitrary: sv) (simp_all add: assms(1))

lemma onSession_close:
  assumes "distinct (map fst (sv_sessions sv))" "map_of (sv_sessions sv) sid = Some ls" "ses_registered (ls_sess ls)" "\<not> ses_closed (ls_sess ls)"
  shows "onSession sid sess_Close sv = sv\<lparr>sv_sessions := AList.delete sid (sv_sessions sv), sv_liveSessions := sv_liveSessions sv - 1\<rparr>"
  using assms by (simp add: onSession_def sess_Close_def Let_def)

text \<open>The sweep of \<open>Close\<close> empties the table and the count.\<close>

lemma close_sweep:
  assumes "sv_sessions sv = xs" "distinct (map fst xs)"
    "\<And>sid ls. map_of xs sid = Some ls \<Longrightarrow> ses_registered (ls_sess ls) \<and> \<not> ses_closed (ls_sess ls)"
  shows "fold (\<lambda>sid. onSession sid sess_Close) (map fst xs) sv = sv\<lparr>sv_sessions := [], sv_liveSessions := sv_liveSessions sv - int (length xs)\<rparr>"
  using assms
proof (induction xs arbitrary: sv)
  case Nil
  then show ?case by (cases sv) simp
next
  case (Cons x xs)
  obtain sid ls where x: "x = (sid, ls)" by (cases x)
  define sv1 where "sv1 = sv\<lparr>sv_sessions := xs, sv_liveSessions := sv_liveSessions sv - 1\<rparr>"
  have new: "map_of xs sid = None" using Cons.prems(2) by (simp add: x map_of_eq_None_iff)
  have "onSession sid sess_Close sv = sv1"
    using Cons.prems(1,2) Cons.prems(3) [of sid ls] onSession_close [of sv sid ls] by (simp add: x sv1_def delete_absent [OF new])
  moreover have "fold (\<lambda>sid. onSession sid sess_Close) (map fst xs) sv1
      = sv1\<lparr>sv_sessions := [], sv_liveSessions := sv_liveSessions sv1 - int (length xs)\<rparr>"
  proof (rule Cons.IH)
    show "ses_registered (ls_sess l) \<and> \<not> ses_closed (ls_sess l)" if "map_of xs s = Some l" for s l
    proof -
      have "s \<noteq> sid" using that new by auto
      then show ?thesis using that Cons.prems(3) [of s l] by (simp add: x)
    qed
  qed (use Cons.prems(2) in \<open>simp_all add: sv1_def\<close>)
  ultimately show ?case by (simp add: x sv1_def)
qed

lemma inv_step: "table_inv sv \<Longrightarrow> table_inv (server_step e sv)"
proof (cases e)
  case (Packet buf a port now rnd)
  assume inv: "table_inv sv"
  have "table_inv (spawnHandshake a port f now sv)" for f
  proof -
    obtain ok l where "Allow (sv_synLimiter sv) (sv_addrString sv (ap_addr a)) now = (ok, l)" by fastforce
    then show ?thesis using inv by (auto simp: spawnHandshake_def Let_def table_inv_def slotsHeld_def)
  qed
  then show ?thesis using inv Packet packet_op.inv_onSession by (auto simp: servePacket_def split: sum.split)
next
  case CloseServer
  assume inv: "table_inv sv"
  then show ?thesis
    using CloseServer close_sweep [of "sv\<lparr>sv_closed := True\<rparr>" "sv_sessions sv"]
    by (auto simp: closeServer_def table_inv_def slotsHeld_def simp del: map_of_eq_Some_iff)
qed (auto simp: cleanup_def inv_handshakeTurn step_op.inv_onSession intro: inv_onSessions idle_op.inv_onSession)

lemma inv_run: "table_inv (server_run cfg addrString es)"
proof -
  have "table_inv (newServer cfg addrString)" by (simp add: table_inv_def newServer_def slotsHeld_def)
  moreover have "table_inv sv \<Longrightarrow> table_inv (fold server_step es sv)" for sv
    by (induction es arbitrary: sv) (simp_all add: inv_step)
  ultimately show ?thesis by (simp add: server_run_def)
qed

subsection \<open>Where sessions come from\<close>

context table_op
begin

lemma auth_onSession: "auth_inv cfg H sv \<Longrightarrow> auth_inv cfg H (onSession sid g sv)"
  by (auto simp: auth_inv_def onSession_def Let_def op_keys session_admitted_def update_conv' delete_conv' restrict_map_def
      split: option.splits if_splits)

end

interpretation close_op: table_op sess_Close
  by unfold_locales (use id_obs.obs_primitives(1) keys_obs.obs_primitives(1) close_life in auto)

lemma auth_onSessions:
  assumes "\<And>sid sv. auth_inv cfg H sv \<Longrightarrow> auth_inv cfg H (onSession sid g sv)" "auth_inv cfg H sv"
  shows "auth_inv cfg H (fold (\<lambda>sid. onSession sid g) sids sv)"
  using assms(2) by (induction sids arbitrary: sv) (simp_all add: assms(1))

lemma auth_frame [simp]:
  "auth_inv cfg H (sv\<lparr>sv_synCache := c\<rparr>) = auth_inv cfg H sv" "auth_inv cfg H (sv_reply h w sv) = auth_inv cfg H sv"
  "auth_inv cfg H (sv\<lparr>sv_closed := b\<rparr>) = auth_inv cfg H sv" "auth_inv cfg H (sv\<lparr>sv_decodeFailures := n\<rparr>) = auth_inv cfg H sv"
  "auth_inv cfg H (sv\<lparr>sv_liveSessions := m\<rparr>) = auth_inv cfg H sv" "auth_inv cfg H (sv\<lparr>sv_log := ks\<rparr>) = auth_inv cfg H sv"
  by (simp_all add: auth_inv_def sv_reply_def)

lemma auth_store:
  "auth_inv cfg H sv \<Longrightarrow> session_admitted cfg H sid ls \<Longrightarrow> auth_inv cfg H (sv\<lparr>sv_sessions := (sid, ls) # sv_sessions sv\<rparr>)"
  by (simp add: auth_inv_def)

lemma auth_end: "auth_inv cfg H sv \<Longrightarrow> auth_inv cfg H (endHandshake i sv)" "auth_inv cfg H sv \<Longrightarrow> auth_inv cfg H (abortHandshake i r sv)"
  by (auto simp: auth_inv_def endHandshake_def abortHandshake_def list_all_iff dest: in_set_takeD in_set_dropD)

lemma auth_setPhase:
  "auth_inv cfg H sv \<Longrightarrow> i < length (sv_handshakes sv) \<Longrightarrow> phase_admitted cfg H p \<Longrightarrow> auth_inv cfg H (setPhase i p sv)"
  by (auto simp: auth_inv_def setPhase_def list_all_iff dest!: set_update_subset_insert [THEN subsetD])

lemma matchSynPSK_sound:
  "matchSynPSK cr w passwords nonce \<noteq> [] \<Longrightarrow> matchSynPSK cr w passwords nonce \<in> set passwords
     \<and> VerifyFrameAuth w (Some (synMAC cr nonce (matchSynPSK cr w passwords nonce))) = Inr ()"
  by (induction passwords) (auto simp: synMAC_def)

lemma checkSyn_Inr:
  assumes "checkSyn cfg live f psk now = Inr r"
  shows "hr_psk r = psk" "hr_clientNonce r = take clientNonceSize (Data f)" "psk \<noteq> []"
    "hr_target r = [] \<or> targetAllowed (hr_target r) (sc_allowedTargets cfg) = Some True"
    "synTimeOk (sint (get_be (bslice clientNonceSize synPayloadBase (Data f)) :: uint64)) now"
    "sc_maxSessions cfg \<le> 0 \<or> live < sc_maxSessions cfg"
  using assms by (auto simp: checkSyn_def Let_def split: if_splits sum.splits prod.splits)

lemma auth_handshakeTurn:
  assumes "auth_inv cfg H sv" "HandshakeTurn i inp \<in> H"
  shows "auth_inv cfg H (handshakeTurn i inp sv)"
proof (cases "i < length (sv_handshakes sv)")
  case True
  define h where "h = sv_handshakes sv ! i"
  have cfg: "sv_cfg sv = cfg" using assms(1) by (simp add: auth_inv_def)
  have ph: "phase_admitted cfg H (hs_phase h)" using assms(1) True by (simp add: auth_inv_def list_all_length h_def)
  show ?thesis
  proof (cases "hs_phase h")
    case (Started f psk)
    have "admitted cfg H r" if "checkSyn cfg live f psk (in_now inp) = Inr r" for live r
      using ph assms(2) that checkSyn_Inr [OF that] unfolding Started admitted_def by simp blast
    then have "auth_inv cfg H (startTurn i h f psk inp sv)"
      unfolding startTurn_def using assms(1) True
      by (auto intro!: auth_end auth_setPhase simp: cfg split: sum.split prod.split option.split)
    then show ?thesis using True Started by (simp add: handshakeTurn_def h_def)
  next
    case (AwaitSlot r)
    have "auth_inv cfg H (slotTurn i r inp sv)"
      unfolding slotTurn_def using assms(1) True ph AwaitSlot
      by (auto intro!: auth_end auth_setPhase split: sum.split option.split slot_choice.split)
    then show ?thesis using True AwaitSlot by (simp add: handshakeTurn_def h_def)
  next
    case (AwaitDial r noise sid)
    have "auth_inv cfg H (dialTurn i h r noise sid inp sv)"
      unfolding dialTurn_def using assms(1) True ph AwaitDial
      by (auto intro!: auth_end auth_setPhase simp: newServerSession_def cfg split: sum.split option.split)
    then show ?thesis using True AwaitDial by (simp add: handshakeTurn_def h_def)
  next
    case (Built r noise sid serverNonce k sess)
    then have b: "admitted cfg H r" "ses_frameKeys sess = Some k" "serverFrameKeys cfg r noise serverNonce sid = Inr k" using ph by simp_all
    have "session_admitted cfg H sid \<lparr> ls_sess = s', ls_target = forwardTarget cfg r \<rparr>" if "ses_frameKeys s' = Some k" for s'
      unfolding session_admitted_def using b that by auto
    note stored = auth_store [OF assms(1) this]
    have "ses_frameKeys (sess_Close sess) = Some k" "ses_frameKeys (sess_setPath env port a now (sess\<lparr>ses_registered := True\<rparr>)) = Some k" for env port a now
      using b(2) by (simp_all add: sess_Close_def sess_setPath_def)
    then have "auth_inv cfg H (registerTurn i h r noise sid serverNonce k sess inp sv)"
      using auth_end [OF assms(1)] auth_end [OF stored] stored by (simp add: registerTurn_def Let_def cfg auth_end)
    then show ?thesis using True Built by (simp add: handshakeTurn_def h_def)
  qed
qed (simp add: handshakeTurn_def assms)

lemma auth_step: "auth_inv cfg H sv \<Longrightarrow> e \<in> H \<Longrightarrow> auth_inv cfg H (server_step e sv)"
proof (cases e)
  case (Packet buf a port now rnd)
  assume inv: "auth_inv cfg H sv" and mem: "e \<in> H"
  have "auth_inv cfg H (spawnHandshake a port f now sv)" if f: "parseUDPCFrame buf (ev_magic (sc_env cfg)) = Inr f" for f
  proof -
    obtain ok l where a: "Allow (sv_synLimiter sv) (sv_addrString sv (ap_addr a)) now = (ok, l)" by fastforce
    have cfg: "sv_cfg sv = cfg" using inv by (simp add: auth_inv_def)
    define psk where "psk = matchSynPSK (ev_crypto (sc_env cfg)) (raw f) (sc_passwords cfg) (take clientNonceSize (Data f))"
    have "phase_admitted cfg H (Started f psk)" if "psk \<noteq> []"
      using matchSynPSK_sound [OF that [unfolded psk_def], folded psk_def] f mem parse_frame_sound(6) [OF f]
      unfolding Packet phase_admitted.simps by blast
    then show ?thesis using inv by (simp add: spawnHandshake_def a Let_def cfg psk_def [symmetric]) (simp add: auth_inv_def)
  qed
  moreover have "sv_cfg sv = cfg" using inv by (simp add: auth_inv_def)
  ultimately show ?thesis using inv Packet packet_op.auth_onSession by (auto simp: servePacket_def split: sum.split)
qed (auto simp: cleanup_def closeServer_def auth_handshakeTurn intro: auth_onSessions idle_op.auth_onSession close_op.auth_onSession step_op.auth_onSession)

lemma auth_run: "auth_inv cfg (set es) (server_run cfg addrString es)"
proof -
  have "auth_inv cfg H sv \<Longrightarrow> set es' \<subseteq> H \<Longrightarrow> auth_inv cfg H (fold server_step es' sv)" for H es' sv
    by (induction es' arbitrary: sv) (auto intro: auth_step)
  moreover have "auth_inv cfg H (newServer cfg addrString)" for H
    by (simp add: auth_inv_def newServer_def)
  ultimately show ?thesis by (simp add: server_run_def)
qed

subsection \<open>One handshake per SYN\<close>

lemma reserve_roomy:
  assumes "length (sc_entries c) < synCacheMax" "\<And>key e. map_of (sc_entries c) key = Some e \<Longrightarrow> now \<le> rec_createdAt e + synCacheTTL"
    "distinct (map fst (sc_entries c))"
  shows "sc_entries (reserve c key now ip) = AList.update key \<lparr> rec_ackFrame = None, rec_createdAt = now, rec_ownerIP = ip \<rparr> (sc_entries c)"
proof -
  have "filter (\<lambda>(_, r). \<not> synCacheTTL < now - rec_createdAt r) (sc_entries c) = sc_entries c"
    using assms(2,3) by (auto simp: filter_id_conv not_less diff_le_eq add.commute)
  moreover have "evictOldest (sc_entries c) (sc_fifo c) = (sc_entries c, sc_fifo c)"
    using assms(1) by (cases "sc_fifo c") auto
  ultimately show ?thesis by (simp add: reserve_def makeSpaceLocked_def Let_def)
qed

lemma claims_frame:
  "claims (endHandshake i sv) key + (if owns (sv_cfg sv) key (sv_handshakes sv ! i) then 1 else 0) = claims sv key" if "i < length (sv_handshakes sv)"
  using filter_removed [OF that, of "owns (sv_cfg sv) key"] by (simp add: claims_def endHandshake_def)

lemma fresh_end:
  "length (filter fresh_hs (sv_handshakes (endHandshake i sv))) + (if fresh_hs (sv_handshakes sv ! i) then 1 else 0)
     = length (filter fresh_hs (sv_handshakes sv))" if "i < length (sv_handshakes sv)"
  using filter_removed [OF that, of fresh_hs] by (simp add: endHandshake_def)

lemma end_cache [simp]:
  "sv_synCache (endHandshake i sv) = sv_synCache sv" "sv_cfg (endHandshake i sv) = sv_cfg sv" "sv_log (endHandshake i sv) = sv_log sv"
  "sv_synCache (setPhase i p sv) = sv_synCache sv" "sv_cfg (setPhase i p sv) = sv_cfg sv" "sv_log (setPhase i p sv) = sv_log sv"
  by (simp_all add: endHandshake_def setPhase_def)

text \<open>A handshake that does not own its key ends: nothing else changes.\<close>

lemma once_end:
  assumes "once_inv t0 n sv" "i < length (sv_handshakes sv)" "fresh_hs (sv_handshakes sv ! i)"
  shows "once_inv t0 n (endHandshake i sv)"
proof -
  have "claims (endHandshake i sv) key = claims sv key" for key
    using claims_frame [OF assms(2), of key] assms(3) by (simp add: owns_def fresh_hs_def)
  then show ?thesis using assms fresh_end [OF assms(2)] by (auto simp: once_inv_def)
qed

text \<open>The owner of a key moves to its next wait.\<close>

lemma once_setPhase:
  assumes "once_inv t0 n sv" "i < length (sv_handshakes sv)" "phase_request (hs_phase (sv_handshakes sv ! i)) = Some r" "phase_request p = Some r"
  shows "once_inv t0 n (setPhase i p sv)"
proof -
  define h' where "h' = (sv_handshakes sv ! i)\<lparr>hs_phase := p\<rparr>"
  have "claims (setPhase i p sv) key = claims sv key" for key
    using filter_updated [OF assms(2), of "owns (sv_cfg sv) key" h'] assms(3,4)
    by (simp add: claims_def setPhase_def h'_def owns_def split: if_splits)
  moreover have "length (filter fresh_hs (sv_handshakes (setPhase i p sv))) = length (filter fresh_hs (sv_handshakes sv))"
    using filter_updated [OF assms(2), of fresh_hs h'] assms(3,4) by (simp add: setPhase_def h'_def fresh_hs_def)
  ultimately show ?thesis using assms(1) by (simp add: once_inv_def)
qed

lemma once_abort:
  assumes "once_inv t0 n sv" "i < length (sv_handshakes sv)" "phase_request (hs_phase (sv_handshakes sv ! i)) = Some r"
  shows "once_inv t0 n (abortHandshake i r sv)"
proof -
  define key where "key = cacheKey (sv_cfg sv) r"
  define es where "es = sc_entries (sv_synCache sv)"
  define es' where "es' = sc_entries (Abort (sv_synCache sv) key)"
  have own: "owns (sv_cfg sv) k (sv_handshakes sv ! i) \<longleftrightarrow> k = key" for k
    using assms(3) by (auto simp: owns_def key_def)
  have es': "es' = es \<or> es' = AList.delete key es"
    by (auto simp: es'_def es_def Abort_def split: option.splits)
  have look: "k \<noteq> key \<Longrightarrow> map_of es' k = map_of es k" "map_of es' k = Some e \<Longrightarrow> map_of es k = Some e" for k e
    using es' by (auto simp: delete_conv' restrict_map_def split: if_splits)
  have inv: "distinct (map fst es)" "map_of es k = Some e \<Longrightarrow> t0 \<le> rec_createdAt e" "length es + length (filter fresh_hs (sv_handshakes sv)) \<le> n"
    "claims sv k \<le> 1" "map_of es k = None \<Longrightarrow> claims sv k = 0" for k e
    using assms(1) by (auto simp: once_inv_def es_def)
  have cl: "claims (abortHandshake i r sv) k = claims sv k - (if k = key then 1 else 0)" for k
    using claims_frame [OF assms(2), of k] own [of k] by (auto simp: abortHandshake_def claims_def endHandshake_def)
  have un: "length (filter fresh_hs (sv_handshakes (abortHandshake i r sv))) \<le> length (filter fresh_hs (sv_handshakes sv))"
    using fresh_end [OF assms(2)] by (simp add: abortHandshake_def endHandshake_def)
  have len: "length es' \<le> length es" "distinct (map fst es')"
    using es' inv(1) by (auto simp: length_delete_le distinct_delete)
  have cache: "sc_entries (sv_synCache (abortHandshake i r sv)) = es'"
    by (simp add: abortHandshake_def es'_def key_def)
  have "claims sv k - (if k = key then 1 else 0) = 0" if "map_of es' k = None" for k
    using that inv(4) [of k] inv(5) [of k] look(1) [of k] by (cases "k = key") auto
  moreover have "claims sv k - (if k = key then 1 else 0) \<le> 1" for k using inv(4) [of k] by simp
  moreover have "length es' + length (filter fresh_hs (sv_handshakes (abortHandshake i r sv))) \<le> n" using len(1) un inv(3) by linarith
  ultimately show ?thesis
    unfolding once_inv_def cache cl using len(2) look(2) inv(2) by blast
qed

lemma once_reserve:
  assumes "once_inv t0 n sv" "i < length (sv_handshakes sv)" "fresh_hs (sv_handshakes sv ! i)" "n \<le> synCacheMax"
    "t0 \<le> now" "now \<le> t0 + synCacheTTL" "map_of (sc_entries (sv_synCache sv)) (cacheKey (sv_cfg sv) r) = None"
  shows "once_inv t0 n (setPhase i (AwaitSlot r) (sv\<lparr>sv_synCache := reserve (sv_synCache sv) (cacheKey (sv_cfg sv) r) now ip\<rparr>))"
proof -
  define key where "key = cacheKey (sv_cfg sv) r"
  define es where "es = sc_entries (sv_synCache sv)"
  define h' where "h' = (sv_handshakes sv ! i)\<lparr>hs_phase := AwaitSlot r\<rparr>"
  define sv' where "sv' = setPhase i (AwaitSlot r) (sv\<lparr>sv_synCache := reserve (sv_synCache sv) key now ip\<rparr>)"
  have inv: "distinct (map fst es)" "map_of es k = Some e \<Longrightarrow> t0 \<le> rec_createdAt e" "length es + length (filter fresh_hs (sv_handshakes sv)) \<le> n"
    "claims sv k \<le> 1" "map_of es k = None \<Longrightarrow> claims sv k = 0" for k e
    using assms(1) by (auto simp: once_inv_def es_def)
  have un: "Suc (length (filter fresh_hs (sv_handshakes sv'))) = length (filter fresh_hs (sv_handshakes sv))"
    using filter_updated [OF assms(2), of fresh_hs h'] assms(3) by (simp add: sv'_def setPhase_def h'_def fresh_hs_def)
  have "now \<le> rec_createdAt e + synCacheTTL" if "map_of es k = Some e" for k e
    using inv(2) [OF that] assms(6) by linarith
  then have entries: "sc_entries (sv_synCache sv') = AList.update key \<lparr> rec_ackFrame = None, rec_createdAt = now, rec_ownerIP = ip \<rparr> es"
    using reserve_roomy [of "sv_synCache sv" now key ip] inv(1,3) un assms(4) by (simp add: sv'_def es_def)
  have cl: "claims sv' k = claims sv k + (if k = key then 1 else 0)" for k
    using filter_updated [OF assms(2), of "owns (sv_cfg sv) k" h'] assms(3)
    by (auto simp: claims_def sv'_def setPhase_def h'_def owns_def fresh_hs_def key_def split: if_splits)
  have none: "claims sv key = 0" using inv(5) [of key] assms(7) by (simp add: es_def key_def)
  have "once_inv t0 n sv'"
    unfolding once_inv_def entries cl
  proof (intro conjI allI impI)
    show "length (AList.update key \<lparr> rec_ackFrame = None, rec_createdAt = now, rec_ownerIP = ip \<rparr> es) + length (filter fresh_hs (sv_handshakes sv')) \<le> n"
      using length_update_le [of key "\<lparr> rec_ackFrame = None, rec_createdAt = now, rec_ownerIP = ip \<rparr>" es] un inv(3) by linarith
    show "claims sv k + (if k = key then 1 else 0) \<le> 1" for k using inv(4) [of k] none by simp
  next
    fix k e
    assume "map_of (AList.update key \<lparr> rec_ackFrame = None, rec_createdAt = now, rec_ownerIP = ip \<rparr> es) k = Some e"
    then show "t0 \<le> rec_createdAt e" using inv(2) [of k e] assms(5) by (cases "k = key") (auto simp: update_conv')
  next
    fix k
    assume "map_of (AList.update key \<lparr> rec_ackFrame = None, rec_createdAt = now, rec_ownerIP = ip \<rparr> es) k = None"
    then show "claims sv k + (if k = key then 1 else 0) = 0" using inv(5) [of k] by (simp add: update_conv' split: if_splits)
  qed (simp add: distinct_update inv(1))
  then show ?thesis by (simp add: sv'_def key_def)
qed

lemma once_frame:
  assumes "sv_synCache sv' = sv_synCache sv" "sv_handshakes sv' = sv_handshakes sv" "sv_log sv' = sv_log sv" "sv_cfg sv' = sv_cfg sv"
  shows "once_inv t0 n sv' = once_inv t0 n sv"
  using assms by (simp add: once_inv_def claims_def)

lemma once_frames [simp]:
  "once_inv t0 n (sv\<lparr>sv_sessions := xs\<rparr>) = once_inv t0 n sv" "once_inv t0 n (sv\<lparr>sv_synLimiter := l\<rparr>) = once_inv t0 n sv"
  "once_inv t0 n (sv\<lparr>sv_decodeFailures := m\<rparr>) = once_inv t0 n sv" "once_inv t0 n (sv\<lparr>sv_closed := b\<rparr>) = once_inv t0 n sv"
  "once_inv t0 n (onSession sid g sv) = once_inv t0 n sv" "once_inv t0 n (fold (\<lambda>sid. onSession sid g) sids sv) = once_inv t0 n sv"
  by (rule once_frame; simp)+

lemma once_startTurn:
  assumes "once_inv t0 n sv" "i < length (sv_handshakes sv)" "fresh_hs (sv_handshakes sv ! i)" "n \<le> synCacheMax"
    "t0 \<le> in_now inp" "in_now inp \<le> t0 + synCacheTTL"
  shows "once_inv t0 n (startTurn i h f psk inp sv)"
proof (cases "checkSyn (sv_cfg sv) (sv_liveSessions sv) f psk (in_now inp)")
  case (Inl e)
  then show ?thesis using once_end [OF assms(1-3)] by (simp add: startTurn_def)
next
  case (Inr r)
  show ?thesis
  proof (cases "map_of (sc_entries (sv_synCache sv)) (cacheKey (sv_cfg sv) r)")
    case None
    then show ?thesis using once_reserve [OF assms(1-6) None] Inr by (simp add: startTurn_def Acquire_def)
  next
    case (Some e)
    have "in_now inp - rec_createdAt e \<le> synCacheTTL" using assms(1,6) Some by (force simp: once_inv_def)
    then have keep: "Acquire (sv_synCache sv) (cacheKey (sv_cfg sv) r) (in_now inp) (ap_addr (hs_remoteAddr h)) = ((a, b), c) \<Longrightarrow> \<not> b \<and> c = sv_synCache sv" for a b c
      using Some by (auto simp: Acquire_def split: if_splits)
    obtain a b c where acq: "Acquire (sv_synCache sv) (cacheKey (sv_cfg sv) r) (in_now inp) (ap_addr (hs_remoteAddr h)) = ((a, b), c)"
      by (metis prod.collapse)
    have ended: "once_inv t0 n (endHandshake i sv')" if "sv_synCache sv' = sv_synCache sv" "sv_handshakes sv' = sv_handshakes sv" "sv_log sv' = sv_log sv"
      "sv_cfg sv' = sv_cfg sv" for sv'
      using once_end [of t0 n sv' i] once_frame [OF that] assms(1-3) that(2) by simp
    show ?thesis using keep [OF acq] Inr acq by (cases a) (simp_all add: startTurn_def sv_reply_def ended)
  qed
qed

lemma Complete_entries:
  "map_of (sc_entries (Complete c key ack)) x = None \<longleftrightarrow> map_of (sc_entries c) x = None"
  "map_of (sc_entries (Complete c key ack)) x = Some e \<Longrightarrow> \<exists>e'. map_of (sc_entries c) x = Some e' \<and> rec_createdAt e = rec_createdAt e'"
  "length (sc_entries (Complete c key ack)) = length (sc_entries c)"
  "distinct (map fst (sc_entries c)) \<Longrightarrow> distinct (map fst (sc_entries (Complete c key ack)))"
proof -
  have mem: "key \<in> fst ` set (sc_entries c)" if "map_of (sc_entries c) key = Some r" for r
    using that by (metis domI dom_map_of_conv_image_fst)
  show "map_of (sc_entries (Complete c key ack)) x = None \<longleftrightarrow> map_of (sc_entries c) x = None"
    "map_of (sc_entries (Complete c key ack)) x = Some e \<Longrightarrow> \<exists>e'. map_of (sc_entries c) x = Some e' \<and> rec_createdAt e = rec_createdAt e'"
    "length (sc_entries (Complete c key ack)) = length (sc_entries c)"
    "distinct (map fst (sc_entries c)) \<Longrightarrow> distinct (map fst (sc_entries (Complete c key ack)))"
    using mem length_update_mem [of key "sc_entries c"]
    by (cases "map_of (sc_entries c) key"; auto simp: Complete_def update_conv' distinct_update simp del: map_of_eq_Some_iff split: if_splits)+
qed

text \<open>The owner of a key becomes its completed handshake.\<close>

lemma once_complete:
  assumes "once_inv t0 n sv" "i < length (sv_handshakes sv)" "phase_request (hs_phase (sv_handshakes sv ! i)) = Some r"
    and sv': "sv_synCache sv' = Complete (sv_synCache sv) (cacheKey (sv_cfg sv) r) ack" "sv_handshakes sv' = sv_handshakes sv"
      "sv_log sv' = sv_log sv @ [cacheKey (sv_cfg sv) r]" "sv_cfg sv' = sv_cfg sv"
  shows "once_inv t0 n (endHandshake i sv')"
proof -
  have own: "owns (sv_cfg sv) x (sv_handshakes sv ! i) \<longleftrightarrow> x = cacheKey (sv_cfg sv) r" for x
    using assms(3) by (auto simp: owns_def)
  have cl: "claims (endHandshake i sv') x = claims sv x" for x
    using claims_frame [of i sv' x] assms(2) own [of x] sv' by (simp add: claims_def split: if_splits)
  have "length (filter fresh_hs (sv_handshakes (endHandshake i sv'))) \<le> length (filter fresh_hs (sv_handshakes sv))"
    using fresh_end [of i sv'] assms(2) sv'(2) by simp
  then have len: "length (sc_entries (sv_synCache sv)) + length (filter fresh_hs (sv_handshakes (endHandshake i sv'))) \<le> n"
    using assms(1) by (simp add: once_inv_def)
  have "t0 \<le> rec_createdAt e" if "map_of (sc_entries (Complete (sv_synCache sv) (cacheKey (sv_cfg sv) r) ack)) x = Some e" for x e
    using Complete_entries(2) [OF that] assms(1) unfolding once_inv_def by metis
  then show ?thesis
    using assms(1) len unfolding once_inv_def cl end_cache sv'(1) Complete_entries(1,3) by (simp add: Complete_entries(4))
qed

lemma once_registerTurn:
  assumes "once_inv t0 n sv" "i < length (sv_handshakes sv)" "phase_request (hs_phase (sv_handshakes sv ! i)) = Some r"
  shows "once_inv t0 n (registerTurn i h r noise sid serverNonce k sess inp sv)"
proof -
  have "once_inv t0 n (abortHandshake i r (sv\<lparr>sv_sessions := xs\<rparr>))" for xs
    using assms by (intro once_abort) simp_all
  moreover have "once_inv t0 n (endHandshake i (sv_reply h ack (sv\<lparr>sv_sessions := xs, sv_liveSessions := m,
      sv_synCache := Complete (sv_synCache sv) (cacheKey (sv_cfg sv) r) ack, sv_log := sv_log sv @ [cacheKey (sv_cfg sv) r]\<rparr>)))" for xs m ack
    by (rule once_complete [OF assms, where ack = ack]) (simp_all add: sv_reply_def)
  ultimately show ?thesis using once_abort [OF assms] by (simp add: registerTurn_def Let_def)
qed

lemma once_handshakeTurn:
  assumes "once_inv t0 n sv" "n \<le> synCacheMax" "t0 \<le> in_now inp" "in_now inp \<le> t0 + synCacheTTL"
  shows "once_inv t0 n (handshakeTurn i inp sv)"
proof (cases "i < length (sv_handshakes sv)")
  case True
  note abort = once_abort [OF assms(1) True] and phase = once_setPhase [OF assms(1) True]
  show ?thesis
  proof (cases "hs_phase (sv_handshakes sv ! i)")
    case (Started f psk)
    then show ?thesis using True once_startTurn [OF assms(1) True _ assms(2-4)] by (simp add: handshakeTurn_def fresh_hs_def)
  next
    case (AwaitSlot r)
    then show ?thesis using True abort [of r] phase [of r] assms(1)
      by (simp add: handshakeTurn_def slotTurn_def split: slot_choice.split sum.split option.split)
  next
    case (AwaitDial r noise sid)
    then show ?thesis using True abort [of r] phase [of r] by (simp add: handshakeTurn_def dialTurn_def Let_def split: sum.split option.split)
  next
    case (Built r noise sid serverNonce k sess)
    then show ?thesis using True once_registerTurn [OF assms(1) True] by (simp add: handshakeTurn_def)
  qed
qed (simp add: handshakeTurn_def assms)

lemma once_step:
  assumes "once_inv t0 n sv" "turn_in t0 e" "n + (if is_syn (ev_magic (sc_env (sv_cfg sv))) e then 1 else 0) \<le> synCacheMax"
  shows "once_inv t0 (n + (if is_syn (ev_magic (sc_env (sv_cfg sv))) e then 1 else 0)) (server_step e sv)"
proof (cases e)
  case (Packet buf a port now rnd)
  have mono: "once_inv t0 n sv' \<Longrightarrow> once_inv t0 (Suc n) sv'" for sv' by (auto simp: once_inv_def)
  have "once_inv t0 (Suc n) (spawnHandshake a port f now sv)" for f
  proof -
    obtain ok l where al: "Allow (sv_synLimiter sv) (sv_addrString sv (ap_addr a)) now = (ok, l)" by fastforce
    have "once_inv t0 n (sv\<lparr>sv_synLimiter := l\<rparr>)" using assms(1) by simp
    moreover have "once_inv t0 (Suc n) (sv\<lparr>sv_synLimiter := l, sv_handshakes := sv_handshakes sv @ [\<lparr> hs_remoteAddr = a, hs_origPort = port, hs_phase = Started f psk \<rparr>]\<rparr>)" for psk
      using assms(1) by (simp add: once_inv_def claims_def owns_def fresh_hs_def)
    ultimately show ?thesis by (simp add: spawnHandshake_def al Let_def mono)
  qed
  then show ?thesis using Packet mono assms(1) by (auto simp: servePacket_def split: sum.split)
qed (use assms in \<open>auto simp: once_handshakeTurn cleanup_def closeServer_def\<close>)

lemma step_cfg [simp]: "sv_cfg (server_step e sv) = sv_cfg sv"
  by (cases e) (auto simp: servePacket_def spawnHandshake_def Let_def cleanup_def closeServer_def handshakeTurn_def startTurn_def slotTurn_def
      dialTurn_def registerTurn_def abortHandshake_def sv_reply_def split: sum.split prod.split option.split hsPhase.split slot_choice.split)

lemma once_run:
  assumes "once_inv t0 n sv" "list_all (turn_in t0) es" "n + length (filter (is_syn (ev_magic (sc_env (sv_cfg sv)))) es) \<le> synCacheMax"
  shows "once_inv t0 (n + length (filter (is_syn (ev_magic (sc_env (sv_cfg sv)))) es)) (fold server_step es sv)"
  using assms
proof (induction es arbitrary: n sv)
  case (Cons e es)
  define m where "m = (if is_syn (ev_magic (sc_env (sv_cfg sv))) e then 1 else 0 :: nat)"
  have "once_inv t0 (n + m) (server_step e sv)" unfolding m_def using Cons.prems by (intro once_step) auto
  from Cons.IH [OF this] Cons.prems show ?case by (auto simp: m_def)
qed simp

lemma distinct_once: "(\<And>k. length (filter ((=) k) xs) \<le> 1) \<Longrightarrow> distinct xs"
proof (induction xs)
  case (Cons x xs)
  have "length (filter ((=) k) xs) \<le> 1" for k using Cons.prems [of k] by (simp split: if_splits)
  moreover have "x \<notin> set xs" using Cons.prems [of x] by (auto simp: filter_empty_conv)
  ultimately show ?case using Cons.IH by simp
qed simp

lemma sessions_lookup: "distinct (map fst xs) \<Longrightarrow> list_all P xs \<longleftrightarrow> (\<forall>k v. map_of xs k = Some v \<longrightarrow> P (k, v))"
  by (simp add: list_all_iff) (metis surj_pair)

subsection \<open>The sample run\<close>

lemma sample_spawn:
  assumes "parseUDPCFrame w (ev_magic sample_env) = Inr f" "Cmd f = CMD_HANDSHAKE_SYN" "SessionID f = 0" "PacketNo f = 0" "Seq f = 0" "Ack f = 0"
    "synPayloadBase \<le> length (Data f)" "matchSynPSK sample_crypto (raw f) [''key''] (take clientNonceSize (Data f)) = ''key''"
    "sv_cfg sv = sample_server" "\<not> sv_closed sv" "sv_handshakes sv = hs" "list_all (\<lambda>h. \<not> holdsSlot (hs_phase h)) hs"
    "fst (Allow (sv_synLimiter sv) (sv_addrString sv (ap_addr a)) now)"
  shows "server_step (Packet w a port now rnd) sv = sv\<lparr>sv_synLimiter := snd (Allow (sv_synLimiter sv) (sv_addrString sv (ap_addr a)) now),
     sv_handshakes := hs @ [\<lparr> hs_remoteAddr = a, hs_origPort = port, hs_phase = Started f ''key'' \<rparr>]\<rparr>"
proof -
  have "slotsHeld (sv\<lparr>sv_synLimiter := l\<rparr>) = 0" for l
    using assms(11,12) by (simp add: slotsHeld_def list_all_iff filter_empty_conv)
  moreover have "sc_env sample_server = sample_env" "ev_crypto sample_env = sample_crypto" "sc_passwords sample_server = [''key'']"
    by (simp_all add: sample_server_def sample_env_def)
  ultimately show ?thesis
    using assms by (cases "Allow (sv_synLimiter sv) (sv_addrString sv (ap_addr a)) now")
      (simp add: servePacket_def spawnHandshake_def Let_def handshakeMaxConcurrent_def del: matchSynPSK.simps)
qed

lemma sample_allows:
  "fst (Allow (newSynLimiter synRatePerSec synBurst) [] 0)"
  "fst (Allow (snd (Allow (newSynLimiter synRatePerSec synBurst) [] 0)) [] 0)"
  by (simp_all add: Allow_def newSynLimiter_def synRatePerSec_def synBurst_def synLimiterMaxBuckets_def refill_def pruneBuckets_def Let_def)

lemma sample_turns:
  assumes "checkSyn sample_server 0 f ''key'' 0 = Inr r" "serverNoise sample_server r (Some (replicate 32 2)) = Inr (Some noise)"
    "sv_cfg sv = sample_server" "sv_liveSessions sv = 0" "sv_sessions sv = []" "sv_synCache sv = newSynCache" "\<not> sv_closed sv" "sv_log sv = []"
    "sv_handshakes sv = [h, h]" "hs_phase h = Started f ''key''"
  shows "sv_log (fold server_step [HandshakeTurn 0 sample_input, HandshakeTurn 1 sample_input, HandshakeTurn 0 sample_input,
     HandshakeTurn 0 sample_input, HandshakeTurn 0 sample_input] sv) = [cacheKey sample_server r]"
proof -
  define key where "key = cacheKey sample_server r"
  define c where "c = reserve newSynCache key 0 (ap_addr (hs_remoteAddr h))"
  have c: "map_of (sc_entries c) key = Some \<lparr> rec_ackFrame = None, rec_createdAt = 0, rec_ownerIP = ap_addr (hs_remoteAddr h) \<rparr>"
    using reserve_roomy [of newSynCache 0 key "ap_addr (hs_remoteAddr h)"] by (simp add: c_def newSynCache_def synCacheMax_def)
  have start: "server_step (HandshakeTurn 0 sample_input) sv = setPhase 0 (AwaitSlot r) (sv\<lparr>sv_synCache := c\<rparr>)"
    using assms by (simp add: handshakeTurn_def startTurn_def sample_input_def Acquire_def newSynCache_def c_def key_def)
  define sv1 where "sv1 = sv\<lparr>sv_synCache := c, sv_handshakes := [h\<lparr>hs_phase := AwaitSlot r\<rparr>, h]\<rparr>"
  have sv1: "setPhase 0 (AwaitSlot r) (sv\<lparr>sv_synCache := c\<rparr>) = sv1" using assms(9) by (simp add: setPhase_def sv1_def)
  have again: "server_step (HandshakeTurn 1 sample_input) sv1 = sv1\<lparr>sv_handshakes := [h\<lparr>hs_phase := AwaitSlot r\<rparr>]\<rparr>"
    using assms c by (simp add: handshakeTurn_def startTurn_def sample_input_def Acquire_def sv1_def key_def endHandshake_def synCacheTTL_def)
  have "sv_log (fold server_step [HandshakeTurn 0 sample_input, HandshakeTurn 0 sample_input, HandshakeTurn 0 sample_input]
      (sv1\<lparr>sv_handshakes := [h\<lparr>hs_phase := AwaitSlot r\<rparr>]\<rparr>)) = [cacheKey sample_server r]"
    using assms by (simp add: handshakeTurn_def slotTurn_def dialTurn_def registerTurn_def sample_input_def sv1_def slotsHeld_def
        handshakeMaxConcurrent_def setPhase_def endHandshake_def sv_reply_def serverFrameKeys_def Let_def split_beta)
  then show ?thesis using start sv1 again by simp
qed

lemma sample_syn:
  obtains w f r where "parseUDPCFrame w (ev_magic sample_env) = Inr f" "Cmd f = CMD_HANDSHAKE_SYN" "SessionID f = 0" "PacketNo f = 0" "Seq f = 0"
    "Ack f = 0" "synPayloadBase \<le> length (Data f)" "matchSynPSK sample_crypto (raw f) [''key''] (take clientNonceSize (Data f)) = ''key''"
    "checkSyn sample_server 0 f ''key'' 0 = Inr r"
    "\<exists>noise. serverNoise sample_server r (Some (replicate 32 2)) = Inr noise \<and> noise \<noteq> None"
proof -
  obtain h pend' w where s: "startHandshake sample_client [] [] (Some (replicate 32 1)) (Some (replicate 16 5)) 0 = (Inr h, pend')"
    "sealSyn sample_client h 1 = Some w" "attemptPSK sample_client 1 = ''key''"
    by (rule sample_start)
  obtain f msg1 nk where f: "parseUDPCFrame w (ev_magic sample_env) = Inr f" "clientNK sample_client (Some (replicate 32 1)) = Inr (msg1, nk)"
      "matchSynPSK sample_crypto (raw f) [''key''] (take clientNonceSize (Data f)) = ''key''"
      "checkSyn sample_server 0 f ''key'' 0 = Inr \<lparr> hr_flags = synFlags sample_client, hr_psk = ''key'',
         hr_clientNonce = replicate 16 5, hr_target = [], hr_noiseMsg1 = msg1 \<rparr>"
    using syn_accepted [OF sample_matching s(1) _ s(2), of 0 0] s(3) sample_sole
    by (auto simp: clientNonceSize_def sample_server_def sample_env_def synTimestampWindow_def sample_client_def)
  have "f = (synFrame sample_client h)\<lparr>raw := w\<rparr>"
    using sealed_handshake(1) [OF s(2) [unfolded sealSyn_def]] f(1)
    by (simp add: synFrame_def validUDPCCommand_def cmd_defs sample_client_def sample_env_def)
  then show ?thesis
    using that [OF f(1) _ _ _ _ _ _ f(3,4)] f(2,4) sample_server_noise [of "\<lparr> hr_flags = synFlags sample_client, hr_psk = ''key'',
         hr_clientNonce = replicate 16 5, hr_target = [], hr_noiseMsg1 = msg1 \<rparr>"]
    by (auto simp: synFrame_def checkSyn_def Let_def split: if_splits)
qed

section \<open>Properties\<close>





end
