(* ===== verification/Spec2Isabelle.thy ===== *)
theory Spec2Isabelle
  imports AckCoalesce Replay Framing ChunkPipe FecReceiver Mtu PortSelector Targets ServerTable
begin

text \<open>
  Verification of the UDP tunnel of \<^verbatim>\<open>src/tunnel\<close>.

  \<^bold>\<open>The program.\<close>  A client carries byte streams over UDP datagrams to a server, which forwards each
  stream to a target.  A handshake (SYN and acknowledgement, authenticated by a pre-shared key,
  optionally with a Noise NK exchange) creates a session with a number and two record keys.  Every
  later frame is an authenticated record with its own packet number.  Records are acknowledged,
  repaired, reordered and delivered in sequence; parity records repair losses without a round trip;
  a congestion window and a pacer bound the sender; probing finds the record size the path carries;
  the client spreads its datagrams over a range of ports, and the server answers on the path the
  client last used.

  \<^bold>\<open>How the theories correspond to the code.\<close>
  \<^item> \<open>Prelude\<close>: byte slices, big-endian integers, bitmaps of words, association lists, and the
    interfaces \<open>wire_codec\<close>, \<open>canonical_codec\<close> and \<open>dedup_filter\<close>.
  \<^item> \<open>Sha256\<close>: SHA-256 and HMAC, which the handshake MAC uses.
  \<^item> \<open>Protocol\<close> (\<^verbatim>\<open>protocol.go\<close>): the frame codec, the MAC of handshake frames, the shapes of session
    frames, the payloads of SYN and acknowledgement.
  \<^item> \<open>Noise\<close> (\<^verbatim>\<open>noise.go\<close>, key derivation of \<^verbatim>\<open>protocol.go\<close>): the Noise NK handshake, the record
    protection, the keys from a pre-shared key.
  \<^item> \<open>Replay\<close>, \<open>Paths\<close>, \<open>SynGuard\<close>, \<open>Targets\<close> (\<^verbatim>\<open>server.go\<close>): the replay window, the reply paths and
    path challenges of a session, the handshake cache and the limiter, the allow list.
  \<^item> \<open>Rtt\<close> (\<^verbatim>\<open>rtt_estimator.go\<close>), \<open>SendFlow\<close> and \<open>Retransmit\<close> (\<^verbatim>\<open>recovery.go\<close>), \<open>AckCoalesce\<close>
    (\<^verbatim>\<open>session_transport.go\<close>), \<open>Delivery\<close> (\<^verbatim>\<open>delivery.go\<close>): the two halves of the reliable stream.
  \<^item> \<open>Fec\<close> and \<open>FecReceiver\<close> (\<^verbatim>\<open>fec.go\<close>): parity blocks, sending and receiving.
  \<^item> \<open>Mtu\<close> (\<^verbatim>\<open>mtu.go\<close>, \<^verbatim>\<open>mtuprobe.go\<close>): the record budget and its probing.
  \<^item> \<open>GoText\<close>, \<open>PortRange\<close>, \<open>PathQuality\<close>, \<open>PortSelector\<close> (\<^verbatim>\<open>portrange.go\<close>, \<^verbatim>\<open>pathquality.go\<close>,
    \<^verbatim>\<open>spread.go\<close>): the text functions of the parsers, port ranges, path scores, the choice of ports.
  \<^item> \<open>Framing\<close> (\<^verbatim>\<open>framing.go\<close>) and \<open>ChunkPipe\<close> (\<^verbatim>\<open>chunkpipe.go\<close>): messages over the stream, and the
    in-memory pipe between application and session.
  \<^item> \<open>ServerSession\<close> and \<open>ServerStream\<close> (\<^verbatim>\<open>server.go\<close>, \<^verbatim>\<open>transmit.go\<close>): an established session as one
    record whose handlers call the components above in the order of the code; its runs.
  \<^item> \<open>Handshake\<close> (\<^verbatim>\<open>server.go\<close>, \<^verbatim>\<open>client.go\<close>): both ends of the handshake.
  \<^item> \<open>ServerTable\<close> (\<^verbatim>\<open>server.go\<close>): the server, with its sessions, handshakes under way, cache and
    limiter, as one record; its runs interleave datagrams, handshake turns, session turns, the idle
    sweep and the server's end.

  A Go struct is a record, an operation a function from the old state to result and new state, an
  error or early return a value of a sum or option type.  A critical section is one step.  Go maps are
  association lists, so a statement over all lists covers every iteration order.  Clock readings and
  random draws are arguments; datagrams sent and payloads written are appended to trace fields.

  \<^bold>\<open>What is shown.\<close>
  \<^item> Wire format: the parser accepts exactly the wire forms; a MAC verifies exactly for what was sealed;
    a record opens exactly when it is the sealed form of its plaintext and header.
  \<^item> Handshake: a genuine SYN is accepted, and both sides end with exchanged keys, the same features,
    number and target; the client's wait ends.
  \<^item> Server: every session goes back to an authenticated, fresh and allowed SYN; a SYN opens at most one
    session; table, counter, registration and slots agree in every reachable state.
  \<^item> Session: the target receives the client's payloads in order, without gap, duplicate or foreign
    byte; a frame that fails a check leaves the protected state alone; packet numbers are not reused;
    a change of IP address needs the token of a challenge; a rejected DATA frame can be retried.
  \<^item> Reliability: the replay window refines the set of accepted numbers; delivery is in order and
    complete; acknowledgement snapshots are exact; repairs keep every outstanding frame; the congestion
    window keeps its bounds and a loss cut its limits.
  \<^item> Forward error correction: parity is genuine, recovery invents nothing and succeeds as soon as
    enough shards are present.
  \<^item> Path MTU: the cap never exceeds what the path was shown to carry, and on a clean path converges.
  \<^item> Ports, targets, guards, messages, pipe: searching and printing of port ranges, rounds of the
    selector, the meaning of the allow list, the rate bound per source, message boundaries under any
    chunking, order and wake-ups of the pipe.

  \<^bold>\<open>Interfaces and parameters.\<close>  The locales are interpreted on the model's own definitions: \<open>wire_codec\<close>,
  \<open>canonical_codec\<close>, \<open>dedup_filter\<close> and \<open>dealer\<close> by the codecs, the replay window and the selectors;
  \<open>session_observer\<close> and its extension \<open>session_constant\<close> by fields of the session; \<open>table_op\<close> by the
  operations the server applies to a session.  Code outside the repository is a parameter with its
  documented behaviour as named hypotheses: the primitives of \<^verbatim>\<open>golang.org/x/crypto\<close> (\<open>aead_correct\<close>,
  \<open>dh_correct\<close>, \<open>kdf_sizes\<close>), the Reed-Solomon code (\<open>mds\<close>), the network during probing; each has a
  concrete instance for the witnesses.

  \<^bold>\<open>Bounds.\<close>  Loops are structural recursion or have a proved measure; the wildcard loop and the
  splitting of a read are \<open>partial_function (option)\<close> and shown to return.  No fuel is used.  Integers keep their
  width where they can wrap (packet and sequence numbers, windows, bitmaps, lengths on the wire);
  durations are integers of nanoseconds; \<^verbatim>\<open>float64\<close> quantities are exact rationals.

  \<^bold>\<open>Not modelled.\<close>  Sockets, batching, original-destination lookup and the pool of reply sockets
  (\<^verbatim>\<open>packet_reader*.go\<close>, \<^verbatim>\<open>origdst*.go\<close>, \<^verbatim>\<open>reuseport*.go\<close>, \<^verbatim>\<open>send_batch*.go\<close>, \<^verbatim>\<open>sendsock.go\<close>) and the
  dialer's sockets in \<^verbatim>\<open>spread.go\<close> are system calls around bytes; a reply is an entry of a trace.  Buffer
  pools, logging and events (\<^verbatim>\<open>logger.go\<close>, \<^verbatim>\<open>events.go\<close>) do not affect the bytes.  The goroutines that
  read the target or the application, the session and the supervisor of the client (\<^verbatim>\<open>client.go\<close> after
  the handshake, \<^verbatim>\<open>autoreconnect.go\<close>) are not modelled: the client's session mirrors the server's, and
  its own parts (acknowledgements, MTU probing, port choice, delivery) are covered by the component
  theories.  The command line, configuration generation and share links (\<^verbatim>\<open>main.go\<close>,
  \<^verbatim>\<open>gen_config.go\<close>, \<^verbatim>\<open>uri.go\<close>, \<^verbatim>\<open>sharecrypto.go\<close>) are input and output of text.
\<close>

end
